(* ===== verification/Prelude.thy ===== *)
theory Prelude
  imports Main "HOL-Library.Word"
begin

text \<open>
  The shared layer of the development: the machine types, the error values every
  fallible operation returns, the byte memory the storage code reads and writes, the
  little-endian codecs, and the generic facts on lists, words and memories that the
  component theories use.
\<close>

unbundle bit_operations_syntax

type_synonym byte = "8 word"
type_synonym u32 = "32 word"
type_synonym u64 = "64 word"

named_theorems mem_simps \<open>reads and writes of the byte memory\<close>
named_theorems codec_simps \<open>little-endian encoding and decoding\<close>

subsection \<open>Errors\<close>

text \<open>
  One constructor per exception class the modelled code throws; the string is the
  message of the throw site, so that two sites of one class stay distinguishable.
\<close>

datatype llbt_error =
    InvalidDatabase string
  | LengthError string
  | OutOfRange string
  | InvalidArgument string
  | LogicError string
  | BadVersion nat
  | AssertionFailed string
  | MaximumFileSizeExceeded
  | InvalidFreeSpace
  | OutOfDiskSpace
  | OverflowError string

type_synonym 'a result = "llbt_error + 'a"

definition bind_result :: "'a result \<Rightarrow> ('a \<Rightarrow> 'b result) \<Rightarrow> 'b result" where
  "bind_result r f = (case r of Inl e \<Rightarrow> Inl e | Inr x \<Rightarrow> f x)"

lemma bind_result_simps [simp]:
  "bind_result (Inl e) f = Inl e"
  "bind_result (Inr x) f = f x"
  by (simp_all add: bind_result_def)

lemma bind_result_eq_Inr:
  "bind_result r f = Inr y \<longleftrightarrow> (\<exists>x. r = Inr x \<and> f x = Inr y)"
  by (cases r) auto

lemma bind_result_cong [fundef_cong]:
  "r = r' \<Longrightarrow> (\<And>x. r' = Inr x \<Longrightarrow> f x = f' x) \<Longrightarrow> bind_result r f = bind_result r' f'"
  by (cases r') auto

subsection \<open>The byte memory\<close>

type_synonym mem = "nat \<Rightarrow> byte"

definition read_mem :: "mem \<Rightarrow> nat \<Rightarrow> nat \<Rightarrow> byte list" where
  "read_mem m a n = map m [a..<a + n]"

definition write_mem :: "mem \<Rightarrow> nat \<Rightarrow> byte list \<Rightarrow> mem" where
  "write_mem m a bs = (\<lambda>i. if a \<le> i \<and> i < a + length bs then bs ! (i - a) else m i)"

lemma length_read_mem [simp]: "length (read_mem m a n) = n"
  by (simp add: read_mem_def)

lemma nth_read_mem [simp]: "i < n \<Longrightarrow> read_mem m a n ! i = m (a + i)"
  by (simp add: read_mem_def)

lemma read_mem_0 [simp]: "read_mem m a 0 = []"
  by (simp add: read_mem_def)

lemma read_mem_append: "read_mem m a (n + k) = read_mem m a n @ read_mem m (a + n) k"
  by (rule nth_equalityI) (auto simp: nth_append)

lemma read_write_mem_same [mem_simps]:
  "n = length bs \<Longrightarrow> read_mem (write_mem m a bs) a n = bs"
  by (rule nth_equalityI) (auto simp: write_mem_def)

lemma read_write_mem_disjoint [mem_simps]:
  "a + n \<le> b \<or> b + length bs \<le> a \<Longrightarrow> read_mem (write_mem m b bs) a n = read_mem m a n"
  by (rule nth_equalityI) (auto simp: write_mem_def)

lemma write_mem_nil [simp]: "write_mem m a [] = m"
  by (rule ext) (auto simp: write_mem_def)

lemma take_read_mem: "take k (read_mem m a n) = read_mem m a (min k n)"
  by (rule nth_equalityI) auto

lemma drop_read_mem: "drop k (read_mem m a n) = read_mem m (a + k) (n - k)"
  by (rule nth_equalityI) (auto simp: add.assoc)

lemma read_mem_cong:
  "(\<And>i. a \<le> i \<Longrightarrow> i < a + n \<Longrightarrow> m i = m' i) \<Longrightarrow> read_mem m a n = read_mem m' a n"
  by (rule nth_equalityI) auto

subsection \<open>Segments of lists and overwriting them\<close>

definition segment :: "nat \<Rightarrow> nat \<Rightarrow> 'a list \<Rightarrow> 'a list" where
  "segment a n xs = take n (drop a xs)"

definition overwrite :: "nat \<Rightarrow> 'a list \<Rightarrow> 'a list \<Rightarrow> 'a list" where
  "overwrite a ys xs = take a xs @ ys @ drop (a + length ys) xs"

lemma length_segment: "length (segment a n xs) = min n (length xs - a)"
  by (simp add: segment_def)

lemma length_overwrite [simp]: "a + length ys \<le> length xs \<Longrightarrow> length (overwrite a ys xs) = length xs"
  by (simp add: overwrite_def)

lemma nth_overwrite:
  "a + length ys \<le> length xs \<Longrightarrow> i < length xs \<Longrightarrow>
   overwrite a ys xs ! i = (if a \<le> i \<and> i < a + length ys then ys ! (i - a) else xs ! i)"
  by (auto simp: overwrite_def nth_append min_def)

lemma nth_segment: "i < n \<Longrightarrow> a + i < length xs \<Longrightarrow> segment a n xs ! i = xs ! (a + i)"
  by (simp add: segment_def)

lemma segment_read_mem: "a + n \<le> k \<Longrightarrow> segment a n (read_mem m b k) = read_mem m (b + a) n"
  by (rule nth_equalityI) (auto simp: segment_def add.assoc)

subsection \<open>Little-endian words\<close>

text \<open>
  \<^verbatim>\<open>memcpy\<close> between an integer and bytes on the little-endian targets the
  file format assumes: \<open>le_bytes n w\<close> are the \<open>n\<close> low bytes of \<open>w\<close>, lowest first,
  and \<open>le_word bs\<close> is the word whose bytes are \<open>bs\<close>.
\<close>

definition le_bytes :: "nat \<Rightarrow> 'a::len word \<Rightarrow> byte list" where
  "le_bytes n w = map (\<lambda>i. ucast (drop_bit (8 * i) w)) [0..<n]"

definition le_word :: "byte list \<Rightarrow> 'a::len word" where
  "le_word bs = foldr (\<lambda>b w. push_bit 8 w OR ucast b) bs 0"

lemma length_le_bytes [simp]: "length (le_bytes n w) = n"
  by (simp add: le_bytes_def)

lemma nth_le_bytes [simp]: "i < n \<Longrightarrow> le_bytes n w ! i = ucast (drop_bit (8 * i) w)"
  by (simp add: le_bytes_def)

lemma bit_le_word:
  "bit (le_word bs :: 'a::len word) n \<longleftrightarrow>
     n < LENGTH('a) \<and> n div 8 < length bs \<and> bit (bs ! (n div 8)) (n mod 8)"
proof (induction bs arbitrary: n)
  case Nil
  then show ?case by (simp add: le_word_def)
next
  case (Cons b bs)
  have "bit (le_word (b # bs) :: 'a word) n \<longleftrightarrow>
      n < LENGTH('a) \<and> (8 \<le> n \<and> bit (le_word bs :: 'a word) (n - 8) \<or> n < 8 \<and> bit b n)"
    by (auto simp: le_word_def bit_simps dest: bit_imp_le_length)
  also have "\<dots> \<longleftrightarrow> n < LENGTH('a) \<and> n div 8 < length (b # bs) \<and> bit ((b # bs) ! (n div 8)) (n mod 8)"
  proof (cases "8 \<le> n")
    case True
    then have "n div 8 = Suc ((n - 8) div 8)" "n mod 8 = (n - 8) mod 8"
      by (simp_all add: le_div_geq le_mod_geq)
    with True show ?thesis by (auto simp: Cons.IH)
  qed auto
  finally show ?case .
qed

lemma bit_byte_le_bytes:
  "i < n \<Longrightarrow> bit (le_bytes n (w :: 'a::len word) ! i) k \<longleftrightarrow> k < 8 \<and> bit w (8 * i + k)"
  by (auto simp: bit_simps add.commute)

lemma le_word_le_bytes [codec_simps]:
  "LENGTH('a) \<le> 8 * n \<Longrightarrow> le_word (le_bytes n w) = (w :: 'a::len word)"
proof (rule bit_word_eqI)
  fix k assume "LENGTH('a) \<le> 8 * n" "k < LENGTH('a)"
  moreover from this have "k div 8 < n" by auto
  ultimately show "bit (le_word (le_bytes n w) :: 'a word) k = bit w k"
    by (simp add: bit_le_word bit_byte_le_bytes del: nth_le_bytes)
qed

lemma le_bytes_le_word [codec_simps]:
  assumes "length bs = n" "8 * n \<le> LENGTH('a)"
  shows "le_bytes n (le_word bs :: 'a::len word) = bs"
proof (rule nth_equalityI)
  show "length (le_bytes n (le_word bs :: 'a word)) = length bs" using assms by simp
next
  fix i assume "i < length (le_bytes n (le_word bs :: 'a word))"
  then have i: "i < n" by simp
  show "le_bytes n (le_word bs :: 'a word) ! i = bs ! i"
  proof (rule bit_word_eqI)
    fix k :: nat assume "k < LENGTH(8)"
    then have k: "k < 8" by simp
    then have "(8 * i + k) div 8 = i" "(8 * i + k) mod 8 = k" "8 * i + k < LENGTH('a)"
      using i assms by auto
    with i k assms show "bit (le_bytes n (le_word bs :: 'a word) ! i) k = bit (bs ! i) k"
      by (simp add: bit_byte_le_bytes bit_le_word del: nth_le_bytes)
  qed
qed

lemma le_bytes_inj: "LENGTH('a) \<le> 8 * n \<Longrightarrow> le_bytes n w = le_bytes n w' \<Longrightarrow> w = (w' :: 'a::len word)"
  by (metis le_word_le_bytes)

end
