(* ===== verification/Crc32c.thy ===== *)
theory Crc32c
  imports Prelude
begin

text \<open>
  The checksum of the storage engine, \<^verbatim>\<open>src/llbt/core/crc32c.cpp\<close>: the
  byte table (\<open>make_table\<close>), the table-driven loop of \<^verbatim>\<open>Crc32c::compute\<close>
  (\<open>crc_compute\<close>) and the SSE4.2 loop (\<open>compute_sse42\<close>), whose two instructions
  are parameters. The lemmas relate both loops to the bit-at-a-time definition of the
  checksum and show that a change of one byte always changes the checksum.
\<close>

subsection \<open>The code\<close>

definition crc_poly :: u32 where
  "crc_poly = 0x82f63b78"

definition crc_bit :: "u32 \<Rightarrow> u32" where
  "crc_bit crc = (drop_bit 1 crc) XOR (crc_poly AND (0 - (crc AND 1)))"

definition make_table :: "u32 list" where
  "make_table = map (\<lambda>i. (crc_bit ^^ 8) (of_nat i)) [0..<256]"

definition crc_update :: "u32 \<Rightarrow> byte \<Rightarrow> u32" where
  "crc_update crc b = make_table ! unat ((crc XOR ucast b) AND 0xff) XOR drop_bit 8 crc"

fun crc_loop :: "u32 \<Rightarrow> byte list \<Rightarrow> u32" where
  "crc_loop crc [] = crc"
| "crc_loop crc (b # bs) = crc_loop (crc_update crc b) bs"

definition crc_compute :: "byte list \<Rightarrow> u32" where
  "crc_compute bs = NOT (crc_loop 0xffffffff bs)"

text \<open>
  \<^verbatim>\<open>compute_sse42\<close>: eight bytes at a time while at least eight are left
  (\<^verbatim>\<open>memcpy\<close> into a word, little endian), then byte by byte. The instructions
  \<^verbatim>\<open>_mm_crc32_u64\<close> and \<^verbatim>\<open>_mm_crc32_u8\<close> are the parameters
  \<open>mm64\<close> and \<open>mm8\<close>.
\<close>

fun sse42_words :: "(u64 \<Rightarrow> u64 \<Rightarrow> u64) \<Rightarrow> u64 \<Rightarrow> byte list \<Rightarrow> u64 \<times> byte list" where
  "sse42_words mm64 crc bs =
     (if 8 \<le> length bs
      then sse42_words mm64 (mm64 crc (le_word (take 8 bs))) (drop 8 bs)
      else (crc, bs))"

declare sse42_words.simps [simp del]

definition compute_sse42 ::
    "(u64 \<Rightarrow> u64 \<Rightarrow> u64) \<Rightarrow> (u32 \<Rightarrow> byte \<Rightarrow> u32) \<Rightarrow> byte list \<Rightarrow> u32" where
  "compute_sse42 mm64 mm8 bs =
     (let (crc, rest) = sse42_words mm64 0xffffffff bs
      in NOT (foldl mm8 (ucast crc) rest))"

subsection \<open>The bit-at-a-time definition\<close>

definition crc_byte :: "u32 \<Rightarrow> byte \<Rightarrow> u32" where
  "crc_byte crc b = (crc_bit ^^ 8) (crc XOR ucast b)"

definition crc_spec :: "byte list \<Rightarrow> u32" where
  "crc_spec bs = NOT (foldl crc_byte 0xffffffff bs)"

lemma crc_bit_alt: "crc_bit c = (if odd c then drop_bit 1 c XOR crc_poly else drop_bit 1 c)"
proof -
  have "c AND 1 = (if odd c then 1 else 0)"
    by (simp add: and_one_eq odd_iff_mod_2_eq_one)
  then show ?thesis by (simp add: crc_bit_def)
qed

lemma crc_bit_xor: "crc_bit (a XOR b) = crc_bit a XOR crc_bit b"
proof -
  have odd: "odd (a XOR b) \<longleftrightarrow> odd a \<noteq> odd b"
    using bit_xor_iff [of a b 0] by (simp add: bit_0)
  show ?thesis
    by (auto simp: crc_bit_alt odd drop_bit_xor xor.assoc xor.commute xor.left_commute)
qed

lemma crc_bit_funpow_xor: "(crc_bit ^^ n) (a XOR b) = (crc_bit ^^ n) a XOR (crc_bit ^^ n) b"
  by (induction n) (simp_all add: crc_bit_xor)

lemma crc_bit_even: "even c \<Longrightarrow> crc_bit c = drop_bit 1 c"
  by (simp add: crc_bit_alt)

lemma crc_bit_funpow_shift:
  "(\<And>i. i < n \<Longrightarrow> \<not> bit c i) \<Longrightarrow> (crc_bit ^^ n) c = drop_bit n c"
proof (induction n arbitrary: c)
  case 0
  then show ?case by simp
next
  case (Suc n)
  have "even c" using Suc.prems [of 0] by (simp add: bit_0)
  then have 1: "crc_bit c = drop_bit 1 c" by (rule crc_bit_even)
  have 2: "\<not> bit (drop_bit 1 c) i" if "i < n" for i
    using Suc.prems [of "Suc i"] that by (simp add: bit_drop_bit_eq)
  have "(crc_bit ^^ Suc n) c = (crc_bit ^^ n) (drop_bit 1 c)"
    by (simp add: funpow_Suc_right 1 del: funpow.simps)
  also have "\<dots> = drop_bit n (drop_bit 1 c)"
    using 2 by (rule Suc.IH)
  finally show ?case by simp
qed

lemma ff_eq_mask: "(0xff :: u32) = mask 8"
  by (simp add: mask_eq_exp_minus_1)

lemma xor_cancel_left: "a XOR b = a XOR c \<longleftrightarrow> b = c" for a b c :: "'a::len word"
proof
  assume "a XOR b = a XOR c"
  then have "a XOR (a XOR b) = a XOR (a XOR c)" by simp
  then show "b = c" by (simp add: xor.assoc [symmetric])
qed simp

lemma xor_cancel_right: "b XOR a = c XOR a \<longleftrightarrow> b = c" for a b c :: "'a::len word"
  using xor_cancel_left [of a b c] by (simp add: xor.commute)

lemma split_low_byte: "x = (x AND 0xff) XOR (x AND NOT 0xff)" for x :: u32
  unfolding ff_eq_mask by (rule bit_word_eqI) (auto simp: bit_simps)

lemma make_table_nth: "n < 256 \<Longrightarrow> make_table ! n = (crc_bit ^^ 8) (of_nat n)"
  by (simp add: make_table_def)

lemma low_byte_lt: "unat ((x :: u32) AND 0xff) < 256"
proof -
  have "unat (x AND 0xff) \<le> unat (0xff :: u32)"
    by (rule word_and_le1 [THEN word_le_nat_alt [THEN iffD1]])
  then show ?thesis by simp
qed

lemma drop_8_xor_byte: "drop_bit 8 (crc XOR ucast b) = drop_bit 8 crc"
  for crc :: u32 and b :: byte
  by (rule bit_word_eqI) (auto simp: bit_simps dest: bit_imp_le_length)

lemma crc_update_eq_byte: "crc_update crc b = crc_byte crc b"
proof -
  define x where "x = crc XOR ucast b"
  have "(crc_bit ^^ 8) x = (crc_bit ^^ 8) (x AND 0xff) XOR (crc_bit ^^ 8) (x AND NOT 0xff)"
    using split_low_byte [of x] crc_bit_funpow_xor by metis
  also have "(crc_bit ^^ 8) (x AND NOT 0xff) = drop_bit 8 (x AND NOT 0xff)"
    unfolding ff_eq_mask by (rule crc_bit_funpow_shift) (simp add: bit_simps)
  also have "\<dots> = drop_bit 8 x"
    unfolding ff_eq_mask
    by (rule bit_word_eqI) (auto simp: bit_simps dest: bit_imp_le_length)
  also have "\<dots> = drop_bit 8 crc"
    unfolding x_def by (rule drop_8_xor_byte)
  finally show ?thesis
    using low_byte_lt [of x]
    by (simp add: crc_update_def crc_byte_def x_def [symmetric] make_table_nth)
qed

lemma crc_loop_eq_foldl: "crc_loop crc bs = foldl crc_byte crc bs"
  by (induction bs arbitrary: crc) (simp_all add: crc_update_eq_byte)

lemma crc_compute_eq_spec: "crc_compute bs = crc_spec bs"
  by (simp add: crc_compute_def crc_spec_def crc_loop_eq_foldl)

subsection \<open>A one-byte change is always detected\<close>

lemma crc_bit_top: "bit (crc_bit c) 31 \<longleftrightarrow> odd c"
proof -
  have "\<not> bit c 32" using bit_imp_le_length [of c 32] by auto
  then show ?thesis by (simp add: crc_bit_alt bit_simps crc_poly_def)
qed

lemma crc_bit_inj: "inj crc_bit"
proof (rule injI)
  fix a b :: u32
  assume eq: "crc_bit a = crc_bit b"
  then have par: "odd a = odd b" using crc_bit_top by metis
  with eq have "drop_bit 1 a = drop_bit 1 b"
    by (simp add: crc_bit_alt xor_cancel_right split: if_splits)
  then have "bit (drop_bit 1 a) n = bit (drop_bit 1 b) n" for n by simp
  then have suc: "bit a (Suc n) = bit b (Suc n)" for n
    by (simp add: bit_drop_bit_eq)
  show "a = b"
  proof (rule bit_eqI)
    fix n show "bit a n = bit b n"
      using par suc by (cases n) (simp_all add: bit_0)
  qed
qed

lemma ucast_up_inj: "(ucast b :: u32) = ucast b' \<longleftrightarrow> b = b'" for b b' :: byte
proof
  assume "(ucast b :: u32) = ucast b'"
  then have eq: "bit (ucast b :: u32) n = bit (ucast b' :: u32) n" for n by simp
  show "b = b'"
  proof (rule bit_word_eqI)
    fix n :: nat assume "n < LENGTH(8)"
    then show "bit b n = bit b' n" using eq [of n] by (simp add: bit_ucast_iff)
  qed
qed simp

lemma crc_byte_eq_iff: "crc_byte c b = crc_byte c' b' \<longleftrightarrow> c XOR ucast b = c' XOR ucast b'"
  using inj_fn [OF crc_bit_inj, of 8] by (auto simp: crc_byte_def inj_eq)

lemma crc_byte_inj_state: "crc_byte c b = crc_byte c' b \<Longrightarrow> c = c'"
  by (simp add: crc_byte_eq_iff xor_cancel_right)

lemma crc_byte_inj_byte: "crc_byte c b = crc_byte c b' \<Longrightarrow> b = b'"
  by (simp add: crc_byte_eq_iff xor_cancel_left ucast_up_inj)

lemma foldl_crc_byte_inj: "foldl crc_byte c bs = foldl crc_byte c' bs \<Longrightarrow> c = c'"
  by (induction bs arbitrary: c c') (auto dest: crc_byte_inj_state)

lemma not_word_inject: "(NOT a = NOT b) = (a = b)" for a b :: "'a::len word"
  by (metis bit.double_compl)

lemma crc_compute_eq_iff_loop:
  "crc_compute xs = crc_compute ys \<longleftrightarrow> foldl crc_byte 0xffffffff xs = foldl crc_byte 0xffffffff ys"
  by (simp add: crc_compute_eq_spec crc_spec_def not_word_inject)

lemma crc_detects_byte_change:
  assumes "i < length bs" "b \<noteq> bs ! i"
  shows "crc_compute (bs[i := b]) \<noteq> crc_compute bs"
proof
  assume "crc_compute (bs[i := b]) = crc_compute bs"
  moreover have "bs[i := b] = take i bs @ b # drop (Suc i) bs"
    using assms(1) by (rule upd_conv_take_nth_drop)
  moreover have "bs = take i bs @ bs ! i # drop (Suc i) bs"
    using assms(1) by (rule id_take_nth_drop)
  ultimately have "foldl crc_byte 0xffffffff (take i bs @ b # drop (Suc i) bs)
      = foldl crc_byte 0xffffffff (take i bs @ bs ! i # drop (Suc i) bs)"
    using crc_compute_eq_iff_loop by metis
  then have "b = bs ! i"
    by (auto dest: foldl_crc_byte_inj crc_byte_inj_byte)
  with assms(2) show False by simp
qed

subsection \<open>The SSE4.2 loop\<close>

lemma sse42_words_spec:
  assumes mm64: "\<And>c w. mm64 (ucast c) w = ucast (foldl crc_byte c (le_bytes 8 w))"
  shows "\<exists>c' rest. sse42_words mm64 (ucast c) bs = (ucast c', rest) \<and>
           foldl crc_byte c' rest = foldl crc_byte c bs"
proof (induction "length bs" arbitrary: c bs rule: less_induct)
  case less
  show ?case
  proof (cases "8 \<le> length bs")
    case True
    define c' where "c' = foldl crc_byte c (take 8 bs)"
    have step: "mm64 (ucast c) (le_word (take 8 bs)) = ucast c'"
      using True by (simp add: mm64 le_bytes_le_word c'_def)
    have "length (drop 8 bs) < length bs" using True by simp
    from less [OF this, of c'] obtain c'' rest where
        IH: "sse42_words mm64 (ucast c') (drop 8 bs) = (ucast c'', rest)"
        "foldl crc_byte c'' rest = foldl crc_byte c' (drop 8 bs)"
      by blast
    have "foldl crc_byte c' (drop 8 bs) = foldl crc_byte c bs"
      unfolding c'_def by (metis append_take_drop_id foldl_append)
    with step IH True show ?thesis
      by (auto simp: sse42_words.simps [of mm64 "ucast c" bs])
  qed (auto simp: sse42_words.simps [of mm64 "ucast c" bs])
qed

lemma ucast_u64_u32: "(ucast (ucast c :: u64) :: u32) = c" for c :: u32
  by (rule bit_word_eqI) (simp add: bit_ucast_iff)

lemma compute_sse42_eq:
  assumes "\<And>c w. mm64 (ucast c) w = ucast (foldl crc_byte c (le_bytes 8 w))"
    and "\<And>c b. mm8 c b = crc_byte c b"
  shows "compute_sse42 mm64 mm8 bs = crc_compute bs"
proof -
  obtain c' rest where "sse42_words mm64 (ucast (0xffffffff :: u32)) bs = (ucast c', rest)"
      "foldl crc_byte c' rest = foldl crc_byte 0xffffffff bs"
    using sse42_words_spec [OF assms(1), of "0xffffffff" bs] by blast
  moreover have "mm8 = crc_byte" using assms(2) by (intro ext) simp
  ultimately show ?thesis
    by (simp add: compute_sse42_def crc_compute_eq_spec crc_spec_def ucast_u64_u32)
qed

subsection \<open>Properties\<close>

text \<open>
  C32: The three ways of computing the checksum agree. The table driven loop returns the
  bit-at-a-time CRC of the reflected Castagnoli polynomial, and so does the SSE4.2 loop, eight
  bytes at a time with a bytewise tail, when the two instructions advance the CRC state by eight
  bytes and by one byte as the processor manual documents.
\<close>

theorem checksum_routines_agree:
  assumes "\<And>c w. mm64 (ucast (c :: u32)) w = ucast (foldl crc_byte c (le_bytes 8 w))"
    and "\<And>c b. mm8 c b = crc_byte c b"
  shows "compute_sse42 mm64 mm8 bs = crc_compute bs \<and> crc_compute bs = crc_spec bs"
  using compute_sse42_eq [OF assms] crc_compute_eq_spec by simp

theorem checksum_routines_agree_witness:
  "compute_sse42 (\<lambda>c w. ucast (foldl crc_byte (ucast c) (le_bytes 8 w))) crc_byte [1, 2, 3]
     = crc_compute [1, 2, 3]"
  using checksum_routines_agree [of "\<lambda>c w. ucast (foldl crc_byte (ucast c) (le_bytes 8 w))" crc_byte]
  by (simp add: ucast_u64_u32)

text \<open>
  C31: A change of any one byte changes the checksum, for data of every length: the CRC state
  is an injective function of the byte and of the previous state.
\<close>

theorem checksum_detects_byte_change:
  assumes "i < length bs" "b \<noteq> bs ! i"
  shows "crc_compute (bs[i := b]) \<noteq> crc_compute bs"
  using assms by (rule crc_detects_byte_change)

theorem checksum_detects_byte_change_witness:
  "crc_compute ([10, 20, 30][1 := 21]) \<noteq> crc_compute [10, 20, 30]"
  using checksum_detects_byte_change [of 1 "[10, 20, 30]" 21] by simp

end
