(* ===== verification/Journal_Format.thy ===== *)
theory Journal_Format
  imports Prelude
begin

text \<open>
  The on-disk constants and the integer codecs of the commit journal,
  \<^verbatim>\<open>src/llbt/core/commit_journal_format.hpp\<close>. A buffer is a byte list and a
  pointer into it an index; \<open>put_u32\<close> and \<open>put_u64\<close> store byte by byte, \<open>get_u32\<close> and
  \<open>get_u64\<close> accumulate shifted bytes, as the loops of the header do. The lemmas relate
  them to the little-endian words of the prelude.
\<close>

subsection \<open>The code\<close>

definition header_magic :: u64 where "header_magic = 0x35324a4354424c4c"
definition footer_magic :: u64 where "footer_magic = 0x524554464a43544c"
definition record_version :: u32 where "record_version = 1"
definition fixed_header_size :: nat where "fixed_header_size = 64"
definition entry_size :: nat where "entry_size = 16"
definition footer_size :: nat where "footer_size = 24"
definition registry_journal_slot :: nat where "registry_journal_slot = 3"

definition aligned :: "nat \<Rightarrow> nat" where
  "aligned value = unat ((of_nat value + 7 :: u64) AND NOT 7)"

definition put_u32 :: "byte list \<Rightarrow> nat \<Rightarrow> u32 \<Rightarrow> byte list" where
  "put_u32 out p value = fold (\<lambda>i o'. o'[p + i := ucast (drop_bit (i * 8) value)]) [0..<4] out"

definition put_u64 :: "byte list \<Rightarrow> nat \<Rightarrow> u64 \<Rightarrow> byte list" where
  "put_u64 out p value = fold (\<lambda>i o'. o'[p + i := ucast (drop_bit (i * 8) value)]) [0..<8] out"

definition get_u32 :: "byte list \<Rightarrow> nat \<Rightarrow> u32" where
  "get_u32 inp p = fold (\<lambda>i value. value OR push_bit (i * 8) (ucast (inp ! (p + i)))) [0..<4] 0"

definition get_u64 :: "byte list \<Rightarrow> nat \<Rightarrow> u64" where
  "get_u64 inp p = fold (\<lambda>i value. value OR push_bit (i * 8) (ucast (inp ! (p + i)))) [0..<8] 0"

subsection \<open>Alignment\<close>

lemma seven_eq_mask: "(7 :: 'a::len word) = mask 3"
  by (simp add: mask_eq_exp_minus_1)

lemma unat_and_not_7: "unat (w AND NOT 7 :: u64) = unat w div 8 * 8"
proof -
  have split: "w AND NOT 7 = push_bit 3 (drop_bit 3 w)"
    unfolding seven_eq_mask by (rule bit_word_eqI) (auto simp: bit_simps)
  have "unat w < 2 ^ 64" using unsigned_less [of w] by simp
  then have "unat w div 8 * 8 < 2 ^ 64" by simp
  then show ?thesis
    unfolding split
    by (simp only: unsigned_push_bit_eq unat_drop_bit_eq)
      (simp add: push_bit_eq_mult drop_bit_eq_div take_bit_nat_eq_self)
qed

lemma aligned_eq: "v + 7 < 2 ^ 64 \<Longrightarrow> aligned v = (v + 7) div 8 * 8"
proof -
  assume v: "v + 7 < 2 ^ 64"
  have "(of_nat v + 7 :: u64) = of_nat (v + 7)" by simp
  also have "unat \<dots> = v + 7"
    using v by (simp only: unat_of_nat) simp
  finally show ?thesis unfolding aligned_def unat_and_not_7 by simp
qed

lemma aligned_id: "8 dvd v \<Longrightarrow> v + 7 < 2 ^ 64 \<Longrightarrow> aligned v = v"
  by (auto simp: aligned_eq elim!: dvdE)

subsection \<open>The codecs are little-endian words\<close>

lemma fold_list_update:
  assumes "p + n \<le> length out"
  shows "fold (\<lambda>i o'. o'[p + i := f i]) [0..<n] out = overwrite p (map f [0..<n]) out"
  using assms
proof (induction n)
  case 0
  then show ?case by (simp add: overwrite_def)
next
  case (Suc n)
  then show ?case
    by (intro nth_equalityI) (auto simp: nth_overwrite nth_list_update less_Suc_eq nth_append)
qed

lemma put_u32_eq [codec_simps]:
  "p + 4 \<le> length out \<Longrightarrow> put_u32 out p v = overwrite p (le_bytes 4 v) out"
  unfolding put_u32_def le_bytes_def by (simp add: fold_list_update mult.commute)

lemma put_u64_eq [codec_simps]:
  "p + 8 \<le> length out \<Longrightarrow> put_u64 out p v = overwrite p (le_bytes 8 v) out"
  unfolding put_u64_def le_bytes_def by (simp add: fold_list_update mult.commute)

lemma bit_fold_or_bytes:
  "bit (fold (\<lambda>i v. v OR push_bit (i * 8) (ucast (f i))) [0..<n] 0 :: 'a::len word) k \<longleftrightarrow>
     k < LENGTH('a) \<and> k div 8 < n \<and> bit (f (k div 8) :: byte) (k mod 8)"
proof (induction n)
  case 0
  then show ?case by simp
next
  case (Suc n)
  have shifted: "bit (push_bit (n * 8) (ucast (f n)) :: 'a word) k \<longleftrightarrow>
      k < LENGTH('a) \<and> k div 8 = n \<and> bit (f n) (k mod 8)"
  proof (cases "k div 8 = n")
    case True
    then have "k - n * 8 = k mod 8" "n * 8 \<le> k" by (auto simp: minus_mult_div_eq_mod mult.commute)
    with True show ?thesis by (auto simp: bit_simps dest: bit_imp_le_length)
  next
    case False
    then have "k < n * 8 \<or> n * 8 + 8 \<le> k" by linarith
    then show ?thesis using False by (auto simp: bit_simps dest: bit_imp_le_length)
  qed
  have "[0..<Suc n] = [0..<n] @ [n]" by simp
  then show ?case by (auto simp: Suc.IH shifted bit_or_iff less_Suc_eq)
qed

lemma get_u32_eq:
  "p + 4 \<le> length inp \<Longrightarrow> get_u32 inp p = le_word (segment p 4 inp)"
  unfolding get_u32_def
  by (rule bit_word_eqI) (auto simp: bit_fold_or_bytes bit_le_word length_segment nth_segment)

lemma get_u64_eq:
  "p + 8 \<le> length inp \<Longrightarrow> get_u64 inp p = le_word (segment p 8 inp)"
  unfolding get_u64_def
  by (rule bit_word_eqI) (auto simp: bit_fold_or_bytes bit_le_word length_segment nth_segment)

text \<open>Reading a field of a concatenation: skip what precedes it, then decode it.\<close>

lemma get_u32_skip [codec_simps]: "length xs \<le> p \<Longrightarrow> get_u32 (xs @ ys) p = get_u32 ys (p - length xs)"
  unfolding get_u32_def by (rule fold_cong) (auto simp: nth_append)

lemma get_u64_skip [codec_simps]: "length xs \<le> p \<Longrightarrow> get_u64 (xs @ ys) p = get_u64 ys (p - length xs)"
  unfolding get_u64_def by (rule fold_cong) (auto simp: nth_append)

lemma get_u32_here [codec_simps]: "get_u32 (le_bytes 4 v @ ys) 0 = v" "get_u32 (le_bytes 4 v) 0 = v"
  by (simp_all add: get_u32_eq segment_def le_word_le_bytes)

lemma get_u64_here [codec_simps]: "get_u64 (le_bytes 8 v @ ys) 0 = v" "get_u64 (le_bytes 8 v) 0 = v"
  by (simp_all add: get_u64_eq segment_def le_word_le_bytes)

lemma get_u32_take: "p + 4 \<le> n \<Longrightarrow> get_u32 (take n xs) p = get_u32 xs p"
  unfolding get_u32_def by (rule fold_cong) auto

lemma get_u64_take: "p + 8 \<le> n \<Longrightarrow> get_u64 (take n xs) p = get_u64 xs p"
  unfolding get_u64_def by (rule fold_cong) auto

end
