(* ===== verification/Node_Header.thy ===== *)
theory Node_Header
  imports Prelude
begin

text \<open>
  The eight byte header in front of every node of the file,
  \<^verbatim>\<open>src/llbt/node_header.hpp\<close>, and its initialisation in
  \<^verbatim>\<open>src/llbt/node.hpp\<close>. A header pointer is an address of the byte memory; a
  getter reads the bytes at it, a setter returns the updated memory. Byte 4 packs three
  flags, the width type and the logarithm of the width; bytes 5 to 7 hold the element
  count and bytes 0 to 2 the capacity in units of eight bytes. The assertions of the
  header are compiled out of a release build and appear as hypotheses of the lemmas.
\<close>

subsection \<open>The code\<close>

definition max_array_size :: nat where "max_array_size = 0x00ffffff"
definition max_array_payload_aligned :: nat where "max_array_payload_aligned = 0x07ffffc0"

datatype node_type = type_Normal | type_InnerBptreeNode | type_HasRefs

text \<open>The two bits of the width type have a fourth value, which no enumerator names.\<close>

datatype width_type = wtype_Bits | wtype_Multiply | wtype_Ignore | wtype_Unnamed

fun int_of_wtype :: "width_type \<Rightarrow> byte" where
  "int_of_wtype wtype_Bits = 0"
| "int_of_wtype wtype_Multiply = 1"
| "int_of_wtype wtype_Ignore = 2"
| "int_of_wtype wtype_Unnamed = 3"

definition wtype_of_int :: "byte \<Rightarrow> width_type" where
  "wtype_of_int b = (if b = 0 then wtype_Bits else if b = 1 then wtype_Multiply
     else if b = 2 then wtype_Ignore else wtype_Unnamed)"

definition header_size :: nat where "header_size = 8"

definition get_data_from_header :: "nat \<Rightarrow> nat" where
  "get_data_from_header header = header + header_size"

definition get_header_from_data :: "nat \<Rightarrow> nat" where
  "get_header_from_data data = data - header_size"

definition get_is_inner_bptree_node_from_header :: "mem \<Rightarrow> nat \<Rightarrow> bool" where
  "get_is_inner_bptree_node_from_header m h \<longleftrightarrow> m (h + 4) AND 0x80 \<noteq> 0"

definition get_hasrefs_from_header :: "mem \<Rightarrow> nat \<Rightarrow> bool" where
  "get_hasrefs_from_header m h \<longleftrightarrow> m (h + 4) AND 0x40 \<noteq> 0"

definition get_context_flag_from_header :: "mem \<Rightarrow> nat \<Rightarrow> bool" where
  "get_context_flag_from_header m h \<longleftrightarrow> m (h + 4) AND 0x20 \<noteq> 0"

definition get_wtype_from_header :: "mem \<Rightarrow> nat \<Rightarrow> width_type" where
  "get_wtype_from_header m h = wtype_of_int (drop_bit 3 (m (h + 4) AND 0x18))"

definition get_width_from_header :: "mem \<Rightarrow> nat \<Rightarrow> nat" where
  "get_width_from_header m h = drop_bit 1 (push_bit (unat (m (h + 4) AND 0x07)) 1)"

definition get_size_from_header :: "mem \<Rightarrow> nat \<Rightarrow> nat" where
  "get_size_from_header m h =
     push_bit 16 (unat (m (h + 5))) + push_bit 8 (unat (m (h + 6))) + unat (m (h + 7))"

definition get_capacity_from_header :: "mem \<Rightarrow> nat \<Rightarrow> nat" where
  "get_capacity_from_header m h =
     push_bit 19 (unat (m h)) + push_bit 11 (unat (m (h + 1))) + push_bit 3 (unat (m (h + 2)))"

definition get_type_from_header :: "mem \<Rightarrow> nat \<Rightarrow> node_type" where
  "get_type_from_header m h =
     (if get_is_inner_bptree_node_from_header m h then type_InnerBptreeNode
      else if get_hasrefs_from_header m h then type_HasRefs else type_Normal)"

definition set_is_inner_bptree_node_in_header :: "bool \<Rightarrow> mem \<Rightarrow> nat \<Rightarrow> mem" where
  "set_is_inner_bptree_node_in_header value m h =
     m(h + 4 := (m (h + 4) AND NOT 0x80) OR push_bit 7 (of_bool value))"

definition set_hasrefs_in_header :: "bool \<Rightarrow> mem \<Rightarrow> nat \<Rightarrow> mem" where
  "set_hasrefs_in_header value m h =
     m(h + 4 := (m (h + 4) AND NOT 0x40) OR push_bit 6 (of_bool value))"

definition set_context_flag_in_header :: "bool \<Rightarrow> mem \<Rightarrow> nat \<Rightarrow> mem" where
  "set_context_flag_in_header value m h =
     m(h + 4 := (m (h + 4) AND NOT 0x20) OR push_bit 5 (of_bool value))"

definition set_wtype_in_header :: "width_type \<Rightarrow> mem \<Rightarrow> nat \<Rightarrow> mem" where
  "set_wtype_in_header value m h =
     m(h + 4 := (m (h + 4) AND NOT 0x18) OR push_bit 3 (int_of_wtype value))"

fun width_log :: "nat \<Rightarrow> nat" where
  "width_log value = (if value = 0 then 0 else Suc (width_log (value div 2)))"

declare width_log.simps [simp del]

definition set_width_in_header :: "nat \<Rightarrow> mem \<Rightarrow> nat \<Rightarrow> mem" where
  "set_width_in_header value m h =
     m(h + 4 := (m (h + 4) AND NOT 0x7) OR of_nat (width_log value))"

definition set_size_in_header :: "nat \<Rightarrow> mem \<Rightarrow> nat \<Rightarrow> mem" where
  "set_size_in_header value m h =
     m(h + 5 := of_nat (drop_bit 16 value AND 0xFF),
       h + 6 := of_nat (drop_bit 8 value AND 0xFF),
       h + 7 := of_nat (value AND 0xFF))"

definition set_capacity_in_header :: "nat \<Rightarrow> mem \<Rightarrow> nat \<Rightarrow> mem" where
  "set_capacity_in_header value m h =
     m(h := of_nat (drop_bit 19 value AND 0xFF),
       h + 1 := of_nat (drop_bit 11 value AND 0xFF),
       h + 2 := of_nat (drop_bit 3 value AND 0xFF))"

definition calc_byte_size :: "width_type \<Rightarrow> nat \<Rightarrow> nat \<Rightarrow> nat" where
  "calc_byte_size wtype sz width =
     (let num_bytes =
        (case wtype of
           wtype_Bits \<Rightarrow> drop_bit 3 (sz * width + 7)
         | wtype_Multiply \<Rightarrow> sz * width
         | wtype_Ignore \<Rightarrow> sz
         | wtype_Unnamed \<Rightarrow> 0)
      in (num_bytes + 7) div 8 * 8 + header_size)"

definition get_byte_size_from_header :: "mem \<Rightarrow> nat \<Rightarrow> nat" where
  "get_byte_size_from_header m h =
     calc_byte_size (get_wtype_from_header m h) (get_size_from_header m h) (get_width_from_header m h)"

definition init_header ::
  "mem \<Rightarrow> nat \<Rightarrow> bool \<Rightarrow> bool \<Rightarrow> bool \<Rightarrow> width_type \<Rightarrow> nat \<Rightarrow> nat \<Rightarrow> nat \<Rightarrow> mem" where
  "init_header m header is_inner_bptree_node has_refs context_flag width_type width sz capacity =
     (let m = write_mem m header (replicate header_size 0);
          m = set_is_inner_bptree_node_in_header is_inner_bptree_node m header;
          m = set_hasrefs_in_header has_refs m header;
          m = set_context_flag_in_header context_flag m header;
          m = set_wtype_in_header width_type m header;
          m = set_width_in_header width m header;
          m = set_size_in_header sz m header
      in set_capacity_in_header capacity m header)"

subsection \<open>Bytes and masks\<close>

lemma byte_masks:
  "(0x80 :: byte) = push_bit 7 1" "(0x40 :: byte) = push_bit 6 1" "(0x20 :: byte) = push_bit 5 1"
  "(0x18 :: byte) = push_bit 3 (mask 2)" "(0x07 :: byte) = mask 3"
  by (simp_all add: mask_eq_exp_minus_1 push_bit_eq_mult)

lemma and_flag_iff:
  "(x :: byte) AND 0x80 \<noteq> 0 \<longleftrightarrow> bit x 7"
  "x AND 0x40 \<noteq> 0 \<longleftrightarrow> bit x 6"
  "x AND 0x20 \<noteq> 0 \<longleftrightarrow> bit x 5"
  unfolding byte_masks by (simp_all only: bit_iff_and_push_bit_not_eq_0)

lemma bit_set_flag:
  "n < 8 \<Longrightarrow> k < 8 \<Longrightarrow>
   bit ((x AND NOT (push_bit n 1)) OR push_bit n (of_bool v) :: byte) k \<longleftrightarrow> (if k = n then v else bit x k)"
  by (auto simp: bit_simps)

lemma int_of_wtype_take_bit: "take_bit 2 (int_of_wtype t) = int_of_wtype t"
  by (cases t) simp_all

lemma bit_int_of_wtype: "bit (int_of_wtype t) k \<Longrightarrow> k < 2"
  by (metis int_of_wtype_take_bit bit_take_bit_iff)

lemma wtype_of_int_of_wtype [simp]: "wtype_of_int (int_of_wtype t) = t"
  by (cases t) (simp_all add: wtype_of_int_def)

lemma get_wtype_set:
  "drop_bit 3 (((x AND NOT 0x18) OR push_bit 3 (int_of_wtype t)) AND 0x18) = int_of_wtype t"
  unfolding byte_masks
  by (rule bit_word_eqI) (auto simp: bit_simps dest: bit_int_of_wtype)

definition valid_width :: "nat \<Rightarrow> bool" where
  "valid_width w \<longleftrightarrow> w \<in> {0, 1, 2, 4, 8, 16, 32, 64}"

lemma width_log_values:
  "width_log 0 = 0" "width_log 1 = 1" "width_log 2 = 2" "width_log 4 = 3" "width_log 8 = 4"
  "width_log 16 = 5" "width_log 32 = 6" "width_log 64 = 7"
  by (simp_all add: width_log.simps [of 0] width_log.simps [of "Suc 0"] width_log.simps [of 2]
      width_log.simps [of 4] width_log.simps [of 8] width_log.simps [of 16]
      width_log.simps [of 32] width_log.simps [of 64])

lemma width_log_valid:
  "valid_width w \<Longrightarrow> width_log w < 8 \<and> drop_bit 1 (push_bit (width_log w) (1 :: nat)) = w"
  unfolding valid_width_def
  by (elim insertE emptyE; hypsubst; simp only: width_log_values) simp_all

lemma bit_of_nat_lt_8: "l < 8 \<Longrightarrow> bit (of_nat l :: byte) k \<Longrightarrow> k < 3"
proof -
  assume "l < 8" "bit (of_nat l :: byte) k"
  then have "take_bit 3 l = l" by (simp add: take_bit_nat_eq_self)
  then have "bit (of_nat (take_bit 3 l) :: byte) k" using \<open>bit (of_nat l :: byte) k\<close> by simp
  then show "k < 3" by (simp add: of_nat_take_bit bit_take_bit_iff)
qed

lemma get_width_set:
  assumes "l < 8"
  shows "unat (((x AND NOT 0x07) OR of_nat l :: byte) AND 0x07) = l"
proof -
  have "((x AND NOT 0x07) OR of_nat l) AND 0x07 = (of_nat l :: byte)"
    unfolding byte_masks using bit_of_nat_lt_8 [OF assms]
    by (intro bit_word_eqI) (auto simp only: bit_and_iff bit_or_iff bit_not_iff bit_mask_iff possible_bit_word)
  then show ?thesis using assms by (simp add: unat_of_nat)
qed

lemma byte4_frame:
  assumes "l < 8"
  shows "drop_bit 3 (((x AND NOT 0x07) OR of_nat l) AND 0x18) = drop_bit 3 (x AND 0x18 :: byte)"
proof -
  have "\<not> bit (of_nat l :: byte) (3 + k)" for k
    using bit_of_nat_lt_8 [OF assms, of "3 + k"] by auto
  then show ?thesis
    unfolding byte_masks
    by (intro bit_word_eqI)
      (auto simp only: bit_and_iff bit_or_iff bit_not_iff bit_drop_bit_eq bit_mask_iff o_def
        possible_bit_word dest: bit_imp_le_length)
qed


subsection \<open>Reading back what was written\<close>

named_theorems header_simps \<open>the fields of a node header after a write\<close>

lemmas header_getters =
  get_is_inner_bptree_node_from_header_def get_hasrefs_from_header_def
  get_context_flag_from_header_def get_wtype_from_header_def get_width_from_header_def
  get_size_from_header_def get_capacity_from_header_def

lemmas header_setters =
  set_is_inner_bptree_node_in_header_def set_hasrefs_in_header_def
  set_context_flag_in_header_def set_wtype_in_header_def set_width_in_header_def
  set_size_in_header_def set_capacity_in_header_def

lemma unat_of_nat_byte: "unat (of_nat (n AND 0xFF) :: byte) = n mod 256"
proof -
  have "n AND 0xFF = take_bit 8 n" by (simp add: take_bit_eq_mask mask_eq_exp_minus_1)
  then show ?thesis by (simp add: take_bit_eq_mod unat_of_nat)
qed

lemma three_bytes: "v < 2 ^ 24 \<Longrightarrow>
  v div 65536 mod 256 * 65536 + v div 256 mod 256 * 256 + v mod 256 = (v :: nat)"
proof -
  assume "v < 2 ^ 24"
  then have "v div 65536 mod 256 = v div 256 div 256"
    by (simp add: div_mult2_eq [symmetric] less_mult_imp_div_less)
  moreover have "v div 256 div 256 * 256 + v div 256 mod 256 = v div 256" by (rule div_mult_mod_eq)
  moreover have "v div 256 * 256 + v mod 256 = v" by (rule div_mult_mod_eq)
  ultimately show ?thesis by linarith
qed

lemma get_size_set_size [header_simps]:
  "v \<le> max_array_size \<Longrightarrow> get_size_from_header (set_size_in_header v m h) h = v"
  using three_bytes [of v]
  by (simp add: header_getters header_setters max_array_size_def unat_of_nat_byte
      drop_bit_eq_div push_bit_eq_mult)

lemma get_capacity_set_capacity [header_simps]:
  assumes "8 dvd v" "v \<le> 0x7fffff8"
  shows "get_capacity_from_header (set_capacity_in_header v m h) h = v"
proof -
  obtain u where u: "v = 8 * u" using assms by (elim dvdE)
  have [simp]: "8 * u div 524288 = u div 65536" "8 * u div 2048 = u div 256"
    using div_mult2_eq [of "8 * u" 8 65536] div_mult2_eq [of "8 * u" 8 256] by simp_all
  show ?thesis
    using three_bytes [of u] assms(2)
    by (simp add: u header_getters header_setters unat_of_nat_byte drop_bit_eq_div push_bit_eq_mult)
qed

lemma get_width_set_width [header_simps]:
  "valid_width w \<Longrightarrow> get_width_from_header (set_width_in_header w m h) h = w"
  using width_log_valid [of w]
  unfolding header_getters header_setters fun_upd_same by (simp only: get_width_set)

lemma get_wtype_set_wtype [header_simps]:
  "get_wtype_from_header (set_wtype_in_header t m h) h = t"
  unfolding header_getters header_setters fun_upd_same by (simp only: get_wtype_set wtype_of_int_of_wtype)

text \<open>A write to one field leaves the others alone.\<close>

lemma size_frame [header_simps]:
  "get_size_from_header (set_capacity_in_header c m h) h = get_size_from_header m h"
  "get_size_from_header (set_width_in_header w m h) h = get_size_from_header m h"
  "get_size_from_header (set_wtype_in_header t m h) h = get_size_from_header m h"
  by (simp_all add: header_getters header_setters)

lemma capacity_frame [header_simps]:
  "get_capacity_from_header (set_size_in_header s m h) h = get_capacity_from_header m h"
  "get_capacity_from_header (set_width_in_header w m h) h = get_capacity_from_header m h"
  by (simp_all add: header_getters header_setters)

lemma byte4_frames [header_simps]:
  "get_width_from_header (set_size_in_header s m h) h = get_width_from_header m h"
  "get_wtype_from_header (set_size_in_header s m h) h = get_wtype_from_header m h"
  "get_hasrefs_from_header (set_size_in_header s m h) h = get_hasrefs_from_header m h"
  "get_context_flag_from_header (set_size_in_header s m h) h = get_context_flag_from_header m h"
  "get_is_inner_bptree_node_from_header (set_size_in_header s m h) h =
     get_is_inner_bptree_node_from_header m h"
  "get_width_from_header (set_capacity_in_header c m h) h = get_width_from_header m h"
  "get_wtype_from_header (set_capacity_in_header c m h) h = get_wtype_from_header m h"
  "get_hasrefs_from_header (set_capacity_in_header c m h) h = get_hasrefs_from_header m h"
  "get_context_flag_from_header (set_capacity_in_header c m h) h = get_context_flag_from_header m h"
  "get_is_inner_bptree_node_from_header (set_capacity_in_header c m h) h =
     get_is_inner_bptree_node_from_header m h"
  by (simp_all add: header_getters header_setters)

lemma bit_set_wtype:
  "k < 8 \<Longrightarrow> bit ((x AND NOT 0x18) OR push_bit 3 (int_of_wtype t)) k \<longleftrightarrow>
     (if k = 3 \<or> k = 4 then bit (int_of_wtype t) (k - 3) else bit x k)"
  unfolding byte_masks by (auto simp: bit_simps dest: bit_int_of_wtype)

lemma bit_set_width:
  assumes "l < 8" "k < 8" "3 \<le> k"
  shows "bit ((x AND NOT 0x07) OR of_nat l :: byte) k \<longleftrightarrow> bit x k"
  using bit_of_nat_lt_8 [OF assms(1), of k] assms(2,3)
  unfolding byte_masks
  by (auto simp: bit_and_iff bit_or_iff bit_not_iff bit_mask_iff possible_bit_word)

lemma flags_set_wtype [header_simps]:
  "get_is_inner_bptree_node_from_header (set_wtype_in_header t m h) h = get_is_inner_bptree_node_from_header m h"
  "get_hasrefs_from_header (set_wtype_in_header t m h) h = get_hasrefs_from_header m h"
  "get_context_flag_from_header (set_wtype_in_header t m h) h = get_context_flag_from_header m h"
  unfolding header_getters header_setters fun_upd_same and_flag_iff
  by (subst bit_set_wtype; simp)+

lemma flags_set_width [header_simps]:
  assumes "valid_width w"
  shows
  "get_is_inner_bptree_node_from_header (set_width_in_header w m h) h = get_is_inner_bptree_node_from_header m h"
  "get_hasrefs_from_header (set_width_in_header w m h) h = get_hasrefs_from_header m h"
  "get_context_flag_from_header (set_width_in_header w m h) h = get_context_flag_from_header m h"
  "get_wtype_from_header (set_width_in_header w m h) h = get_wtype_from_header m h"
  using width_log_valid [OF assms] 
  unfolding header_getters header_setters fun_upd_same and_flag_iff
  by (auto simp only: bit_set_width byte4_frame)

lemma flags_set_flags [header_simps]:
  "get_is_inner_bptree_node_from_header (set_is_inner_bptree_node_in_header v m h) h = v"
  "get_hasrefs_from_header (set_hasrefs_in_header v m h) h = v"
  "get_context_flag_from_header (set_context_flag_in_header v m h) h = v"
  "get_is_inner_bptree_node_from_header (set_hasrefs_in_header v m h) h = get_is_inner_bptree_node_from_header m h"
  "get_is_inner_bptree_node_from_header (set_context_flag_in_header v m h) h = get_is_inner_bptree_node_from_header m h"
  "get_hasrefs_from_header (set_context_flag_in_header v m h) h = get_hasrefs_from_header m h"
  unfolding header_getters header_setters fun_upd_same and_flag_iff
  unfolding byte_masks by (subst bit_set_flag; simp)+

lemma init_header_fields [header_simps]:
  assumes "valid_width w" "s \<le> max_array_size" "8 dvd c" "c \<le> 0x7fffff8"
  shows "get_is_inner_bptree_node_from_header (init_header m h inner refs ctx t w s c) h = inner"
    and "get_hasrefs_from_header (init_header m h inner refs ctx t w s c) h = refs"
    and "get_context_flag_from_header (init_header m h inner refs ctx t w s c) h = ctx"
    and "get_wtype_from_header (init_header m h inner refs ctx t w s c) h = t"
    and "get_width_from_header (init_header m h inner refs ctx t w s c) h = w"
    and "get_size_from_header (init_header m h inner refs ctx t w s c) h = s"
    and "get_capacity_from_header (init_header m h inner refs ctx t w s c) h = c"
  unfolding init_header_def Let_def by (simp_all add: header_simps assms)

lemma setters_frame:
  "a < h \<or> h + 8 \<le> a \<Longrightarrow> set_is_inner_bptree_node_in_header b m h a = m a"
  "a < h \<or> h + 8 \<le> a \<Longrightarrow> set_hasrefs_in_header b m h a = m a"
  "a < h \<or> h + 8 \<le> a \<Longrightarrow> set_context_flag_in_header b m h a = m a"
  "a < h \<or> h + 8 \<le> a \<Longrightarrow> set_wtype_in_header t m h a = m a"
  "a < h \<or> h + 8 \<le> a \<Longrightarrow> set_width_in_header w m h a = m a"
  "a < h \<or> h + 8 \<le> a \<Longrightarrow> set_size_in_header s m h a = m a"
  "a < h \<or> h + 8 \<le> a \<Longrightarrow> set_capacity_in_header c m h a = m a"
  by (auto simp: header_setters)

lemma init_header_frame:
  "a < h \<or> h + 8 \<le> a \<Longrightarrow> init_header m h inner refs ctx t w s c a = m a"
  by (auto simp: init_header_def Let_def setters_frame write_mem_def header_size_def)

lemma valid_width_from_header: "valid_width (get_width_from_header m h)"
proof -
  define k where "k = unat (m (h + 4) AND 0x07)"
  have "m (h + 4) AND 0x07 \<le> 0x07" by (simp add: word_and_le1)
  then have "k \<le> 7" unfolding k_def word_le_nat_alt by simp
  then have "k \<in> {0, 1, 2, 3, 4, 5, 6, 7}" by auto
  then show ?thesis
    unfolding get_width_from_header_def k_def [symmetric] valid_width_def
    by (elim insertE emptyE) (simp_all add: drop_bit_eq_div push_bit_eq_mult)
qed

subsection \<open>Properties\<close>

text \<open>
  C33: A header written by \<^verbatim>\<open>Node::init_header\<close> reads back field by field: the
  three flags, the width type, every legal width, every element count up to
  \<open>max_array_size\<close> and every capacity the 24 bit field can hold; no byte outside the
  eight of the header changes.
\<close>

theorem init_header_roundtrip:
  assumes "valid_width w" "s \<le> max_array_size" "8 dvd c" "c \<le> 0x7fffff8"
    and "m' = init_header m h inner refs ctx t w s c"
  shows "get_is_inner_bptree_node_from_header m' h = inner \<and>
    get_hasrefs_from_header m' h = refs \<and> get_context_flag_from_header m' h = ctx \<and>
    get_wtype_from_header m' h = t \<and> get_width_from_header m' h = w \<and>
    get_size_from_header m' h = s \<and> get_capacity_from_header m' h = c \<and>
    get_byte_size_from_header m' h = calc_byte_size t s w \<and>
    (\<forall>a. a < h \<or> h + 8 \<le> a \<longrightarrow> m' a = m a)"
  using init_header_frame
  by (auto simp: assms get_byte_size_from_header_def init_header_fields)

theorem init_header_roundtrip_witness:
  "valid_width 16 \<and>
   get_size_from_header (init_header (\<lambda>_. 0) 64 False True False wtype_Bits 16 1000 2008) 64 = 1000"
  using init_header_roundtrip [of 16 1000 2008 _ "\<lambda>_. 0" 64 False True False wtype_Bits]
  by (simp add: valid_width_def max_array_size_def)

end
