(* ===== verification/Array_Direct.thy ===== *)
theory Array_Direct
  imports Node_Header
begin

text \<open>
  Direct access to the packed elements of a node,
  \<^verbatim>\<open>src/llbt/array_direct.hpp\<close>, and the width arithmetic of
  \<^verbatim>\<open>Array\<close> (\<^verbatim>\<open>bit_width\<close> in \<^verbatim>\<open>src/llbt/array.cpp\<close>, the bounds of a width
  in \<^verbatim>\<open>src/llbt/array.hpp\<close>). An element is 0, 1, 2, 4, 8, 16, 32 or 64 bits wide;
  widths below a byte are unsigned, the others two's complement. The lemmas read the payload as
  one little-endian bit stream, in which element \<open>i\<close> of width \<open>w\<close> is the bits from
  \<open>i * w\<close>; that one view covers every width.
\<close>

subsection \<open>The code\<close>

definition set_direct :: "nat \<Rightarrow> mem \<Rightarrow> nat \<Rightarrow> nat \<Rightarrow> int \<Rightarrow> mem" where
  "set_direct width m data ndx value =
     (if width = 0 then m
      else if width = 1 then
        (let p = data + ndx div 8; bit_ndx = ndx mod 8
         in m(p := (m p AND NOT (push_bit bit_ndx 0x01)) OR push_bit bit_ndx (of_int value AND 0x01)))
      else if width = 2 then
        (let p = data + ndx div 4; bit_ndx = ndx mod 4 * 2
         in m(p := (m p AND NOT (push_bit bit_ndx 0x03)) OR push_bit bit_ndx (of_int value AND 0x03)))
      else if width = 4 then
        (let p = data + ndx div 2; bit_ndx = ndx mod 2 * 4
         in m(p := (m p AND NOT (push_bit bit_ndx 0x0F)) OR push_bit bit_ndx (of_int value AND 0x0F)))
      else if width = 8 then m(data + ndx := of_int value)
      else if width = 16 then write_mem m (data + ndx * 2) (le_bytes 2 (of_int value :: 16 word))
      else if width = 32 then write_mem m (data + ndx * 4) (le_bytes 4 (of_int value :: 32 word))
      else if width = 64 then write_mem m (data + ndx * 8) (le_bytes 8 (of_int value :: 64 word))
      else m)"

definition fill_direct :: "nat \<Rightarrow> mem \<Rightarrow> nat \<Rightarrow> nat \<Rightarrow> nat \<Rightarrow> int \<Rightarrow> mem" where
  "fill_direct width m data begin_ndx end_ndx value =
     fold (\<lambda>i m. set_direct width m data i value) [begin_ndx..<end_ndx] m"

definition get_direct :: "nat \<Rightarrow> mem \<Rightarrow> nat \<Rightarrow> nat \<Rightarrow> int" where
  "get_direct w m data ndx =
     (if w = 0 then 0
      else if w = 1 then uint (drop_bit (ndx AND 7) (m (data + drop_bit 3 ndx)) AND 0x01)
      else if w = 2 then uint (drop_bit (push_bit 1 (ndx AND 3)) (m (data + drop_bit 2 ndx)) AND 0x03)
      else if w = 4 then uint (drop_bit (push_bit 2 (ndx AND 1)) (m (data + drop_bit 1 ndx)) AND 0x0F)
      else if w = 8 then sint (m (data + ndx))
      else if w = 16 then sint (le_word (read_mem m (data + ndx * 2) 2) :: 16 word)
      else if w = 32 then sint (le_word (read_mem m (data + ndx * 4) 4) :: 32 word)
      else if w = 64 then sint (le_word (read_mem m (data + ndx * 8) 8) :: 64 word)
      else - 1)"

definition get_two :: "nat \<Rightarrow> mem \<Rightarrow> nat \<Rightarrow> nat \<Rightarrow> int \<times> int" where
  "get_two width m data ndx = (get_direct width m data ndx, get_direct width m data (ndx + 1))"

text \<open>
  One halving of the binary search, blocks (X), (Y), (Z) and (A) of the code; \<open>below\<close> is
  the comparison, \<^verbatim>\<open>v < value\<close> for \<open>lower_bound\<close> and \<^verbatim>\<open>value >= v\<close> for
  \<open>upper_bound\<close>.
\<close>

definition search_step :: "(nat \<Rightarrow> bool) \<Rightarrow> nat \<times> nat \<Rightarrow> nat \<times> nat" where
  "search_step below = (\<lambda>(low, sz).
     let half = sz div 2; other_half = sz - half; probe = low + half; other_low = low + other_half
     in (if below probe then other_low else low, half))"

function search_unrolled :: "(nat \<Rightarrow> bool) \<Rightarrow> nat \<times> nat \<Rightarrow> nat \<times> nat" where
  "search_unrolled below s =
     (if 8 \<le> snd s
      then search_unrolled below (search_step below (search_step below (search_step below s)))
      else s)"
  by auto
termination
  by (relation "measure (\<lambda>(_, s). snd s)") (auto simp: search_step_def Let_def split: prod.splits)

function search_tail :: "(nat \<Rightarrow> bool) \<Rightarrow> nat \<times> nat \<Rightarrow> nat" where
  "search_tail below s = (if 0 < snd s then search_tail below (search_step below s) else fst s)"
  by auto
termination
  by (relation "measure (\<lambda>(_, s). snd s)") (auto simp: search_step_def Let_def split: prod.splits)

declare search_unrolled.simps [simp del] search_tail.simps [simp del]

definition lower_bound :: "nat \<Rightarrow> mem \<Rightarrow> nat \<Rightarrow> nat \<Rightarrow> int \<Rightarrow> nat" where
  "lower_bound width m data sz value =
     (let below = \<lambda>probe. get_direct width m data probe < value
      in search_tail below (search_unrolled below (0, sz)))"

definition upper_bound :: "nat \<Rightarrow> mem \<Rightarrow> nat \<Rightarrow> nat \<Rightarrow> int \<Rightarrow> nat" where
  "upper_bound width m data sz value =
     (let below = \<lambda>probe. value \<ge> get_direct width m data probe
      in search_tail below (search_unrolled below (0, sz)))"

definition bit_width :: "int \<Rightarrow> nat" where
  "bit_width v =
     (if drop_bit 4 (of_int v :: u64) = 0
      then [0, 1, 2, 2, 4, 4, 4, 4, 4, 4, 4, 4, 4, 4, 4, 4] ! nat v
      else let v = (if v < 0 then NOT v else v); u = (of_int v :: u64)
           in if drop_bit 31 u \<noteq> 0 then 64 else if drop_bit 15 u \<noteq> 0 then 32
              else if drop_bit 7 u \<noteq> 0 then 16 else 8)"

text \<open>The two bounds are unreachable at other widths; the value there is not used.\<close>

definition lbound_for_width :: "nat \<Rightarrow> int" where
  "lbound_for_width width =
     (if width = 32 then - 0x80000000 else if width = 16 then - 0x8000 else if width < 8 then 0
      else if width = 8 then - 0x80 else if width = 64 then - 0x8000000000000000 else 0)"

definition ubound_for_width :: "nat \<Rightarrow> int" where
  "ubound_for_width width =
     (if width = 32 then 0x7FFFFFFF else if width = 16 then 0x7FFF else if width = 0 then 0
      else if width = 1 then 1 else if width = 2 then 3 else if width = 4 then 15
      else if width = 8 then 0x7F else if width = 64 then 0x7FFFFFFFFFFFFFFF else 0)"

subsection \<open>The payload as a bit stream\<close>

definition mbit :: "mem \<Rightarrow> nat \<Rightarrow> nat \<Rightarrow> bool" where
  "mbit m data k = bit (m (data + k div 8)) (k mod 8)"

text \<open>Element widths and the values they hold.\<close>

definition fits_width :: "nat \<Rightarrow> int \<Rightarrow> bool" where
  "fits_width w v \<longleftrightarrow> lbound_for_width w \<le> v \<and> v \<le> ubound_for_width w"

lemma and_low_bits:
  "(n :: nat) AND 7 = n mod 8" "n AND 3 = n mod 4" "n AND 1 = n mod 2"
  using take_bit_eq_mask [of 3 n] take_bit_eq_mask [of 2 n] take_bit_eq_mask [of 1 n]
  by (simp_all add: take_bit_eq_mod mask_eq_exp_minus_1)

lemma low_masks: "(0x01 :: byte) = mask 1" "(0x03 :: byte) = mask 2" "(0x0F :: byte) = mask 4"
  by (simp_all add: mask_eq_exp_minus_1)

lemma bit_sint_min: "bit (sint (x :: 'a::len word)) j \<longleftrightarrow> bit x (min j (LENGTH('a) - 1))"
  by (simp add: bit_signed_iff min.commute)

lemma subbyte_place:
  fixes w q d i :: nat
  assumes "w * q = 8" "d < w"
  shows "(i * w + d) div 8 = i div q" "(i * w + d) mod 8 = i mod q * w + d"
proof -
  have q: "0 < q" using assms by (cases q) auto
  have "i mod q * w + d < (i mod q + 1) * w" using assms by simp
  also have "\<dots> \<le> q * w" using q by (intro mult_le_mono1) (simp add: Suc_le_eq)
  finally have lt: "i mod q * w + d < 8" using assms(1) by (simp add: mult.commute)
  have "i * w = (i div q * q + i mod q) * w" by simp
  also have "\<dots> = 8 * (i div q) + i mod q * w"
    using assms(1) by (simp only: add_mult_distrib mult.assoc mult.commute [of q w] mult.commute [of 8])
  finally have eq: "i * w + d = (i mod q * w + d) + 8 * (i div q)" by simp
  show "(i * w + d) div 8 = i div q" "(i * w + d) mod 8 = i mod q * w + d"
    unfolding eq using lt by simp_all
qed

lemma subbyte_index:
  "j < 2 \<Longrightarrow> (i * 2 + j) div 8 = i div (4 :: nat)"
  "j < 2 \<Longrightarrow> (i * 2 + j) mod 8 = i mod (4 :: nat) * 2 + j"
  "j < 4 \<Longrightarrow> (i * 4 + j) div 8 = i div (2 :: nat)"
  "j < 4 \<Longrightarrow> (i * 4 + j) mod 8 = i mod (2 :: nat) * 4 + j"
  using subbyte_place [of 2 4 j i] subbyte_place [of 4 2 j i] by simp_all

lemma bit_subbyte:
  "s + w \<le> 8 \<Longrightarrow> bit (uint (drop_bit s (b :: byte) AND mask w)) j \<longleftrightarrow> j < w \<and> bit b (s + j)"
  by (auto simp: bit_simps)

lemma shift_nat:
  "drop_bit 3 (i :: nat) = i div 8" "drop_bit 2 i = i div 4" "drop_bit 1 i = i div 2"
  "push_bit 1 i = i * 2" "push_bit 2 i = i * 4"
  by (simp_all add: drop_bit_eq_div push_bit_eq_mult)

lemma get_direct_1:
  "get_direct 1 m data i = uint (drop_bit (i mod 8) (m (data + i div 8)) AND mask 1)"
  by (simp only: get_direct_def and_low_bits shift_nat) simp

lemma get_direct_2:
  "get_direct 2 m data i = uint (drop_bit (i mod 4 * 2) (m (data + i div 4)) AND mask 2)"
  by (simp only: get_direct_def and_low_bits shift_nat low_masks(2)) simp

lemma get_direct_4:
  "get_direct 4 m data i = uint (drop_bit (i mod 2 * 4) (m (data + i div 2)) AND mask 4)"
  by (simp only: get_direct_def and_low_bits shift_nat low_masks(3)) simp

lemmas get_direct_subbyte = get_direct_1 get_direct_2 get_direct_4

lemma bit_sint_le_word:
  assumes "LENGTH('a) = 8 * n" "0 < n"
  shows "bit (sint (le_word (read_mem m (data + i * n) n) :: 'a::len word)) j \<longleftrightarrow>
    mbit m data (i * (8 * n) + min j (8 * n - 1))"
proof -
  define k where "k = min j (8 * n - Suc 0)"
  have k: "k < 8 * n" "k div 8 < n" using assms by (auto simp: k_def)
  have "(i * (8 * n) + k) div 8 = i * n + k div 8" "(i * (8 * n) + k) mod 8 = k mod 8"
    using div_mult_self2 [of 8 k "i * n"] mod_mult_self2 [of k 8 "i * n"]
    by (simp_all add: ac_simps)
  then have "mbit m data (i * (8 * n) + k) = bit (m (data + i * n + k div 8)) (k mod 8)"
    by (simp add: mbit_def add.assoc)
  then show ?thesis using k assms(1)
    by (simp add: bit_sint_min bit_le_word k_def [symmetric])
qed

lemma bit_get_direct:
  assumes "valid_width w" "0 < w"
  shows "bit (get_direct w m data i) j \<longleftrightarrow>
    (if j < w then mbit m data (i * w + j) else 8 \<le> w \<and> mbit m data (i * w + (w - 1)))"
proof -
  consider "w = 1" | "w = 2" | "w = 4" | "w = 8" | "w = 16" | "w = 32" | "w = 64"
    using assms by (auto simp: valid_width_def)
  then show ?thesis
  proof cases
    case 1
    then show ?thesis
      by (simp only: get_direct_subbyte, subst bit_subbyte) (auto simp: mbit_def)
  next
    case 2
    then show ?thesis
      by (simp only: get_direct_subbyte, subst bit_subbyte) (auto simp: mbit_def subbyte_index)
  next
    case 3
    then show ?thesis
      by (simp only: get_direct_subbyte, subst bit_subbyte) (auto simp: mbit_def subbyte_index)
  next
    case 4
    then show ?thesis by (auto simp: get_direct_def bit_sint_min mbit_def min_def)
  next
    case 5
    then show ?thesis
      using bit_sint_le_word [where 'a = 16, of 2 m data i j] by (simp add: get_direct_def min_def)
  next
    case 6
    then show ?thesis
      using bit_sint_le_word [where 'a = 32, of 4 m data i j] by (simp add: get_direct_def min_def)
  next
    case 7
    then show ?thesis
      using bit_sint_le_word [where 'a = 64, of 8 m data i j] by (simp add: get_direct_def min_def)
  qed
qed

subsection \<open>Writing one element\<close>

lemma mbit_fun_upd:
  "mbit (m(data + p := b)) data k = (if k div 8 = p then bit b (k mod 8) else mbit m data k)"
  by (simp add: mbit_def)

lemma mbit_write_mem:
  "mbit (write_mem m (data + a) bs) data k =
     (if 8 * a \<le> k \<and> k < 8 * (a + length bs) then bit (bs ! ((k - 8 * a) div 8)) ((k - 8 * a) mod 8)
      else mbit m data k)"
proof (cases "8 * a \<le> k \<and> k < 8 * (a + length bs)")
  case True
  then obtain j where k: "k = 8 * a + j" "j < 8 * length bs" by (auto simp: le_iff_add)
  then have "j div 8 < length bs" by (simp add: less_mult_imp_div_less)
  with k show ?thesis by (simp add: mbit_def write_mem_def)
next
  case False
  then have "\<not> (a \<le> k div 8 \<and> k div 8 < a + length bs)" by auto
  with False show ?thesis by (auto simp: mbit_def write_mem_def)
qed

lemma bit_subbyte_set:
  assumes "s + w \<le> 8" "k < 8"
  shows "bit ((b AND NOT (push_bit s (mask w))) OR push_bit s (of_int v AND mask w) :: byte) k \<longleftrightarrow>
    (if s \<le> k \<and> k < s + w then bit v (k - s) else bit b k)"
  using assms by (auto simp: bit_simps)

lemma set_direct_subbyte:
  "set_direct 1 m data i v = m(data + i div 8 :=
     (m (data + i div 8) AND NOT (push_bit (i mod 8) (mask 1))) OR push_bit (i mod 8) (of_int v AND mask 1))"
  "set_direct 2 m data i v = m(data + i div 4 :=
     (m (data + i div 4) AND NOT (push_bit (i mod 4 * 2) (mask 2))) OR push_bit (i mod 4 * 2) (of_int v AND mask 2))"
  "set_direct 4 m data i v = m(data + i div 2 :=
     (m (data + i div 2) AND NOT (push_bit (i mod 2 * 4) (mask 4))) OR push_bit (i mod 2 * 4) (of_int v AND mask 4))"
  by (simp_all only: set_direct_def Let_def low_masks rel_simps simp_thms if_True if_False one_neq_zero)

lemma subbyte_hit:
  fixes w q i k :: nat
  assumes wq: "w * q = 8"
  shows "k div 8 = i div q \<and> i mod q * w \<le> k mod 8 \<and> k mod 8 < i mod q * w + w \<longleftrightarrow>
    i * w \<le> k \<and> k < i * w + w" (is "?L \<longleftrightarrow> ?R")
proof
  assume L: ?L
  define d where "d = k mod 8 - i mod q * w"
  have "d < w" "k mod 8 = i mod q * w + d" using L unfolding d_def by linarith+
  then have "k div 8 = (i * w + d) div 8" "k mod 8 = (i * w + d) mod 8"
    using L subbyte_place [OF wq \<open>d < w\<close>, of i] by metis+
  then have "k = i * w + d" by (metis div_mult_mod_eq)
  with \<open>d < w\<close> show ?R by simp
next
  assume R: ?R
  define d where "d = k - i * w"
  have "k = i * w + d" "d < w" using R unfolding d_def by linarith+
  then show ?L using subbyte_place [OF wq \<open>d < w\<close>, of i] by simp
qed

lemma mbit_set_subbyte:
  assumes wq: "w * q = 8"
  shows "mbit (m(data + i div q := (m (data + i div q) AND NOT (push_bit (i mod q * w) (mask w)))
      OR push_bit (i mod q * w) (of_int v AND mask w))) data k \<longleftrightarrow>
    (if i * w \<le> k \<and> k < i * w + w then bit v (k - i * w) else mbit m data k)"
proof -
  have "w \<noteq> 0" using wq by (rule contrapos_pn) simp
  then have s8: "i mod q * w + w \<le> 8"
    using subbyte_place(2) [OF wq, of "w - 1" i] mod_less_divisor [of 8 "i * w + (w - 1)"] by simp
  have diff: "k mod 8 - i mod q * w = k - i * w" if "i * w \<le> k" "k < i * w + w"
    using subbyte_place(2) [OF wq, of "k - i * w" i] that by simp
  note set_bit = mbit_fun_upd bit_subbyte_set [OF s8 mod_less_divisor [OF zero_less_numeral]]
  show ?thesis
  proof (cases "i * w \<le> k \<and> k < i * w + w")
    case True
    then show ?thesis
      unfolding set_bit using subbyte_hit [OF wq, of k i] diff by (simp only: simp_thms if_True)
  next
    case False
    then have "k div 8 = i div q \<Longrightarrow> \<not> (i mod q * w \<le> k mod 8 \<and> k mod 8 < i mod q * w + w)"
      using subbyte_hit [OF wq, of k i] by blast
    with False show ?thesis
      unfolding set_bit by (simp only: mbit_def if_False split: if_split) metis
  qed
qed

lemma bit_le_bytes_nth:
  "k < 8 * n \<Longrightarrow> bit (le_bytes n (of_int v :: 'a::len word) ! (k div 8)) (k mod 8) \<longleftrightarrow>
     k < LENGTH('a) \<and> bit v k"
  using bit_byte_le_bytes [of "k div 8" n "of_int v :: 'a word" "k mod 8"]
  by (simp add: less_mult_imp_div_less bit_word_of_int_iff)

lemma mbit_set_direct_bytes:
  assumes "LENGTH('a) = 8 * n"
  shows "mbit (write_mem m (data + i * n) (le_bytes n (of_int v :: 'a::len word))) data k \<longleftrightarrow>
    (if i * (8 * n) \<le> k \<and> k < i * (8 * n) + 8 * n then bit v (k - i * (8 * n)) else mbit m data k)"
proof -
  have comm: "i * (8 * n) = 8 * (i * n)" by simp
  have "k - 8 * (i * n) < 8 * n" if "k < 8 * (i * n) + 8 * n" "8 * (i * n) \<le> k"
    using that by linarith
  then show ?thesis
    unfolding comm mbit_write_mem length_le_bytes distrib_left using assms
    by (simp add: bit_le_bytes_nth del: nth_le_bytes)
qed

lemma mbit_set_direct:
  assumes "valid_width w"
  shows "mbit (set_direct w m data i v) data k \<longleftrightarrow>
    (if i * w \<le> k \<and> k < i * w + w then bit v (k - i * w) else mbit m data k)"
proof -
  consider "w = 0" | "w = 1" | "w = 2" | "w = 4" | "w = 8" | "w = 16" | "w = 32" | "w = 64"
    using assms by (auto simp: valid_width_def)
  then show ?thesis
  proof cases
    case 1
    then show ?thesis by (simp add: set_direct_def)
  next
    case 2
    then show ?thesis
      using mbit_set_subbyte [of 1 8 m data i v k] by (simp only: set_direct_subbyte mult_1_right)
  next
    case 3
    then show ?thesis
      using mbit_set_subbyte [of 2 4 m data i v k] by (simp only: set_direct_subbyte)
  next
    case 4
    then show ?thesis
      using mbit_set_subbyte [of 4 2 m data i v k] by (simp only: set_direct_subbyte)
  next
    case 5
    then have "set_direct w m data i v = write_mem m (data + i * 1) (le_bytes 1 (of_int v :: 8 word))"
      by (auto simp: set_direct_def write_mem_def)
    with 5 show ?thesis
      using mbit_set_direct_bytes [where 'a = 8, of 1] by simp
  next
    case 6
    then show ?thesis
      using mbit_set_direct_bytes [where 'a = 16, of 2] by (simp add: set_direct_def)
  next
    case 7
    then show ?thesis
      using mbit_set_direct_bytes [where 'a = 32, of 4] by (simp add: set_direct_def)
  next
    case 8
    then show ?thesis
      using mbit_set_direct_bytes [where 'a = 64, of 8] by (simp add: set_direct_def)
  qed
qed

lemma block_hit:
  "j < w \<Longrightarrow> i * w \<le> k * w + j \<and> k * w + j < i * w + w \<longleftrightarrow> i = (k :: nat)"
proof
  assume j: "j < w" and h: "i * w \<le> k * w + j \<and> k * w + j < i * w + w"
  have "i * w < Suc k * w" "k * w < Suc i * w" using j h unfolding mult_Suc by linarith+
  then show "i = k" unfolding mult_less_cancel2 by linarith
qed simp

lemma fits_width_iff:
  assumes "valid_width w"
  shows "fits_width w v \<longleftrightarrow> (if w < 8 then take_bit w v = v else signed_take_bit (w - 1) v = v)"
  using assms unfolding valid_width_def fits_width_def
  by (elim insertE emptyE; hypsubst)
    (auto simp: lbound_for_width_def ubound_for_width_def take_bit_int_eq_self_iff
      signed_take_bit_int_eq_self_iff)

text \<open>The bits of an element, and of a value that fits, above the width are copies of the sign.\<close>

lemma bit_get_direct_min:
  assumes "valid_width w" "0 < w"
  shows "bit (get_direct w m data i) j \<longleftrightarrow> (j < w \<or> 8 \<le> w) \<and> mbit m data (i * w + min j (w - 1))"
proof (cases "j < w")
  case True
  then have "min j (w - 1) = j" by simp
  with True show ?thesis by (simp only: bit_get_direct [OF assms] if_True simp_thms)
next
  case False
  then have "min j (w - 1) = w - 1" by simp
  with False show ?thesis by (simp only: bit_get_direct [OF assms] if_False simp_thms)
qed

lemma bit_fits_width_min:
  assumes "valid_width w" "0 < w"
  shows "fits_width w v \<longleftrightarrow> (\<forall>j. bit v j \<longleftrightarrow> (j < w \<or> 8 \<le> w) \<and> bit v (min j (w - 1)))"
proof -
  have low: "j < w \<Longrightarrow> min j (w - 1) = j" for j by simp
  have "take_bit w v = v \<longleftrightarrow> (\<forall>j. bit (take_bit w v) j = bit v j)"
    by (simp only: bit_eq_iff [of "take_bit w v" v] possible_bit_int simp_thms)
  also have "\<dots> \<longleftrightarrow> (\<forall>j. bit v j \<longleftrightarrow> j < w \<and> bit v (min j (w - 1)))"
    by (simp only: bit_take_bit_iff) (metis low)
  finally have t: "take_bit w v = v \<longleftrightarrow> (\<forall>j. bit v j \<longleftrightarrow> j < w \<and> bit v (min j (w - 1)))" .
  have "signed_take_bit (w - 1) v = v \<longleftrightarrow> (\<forall>j. bit (signed_take_bit (w - 1) v) j = bit v j)"
    by (simp only: bit_eq_iff [of "signed_take_bit (w - 1) v" v] possible_bit_int simp_thms)
  also have "\<dots> \<longleftrightarrow> (\<forall>j. bit v j \<longleftrightarrow> bit v (min j (w - 1)))"
    by (simp only: bit_signed_take_bit_iff possible_bit_int simp_thms min.commute [of "w - 1"]) blast
  finally show ?thesis
    unfolding fits_width_iff [OF assms(1)] t by (cases "w < 8") simp_all
qed

lemma width_0: "get_direct 0 m data i = 0" "fits_width 0 v \<longleftrightarrow> v = 0"
  by (auto simp: get_direct_def fits_width_def lbound_for_width_def ubound_for_width_def)

lemma min_width: "0 < w \<Longrightarrow> min j (w - 1) < (w :: nat)" "min (min j (w - 1)) (w - 1) = min j (w - (1 :: nat))"
  by linarith simp

lemma fits_get_direct:
  assumes "valid_width w"
  shows "fits_width w (get_direct w m data i)"
proof (cases "w = 0")
  case False
  then have "0 < w" by simp
  then show ?thesis
    unfolding bit_fits_width_min [OF assms \<open>0 < w\<close>] bit_get_direct_min [OF assms \<open>0 < w\<close>]
    by (simp only: min_width) blast
qed (simp add: width_0)

lemma get_direct_eqI:
  assumes "valid_width w" "\<And>j. j < w \<Longrightarrow> mbit m data (i * w + j) = mbit m' data' (i' * w + j)"
  shows "get_direct w m data i = get_direct w m' data' i'"
proof (cases "w = 0")
  case False
  then have "0 < w" by simp
  then show ?thesis
    by (intro bit_eqI) (simp only: bit_get_direct_min [OF assms(1)] assms(2) [OF min_width(1)])
qed (simp add: width_0)

lemma get_direct_valueI:
  assumes "valid_width w" "fits_width w v" "\<And>j. j < w \<Longrightarrow> mbit m data (i * w + j) = bit v j"
  shows "get_direct w m data i = v"
proof (cases "w = 0")
  case False
  then have w: "0 < w" by simp
  show ?thesis
  proof (rule bit_eqI)
    fix j
    have "bit v j \<longleftrightarrow> (j < w \<or> 8 \<le> w) \<and> bit v (min j (w - 1))"
      using assms(2) unfolding bit_fits_width_min [OF assms(1) w] by (rule spec)
    moreover have "mbit m data (i * w + min j (w - 1)) = bit v (min j (w - 1))"
      by (rule assms(3)) (rule min_width(1) [OF w])
    ultimately show "bit (get_direct w m data i) j = bit v j"
      by (simp only: bit_get_direct_min [OF assms(1) w])
  qed
qed (use assms in \<open>simp add: width_0\<close>)

lemma get_set_direct:
  assumes "valid_width w" "fits_width w v"
  shows "get_direct w (set_direct w m data i v) data k = (if k = i then v else get_direct w m data k)"
proof (cases "k = i")
  case True
  then show ?thesis using assms by (auto intro!: get_direct_valueI simp: mbit_set_direct)
next
  case False
  have "\<not> (i * w \<le> k * w + j \<and> k * w + j < i * w + w)" if "j < w" for j
    using False block_hit [OF that] by simp
  with False show ?thesis using assms(1)
    by (auto intro!: get_direct_eqI simp: mbit_set_direct)
qed

definition elems :: "nat \<Rightarrow> mem \<Rightarrow> nat \<Rightarrow> nat \<Rightarrow> int list" where
  "elems w m data n = map (get_direct w m data) [0..<n]"

lemma length_elems [simp]: "length (elems w m data n) = n"
  by (simp add: elems_def)

lemma nth_elems [simp]: "i < n \<Longrightarrow> elems w m data n ! i = get_direct w m data i"
  by (simp add: elems_def)

lemma elems_set_direct:
  "valid_width w \<Longrightarrow> fits_width w v \<Longrightarrow> i < n \<Longrightarrow>
   elems w (set_direct w m data i v) data n = (elems w m data n)[i := v]"
  by (rule nth_equalityI) (auto simp: get_set_direct nth_list_update)

lemma get_fill_direct:
  assumes "valid_width w" "fits_width w v"
  shows "get_direct w (fill_direct w m data b e v) data k =
    (if b \<le> k \<and> k < e then v else get_direct w m data k)"
proof -
  have "get_direct w (fold (\<lambda>i m. set_direct w m data i v) is m) data k =
      (if k \<in> set is then v else get_direct w m data k)" for "is"
    by (induction "is" arbitrary: m) (auto simp: get_set_direct assms)
  then show ?thesis by (simp add: fill_direct_def)
qed

subsection \<open>The width of a value\<close>

lemma drop_bit_u64_eq_0: "drop_bit n (x :: u64) = 0 \<longleftrightarrow> uint x < 2 ^ n"
proof -
  have "drop_bit n x = 0 \<longleftrightarrow> uint (drop_bit n x) = 0" by (simp add: uint_0_iff)
  also have "take_bit 64 (uint x) = uint x"
    using unsigned_less [of x] by (intro take_bit_int_eq_self) simp_all
  then have "uint (drop_bit n x) = uint x div 2 ^ n"
    unfolding unsigned_drop_bit_eq by (simp add: drop_bit_eq_div)
  then have "uint (drop_bit n x) = 0 \<longleftrightarrow> uint x < 2 ^ n" by (auto simp: zdiv_eq_0_iff)
  finally show ?thesis .
qed

lemma uint_u64_of_int: "0 \<le> v \<Longrightarrow> v < 2 ^ 64 \<Longrightarrow> uint (of_int v :: u64) = v"
  by (simp add: unsigned_of_int take_bit_int_eq_self)

definition int64 :: "int \<Rightarrow> bool" where
  "int64 v \<longleftrightarrow> - (2 ^ 63) \<le> v \<and> v < 2 ^ 63"

lemma small_value_iff: "int64 v \<Longrightarrow> drop_bit 4 (of_int v :: u64) = 0 \<longleftrightarrow> 0 \<le> v \<and> v < 16"
proof (cases "0 \<le> v")
  case True
  then show "int64 v \<Longrightarrow> ?thesis"
    by (simp add: drop_bit_u64_eq_0 uint_u64_of_int int64_def)
next
  case False
  assume "int64 v"
  then have "(v + 2 ^ 64) mod 2 ^ 64 = v + 2 ^ 64"
    using False by (intro mod_pos_pos_trivial) (auto simp: int64_def)
  then have "uint (of_int v :: u64) = v + 2 ^ 64"
    by (simp add: unsigned_of_int take_bit_eq_mod)
  then show ?thesis using False \<open>int64 v\<close> by (simp add: drop_bit_u64_eq_0 int64_def)
qed

lemma bit_width_cases:
  assumes "int64 v"
  shows "bit_width v =
    (if v = 0 then 0 else if v = 1 then 1 else if v \<in> {2, 3} then 2 else if 4 \<le> v \<and> v < 16 then 4
     else if - (2 ^ 7) \<le> v \<and> v < 2 ^ 7 then 8 else if - (2 ^ 15) \<le> v \<and> v < 2 ^ 15 then 16
     else if - (2 ^ 31) \<le> v \<and> v < 2 ^ 31 then 32 else 64)"
proof (cases "0 \<le> v \<and> v < 16")
  case True
  then have "v < 8 \<Longrightarrow> v \<in> {0, 1, 2, 3, 4, 5, 6, 7}" "8 \<le> v \<Longrightarrow> v \<in> {8, 9, 10, 11, 12, 13, 14, 15}"
    by auto
  then have "v \<in> {0, 1, 2, 3, 4, 5, 6, 7, 8, 9, 10, 11, 12, 13, 14, 15}"
    by (cases "v < 8") auto
  then show ?thesis
    using small_value_iff [OF assms] by (elim insertE emptyE) (simp_all add: bit_width_def)
next
  case False
  then have large: "drop_bit 4 (of_int v :: u64) \<noteq> 0" using small_value_iff [OF assms] by blast
  define a where "a = (if v < 0 then - v - 1 else v)"
  have a: "(if v < 0 then NOT v else v) = a" by (simp add: a_def not_int_def)
  have "0 \<le> a" "a < 2 ^ 63" using assms by (auto simp: a_def int64_def)
  then have u: "drop_bit n (of_int a :: u64) = 0 \<longleftrightarrow> a < 2 ^ n" for n
    by (simp add: drop_bit_u64_eq_0 uint_u64_of_int)
  have "bit_width v = (if \<not> a < 2 ^ 31 then 64 else if \<not> a < 2 ^ 15 then 32
      else if \<not> a < 2 ^ 7 then 16 else 8)"
    unfolding bit_width_def Let_def a u by (simp add: large)
  with False show ?thesis by (auto simp: a_def)
qed

lemma bit_width_valid: "int64 v \<Longrightarrow> valid_width (bit_width v)"
  by (simp add: bit_width_cases valid_width_def)

lemma fits_bit_width: "int64 v \<Longrightarrow> fits_width (bit_width v) v"
  by (auto simp: bit_width_cases fits_width_def lbound_for_width_def ubound_for_width_def int64_def)

lemma fits_width_int64: "valid_width w \<Longrightarrow> fits_width w v \<Longrightarrow> int64 v"
  unfolding valid_width_def fits_width_def int64_def
  by (elim insertE emptyE; hypsubst; simp add: lbound_for_width_def ubound_for_width_def)

lemma bounds_mono:
  "valid_width w \<Longrightarrow> valid_width w' \<Longrightarrow> w \<le> w' \<Longrightarrow>
   lbound_for_width w' \<le> lbound_for_width w \<and> ubound_for_width w \<le> ubound_for_width w'"
  unfolding valid_width_def
  by (elim insertE emptyE; hypsubst; simp add: lbound_for_width_def ubound_for_width_def)

lemma fits_width_mono:
  "valid_width w \<Longrightarrow> valid_width w' \<Longrightarrow> w \<le> w' \<Longrightarrow> fits_width w v \<Longrightarrow> fits_width w' v"
  using bounds_mono [of w w'] unfolding fits_width_def by linarith

lemma bit_width_least: "valid_width w \<Longrightarrow> fits_width w v \<Longrightarrow> bit_width v \<le> w"
proof -
  assume w: "valid_width w" and v: "fits_width w v"
  then have "int64 v" by (rule fits_width_int64)
  then show ?thesis using w v
    unfolding valid_width_def fits_width_def
    by (elim insertE emptyE; hypsubst; simp add: lbound_for_width_def ubound_for_width_def bit_width_cases)
qed

subsection \<open>Binary search\<close>

text \<open>
  What the loop keeps: everything before \<open>low\<close> is below the value searched for and
  everything from \<open>low + size\<close> on is not.
\<close>

definition search_inv :: "(nat \<Rightarrow> bool) \<Rightarrow> nat \<Rightarrow> nat \<times> nat \<Rightarrow> bool" where
  "search_inv below n s \<longleftrightarrow> fst s + snd s \<le> n \<and>
     (\<forall>i<fst s. below i) \<and> (\<forall>i. fst s + snd s \<le> i \<and> i < n \<longrightarrow> \<not> below i)"

definition downward :: "(nat \<Rightarrow> bool) \<Rightarrow> nat \<Rightarrow> bool" where
  "downward below n \<longleftrightarrow> (\<forall>i j. i \<le> j \<and> j < n \<and> below j \<longrightarrow> below i)"

lemma search_step_inv:
  assumes "search_inv below n s" "downward below n" "0 < snd s"
  shows "search_inv below n (search_step below s)" "snd (search_step below s) < snd s"
proof -
  obtain low sz where s: "s = (low, sz)" by (cases s)
  define half where "half = sz div 2"
  have half: "half < sz" "sz \<le> 2 * half + 1" using assms(3) by (simp_all add: s half_def)
  have inv: "low + sz \<le> n" "\<And>i. i < low \<Longrightarrow> below i" "\<And>i. low + sz \<le> i \<Longrightarrow> i < n \<Longrightarrow> \<not> below i"
    using assms(1) by (auto simp: search_inv_def s)
  have mono: "i \<le> j \<Longrightarrow> j < n \<Longrightarrow> below j \<Longrightarrow> below i" for i j
    using assms(2) by (auto simp: downward_def)
  have step: "search_step below s = (if below (low + half) then low + (sz - half) else low, half)"
    by (simp add: search_step_def s half_def Let_def)
  then show "snd (search_step below s) < snd s" using half by (simp add: s)
  show "search_inv below n (search_step below s)"
  proof (cases "below (low + half)")
    case True
    have "below i" if "i < low + (sz - half)" for i
      using mono [of i "low + half"] True that half inv(1) by simp
    with True inv half show ?thesis by (simp add: step search_inv_def)
  next
    case False
    have "\<not> below i" if "low + half \<le> i" "i < n" for i
      using mono [of "low + half" i] False that by blast
    with False inv half show ?thesis by (simp add: step search_inv_def)
  qed
qed

lemma search_step_snd: "snd (search_step below s) = snd s div 2"
  by (simp add: search_step_def Let_def split: prod.splits)

lemma search_unrolled_inv:
  "search_inv below n s \<Longrightarrow> downward below n \<Longrightarrow> search_inv below n (search_unrolled below s)"
proof (induction below s rule: search_unrolled.induct)
  case (1 below s)
  show ?case
  proof (cases "8 \<le> snd s")
    case True
    then show ?thesis
      using 1 by (subst search_unrolled.simps) (simp add: search_step_inv search_step_snd)
  next
    case False
    then show ?thesis using 1 by (subst search_unrolled.simps) simp
  qed
qed

lemma search_tail_inv:
  "search_inv below n s \<Longrightarrow> downward below n \<Longrightarrow> search_inv below n (search_tail below s, 0)"
proof (induction below s rule: search_tail.induct)
  case (1 below s)
  show ?case
  proof (cases "0 < snd s")
    case True
    then show ?thesis using 1 by (subst search_tail.simps) (simp add: search_step_inv)
  next
    case False
    then show ?thesis using 1 by (subst search_tail.simps) (cases s, simp)
  qed
qed

lemma search_correct:
  assumes "downward below n"
  shows "search_inv below n (search_tail below (search_unrolled below (0, n)), 0)"
  by (intro search_tail_inv search_unrolled_inv assms) (auto simp: search_inv_def)

lemma sorted_downward:
  assumes "sorted (elems w m data n)"
  shows "downward (\<lambda>i. get_direct w m data i < value) n" "downward (\<lambda>i. value \<ge> get_direct w m data i) n"
proof -
  have "get_direct w m data i \<le> get_direct w m data j" if "i \<le> j" "j < n" for i j
    using sorted_nth_mono [OF assms, of i j] that by simp
  then show "downward (\<lambda>i. get_direct w m data i < value) n" "downward (\<lambda>i. value \<ge> get_direct w m data i) n"
    unfolding downward_def by (meson order.strict_trans1 order.trans)+
qed

lemma search_inv_0: "search_inv below n (k, 0) \<longleftrightarrow> k \<le> n \<and> (\<forall>i<n. below i \<longleftrightarrow> i < k)"
  unfolding search_inv_def by (auto simp: not_less)

subsection \<open>Properties\<close>

text \<open>
  C28: Storing a value in a packed array and reading it back: for every element width and
  every value the width can hold, \<^verbatim>\<open>get_direct\<close> after \<^verbatim>\<open>set_direct\<close> returns the
  value at its index and the old element at every other index, neighbours in the same
  byte included.
\<close>

theorem direct_get_set:
  assumes "valid_width w" "fits_width w v"
  shows "get_direct w (set_direct w m data i v) data k = (if k = i then v else get_direct w m data k)"
  using assms by (rule get_set_direct)

theorem direct_get_set_witness:
  "valid_width 2 \<and> fits_width 2 3 \<and>
   get_direct 2 (set_direct 2 (\<lambda>_. 0) 16 5 3) 16 5 = 3 \<and> get_direct 2 (set_direct 2 (\<lambda>_. 0) 16 5 3) 16 4 = 0"
  using direct_get_set [of 2 3 "\<lambda>_. 0" 16 5 5] direct_get_set [of 2 3 "\<lambda>_. 0" 16 5 4]
  by (simp add: valid_width_def fits_width_def lbound_for_width_def ubound_for_width_def get_direct_def)

text \<open>
  C30: \<^verbatim>\<open>Array::bit_width\<close> returns a legal element width that holds the value, and the
  least one: every legal width that holds the value is at least as large. The table for small
  values, the complement of negative ones and the three shifts agree with the bounds of
  \<^verbatim>\<open>lbound_for_width\<close> and \<^verbatim>\<open>ubound_for_width\<close>.
\<close>

theorem bit_width_minimal:
  assumes "int64 v"
  shows "valid_width (bit_width v) \<and> fits_width (bit_width v) v \<and>
    (\<forall>w. valid_width w \<and> fits_width w v \<longrightarrow> bit_width v \<le> w)"
  using bit_width_valid [OF assms] fits_bit_width [OF assms] bit_width_least by blast

theorem bit_width_minimal_witness: "int64 (- 129) \<and> fits_width (bit_width (- 129)) (- 129)"
  using bit_width_minimal [of "- 129"] by (simp add: int64_def)

text \<open>
  C29: On a sorted array the branch free, three times unrolled binary searches return the
  partition points that \<^verbatim>\<open>std::lower_bound\<close> and \<^verbatim>\<open>std::upper_bound\<close> promise: the
  result is at most the size, and an element is before it exactly when it is less than
  (respectively at most) the value.
\<close>

theorem bound_searches_correct:
  assumes "sorted (elems w m data n)"
  shows "lower_bound w m data n value \<le> n \<and>
    (\<forall>i<n. get_direct w m data i < value \<longleftrightarrow> i < lower_bound w m data n value) \<and>
    upper_bound w m data n value \<le> n \<and>
    (\<forall>i<n. get_direct w m data i \<le> value \<longleftrightarrow> i < upper_bound w m data n value)"
  using search_correct [OF sorted_downward(1) [OF assms]] search_correct [OF sorted_downward(2) [OF assms]]
  unfolding lower_bound_def upper_bound_def Let_def search_inv_0 by blast

theorem bound_searches_correct_witness:
  "sorted (elems 8 of_nat 0 10) \<and> lower_bound 8 of_nat 0 10 3 \<le> 10 \<and>
   2 < lower_bound 8 of_nat 0 10 3 \<and> \<not> 3 < lower_bound 8 of_nat 0 10 3"
proof -
  have "sorted (elems 8 of_nat 0 10)"
    by (simp add: elems_def get_direct_def upt_rec_numeral upt_rec)
  then have b: "lower_bound 8 of_nat 0 10 3 \<le> 10"
      "i < 10 \<Longrightarrow> get_direct 8 of_nat 0 i < 3 \<longleftrightarrow> i < lower_bound 8 of_nat 0 10 3" for i
    using bound_searches_correct [of 8 of_nat 0 10 3] by blast+
  show ?thesis
    using \<open>sorted _\<close> b(1) b(2) [of 2] b(2) [of 3] by (simp add: get_direct_def)
qed

end
