(* ===== verification/Array_Node.thy ===== *)
theory Array_Node
  imports Array_Direct
begin

text \<open>
  The integer array, \<^verbatim>\<open>Node\<close> (\<^verbatim>\<open>src/llbt/node.hpp\<close>, \<^verbatim>\<open>node.cpp\<close>) and
  \<^verbatim>\<open>Array\<close> (\<^verbatim>\<open>src/llbt/array.hpp\<close>, \<^verbatim>\<open>array.cpp\<close>). The accessor is the
  record \<open>arr\<close>; the node it is attached to lies in the byte memory of a \<open>heap\<close>, whose
  other half is the state of the allocator. Refs and addresses are identified, so that
  \<^verbatim>\<open>translate\<close> is the identity. The allocator is the parameter \<open>ops\<close>; what an
  operation needs of it beyond the value it returns is stated where it is used. A node with a
  parent is updated by its owner with the ref the operation returns;
  \<^verbatim>\<open>update_parent\<close> of an accessor without a parent sets
  \<open>m_missing_parent_update\<close>.
\<close>

subsection \<open>The code: nodes\<close>

record 's allocator_ops =
  op_alloc :: "nat \<Rightarrow> 's \<Rightarrow> (nat \<times> 's) result"
  op_free :: "nat \<Rightarrow> nat \<Rightarrow> 's \<Rightarrow> 's result"
  op_is_read_only :: "'s \<Rightarrow> nat \<Rightarrow> bool"

record 's heap =
  h_mem :: mem
  h_alloc :: 's

record arr =
  m_ref :: nat
  m_size :: nat
  m_width :: nat
  m_lbound :: int
  m_ubound :: int
  m_is_inner_bptree_node :: bool
  m_has_refs :: bool
  m_context_flag :: bool
  m_missing_parent_update :: bool

definition m_data :: "arr \<Rightarrow> nat" where
  "m_data a = get_data_from_header (m_ref a)"

definition initial_capacity :: nat where "initial_capacity = 128"

definition calc_byte_len :: "nat \<Rightarrow> nat \<Rightarrow> nat" where
  "calc_byte_len num_items width =
     (let bits = num_items * width; bytes = (bits + 7) div 8 in bytes + header_size)"

definition calc_item_count :: "nat \<Rightarrow> nat \<Rightarrow> nat" where
  "calc_item_count bytes width =
     (if width = 0 then 2 ^ 64 - 1
      else let bytes_data = bytes - header_size; total_bits = bytes_data * 8 in total_bits div width)"

definition update_width_cache_from_header :: "mem \<Rightarrow> arr \<Rightarrow> arr" where
  "update_width_cache_from_header m a =
     (let width = get_width_from_header m (m_ref a)
      in a\<lparr>m_lbound := lbound_for_width width, m_ubound := ubound_for_width width, m_width := width\<rparr>)"

definition init_from_mem :: "mem \<Rightarrow> nat \<Rightarrow> arr" where
  "init_from_mem m ref =
     update_width_cache_from_header m
       \<lparr>m_ref = ref, m_size = get_size_from_header m ref, m_width = 0, m_lbound = 0, m_ubound = 0,
        m_is_inner_bptree_node = get_is_inner_bptree_node_from_header m ref,
        m_has_refs = get_hasrefs_from_header m ref,
        m_context_flag = get_context_flag_from_header m ref,
        m_missing_parent_update = False\<rparr>"

definition init_from_ref :: "mem \<Rightarrow> nat \<Rightarrow> arr" where
  "init_from_ref m ref = init_from_mem m ref"

definition update_parent :: "arr \<Rightarrow> arr" where
  "update_parent a = a\<lparr>m_missing_parent_update := True\<rparr>"

text \<open>
  \<^verbatim>\<open>Allocator::free_\<close> hands the allocator the number of bytes the header tells:
  the used size of a read-only node, the capacity of a writable one.
\<close>

definition free_node :: "'s allocator_ops \<Rightarrow> nat \<Rightarrow> 's heap \<Rightarrow> 's heap result" where
  "free_node ops ref h =
     (let sz = (if op_is_read_only ops (h_alloc h) ref then get_byte_size_from_header (h_mem h) ref
                else get_capacity_from_header (h_mem h) ref)
      in bind_result (op_free ops ref sz (h_alloc h)) (\<lambda>s. Inr (h\<lparr>h_alloc := s\<rparr>)))"

definition create_node ::
  "'s allocator_ops \<Rightarrow> nat \<Rightarrow> bool \<Rightarrow> node_type \<Rightarrow> width_type \<Rightarrow> nat \<Rightarrow> 's heap \<Rightarrow> (nat \<times> 's heap) result" where
  "create_node ops sz context_flag type width_type width h =
     (let byte_size_0 = calc_byte_size width_type sz width; byte_size = max byte_size_0 initial_capacity
      in bind_result (op_alloc ops byte_size (h_alloc h)) (\<lambda>(ref, s).
        Inr (ref, \<lparr>h_mem = init_header (h_mem h) ref (type = type_InnerBptreeNode) (type \<noteq> type_Normal)
                      context_flag width_type width sz byte_size,
                   h_alloc = s\<rparr>)))"

definition do_copy_on_write :: "'s allocator_ops \<Rightarrow> nat \<Rightarrow> arr \<Rightarrow> 's heap \<Rightarrow> (arr \<times> 's heap) result" where
  "do_copy_on_write ops minimum_size a h =
     (let m = h_mem h;
          array_size = calc_byte_size (get_wtype_from_header m (m_ref a)) (m_size a)
                         (get_width_from_header m (m_ref a));
          new_size = max array_size minimum_size;
          new_size = (new_size + 7) div 8 * 8;
          new_size = new_size + 64
      in bind_result (op_alloc ops new_size (h_alloc h)) (\<lambda>(ref, s).
        let m = write_mem m ref (read_mem m (m_ref a) array_size);
            old_ref = m_ref a;
            a = a\<lparr>m_ref := ref\<rparr>;
            m = set_capacity_in_header new_size m ref;
            a = update_parent a
        in bind_result (free_node ops old_ref \<lparr>h_mem = m, h_alloc = s\<rparr>) (\<lambda>h. Inr (a, h))))"

definition copy_on_write :: "'s allocator_ops \<Rightarrow> arr \<Rightarrow> 's heap \<Rightarrow> (arr \<times> 's heap) result" where
  "copy_on_write ops a h =
     (if op_is_read_only ops (h_alloc h) (m_ref a) then do_copy_on_write ops 0 a h else Inr (a, h))"

definition copy_on_write_min :: "'s allocator_ops \<Rightarrow> nat \<Rightarrow> arr \<Rightarrow> 's heap \<Rightarrow> (arr \<times> 's heap) result" where
  "copy_on_write_min ops min_size a h =
     (if op_is_read_only ops (h_alloc h) (m_ref a) then do_copy_on_write ops min_size a h else Inr (a, h))"

definition ensure_size :: "'s allocator_ops \<Rightarrow> nat \<Rightarrow> arr \<Rightarrow> 's heap \<Rightarrow> (arr \<times> 's heap) result" where
  "ensure_size ops min_size a h =
     (if get_capacity_from_header (h_mem h) (m_ref a) < min_size then do_copy_on_write ops min_size a h
      else Inr (a, h))"

text \<open>The new capacity of \<^verbatim>\<open>Node::alloc\<close>: doubled, capped, and at least what is needed.\<close>

definition grow_capacity :: "nat \<Rightarrow> nat \<Rightarrow> nat" where
  "grow_capacity orig_capacity_bytes needed_bytes =
     (let new_capacity_bytes = orig_capacity_bytes * 2;
          new_capacity_bytes = (if new_capacity_bytes > max_array_payload_aligned
                                then max_array_payload_aligned else new_capacity_bytes)
      in if new_capacity_bytes < needed_bytes
         then let rest = (7 - needed_bytes mod 8) + 1
              in if rest < 8 then needed_bytes + rest else needed_bytes
         else new_capacity_bytes)"

definition realloc :: "'s allocator_ops \<Rightarrow> nat \<Rightarrow> nat \<Rightarrow> nat \<Rightarrow> 's heap \<Rightarrow> (nat \<times> 's heap) result" where
  "realloc ops ref old_size new_size h =
     bind_result (op_alloc ops new_size (h_alloc h)) (\<lambda>(new_ref, s).
       let m = write_mem (h_mem h) new_ref (read_mem (h_mem h) ref old_size)
       in bind_result (free_node ops ref \<lparr>h_mem = m, h_alloc = s\<rparr>) (\<lambda>h. Inr (new_ref, h)))"

definition node_grow :: "'s allocator_ops \<Rightarrow> nat \<Rightarrow> arr \<Rightarrow> 's heap \<Rightarrow> (arr \<times> 's heap) result" where
  "node_grow ops needed_bytes a h =
     (let orig_capacity_bytes = get_capacity_from_header (h_mem h) (m_ref a)
      in if orig_capacity_bytes < needed_bytes
         then let new_capacity_bytes = grow_capacity orig_capacity_bytes needed_bytes
              in bind_result (realloc ops (m_ref a) orig_capacity_bytes new_capacity_bytes h) (\<lambda>(ref, h).
                Inr (update_parent (a\<lparr>m_ref := ref\<rparr>),
                     h\<lparr>h_mem := set_capacity_in_header new_capacity_bytes (h_mem h) ref\<rparr>))
         else Inr (a, h))"

text \<open>\<^verbatim>\<open>calc_byte_len\<close> is virtual; \<open>byte_len\<close> is the override of the accessor's class.\<close>

definition node_alloc ::
  "(nat \<Rightarrow> nat \<Rightarrow> nat) \<Rightarrow> 's allocator_ops \<Rightarrow> nat \<Rightarrow> nat \<Rightarrow> arr \<Rightarrow> 's heap \<Rightarrow> (arr \<times> 's heap) result" where
  "node_alloc byte_len ops init_size new_width a h =
     (let needed_bytes = byte_len init_size new_width
      in if \<not> init_size \<le> max_array_size then Inl (AssertionFailed ''init_size <= max_array_size'')
      else bind_result (copy_on_write_min ops needed_bytes a h) (\<lambda>(a, h).
        let orig_width = get_width_from_header (h_mem h) (m_ref a)
        in bind_result (node_grow ops needed_bytes a h) (\<lambda>(a, h).
          let m = (if new_width \<noteq> orig_width then set_width_in_header new_width (h_mem h) (m_ref a)
                   else h_mem h);
              m = set_size_in_header init_size m (m_ref a)
          in Inr (a\<lparr>m_size := init_size\<rparr>, h\<lparr>h_mem := m\<rparr>))))"

definition array_alloc ::
  "'s allocator_ops \<Rightarrow> nat \<Rightarrow> nat \<Rightarrow> arr \<Rightarrow> 's heap \<Rightarrow> (arr \<times> 's heap) result" where
  "array_alloc ops init_size new_width a h =
     bind_result (node_alloc calc_byte_len ops init_size new_width a h) (\<lambda>(a, h).
       Inr (update_width_cache_from_header (h_mem h) a, h))"

subsection \<open>The code: arrays\<close>

text \<open>\<^verbatim>\<open>RefOrTagged\<close> and the conversions between refs and element values.\<close>

definition to_ref :: "int \<Rightarrow> nat" where
  "to_ref v = unat (of_int v :: u64)"

definition from_ref :: "nat \<Rightarrow> int" where
  "from_ref ref = sint (of_nat ref :: u64)"

definition is_ref :: "int \<Rightarrow> bool" where
  "is_ref v \<longleftrightarrow> v AND 1 = 0"

definition get_as_int :: "int \<Rightarrow> nat" where
  "get_as_int v = unat (drop_bit 1 (of_int v :: u64))"

definition make_tagged :: "nat \<Rightarrow> int" where
  "make_tagged i = sint (push_bit 1 (of_nat i) OR 1 :: u64)"

definition array_get :: "mem \<Rightarrow> arr \<Rightarrow> nat \<Rightarrow> int" where
  "array_get m a ndx = get_direct (m_width a) m (m_data a) ndx"

definition array_get_as_ref :: "mem \<Rightarrow> arr \<Rightarrow> nat \<Rightarrow> nat" where
  "array_get_as_ref m a ndx = to_ref (array_get m a ndx)"

definition array_front :: "mem \<Rightarrow> arr \<Rightarrow> int" where
  "array_front m a = array_get m a 0"

definition array_back :: "mem \<Rightarrow> arr \<Rightarrow> int" where
  "array_back m a = array_get m a (m_size a - 1)"

definition array_get_from_header :: "mem \<Rightarrow> nat \<Rightarrow> nat \<Rightarrow> int" where
  "array_get_from_header m header ndx =
     get_direct (get_width_from_header m header) m (get_data_from_header header) ndx"

definition lower_bound_int :: "mem \<Rightarrow> arr \<Rightarrow> int \<Rightarrow> nat" where
  "lower_bound_int m a value = lower_bound (m_width a) m (m_data a) (m_size a) value"

definition upper_bound_int :: "mem \<Rightarrow> arr \<Rightarrow> int \<Rightarrow> nat" where
  "upper_bound_int m a value = upper_bound (m_width a) m (m_data a) (m_size a) value"

definition array_put :: "arr \<Rightarrow> nat \<Rightarrow> int \<Rightarrow> 's heap \<Rightarrow> 's heap" where
  "array_put a ndx value h = h\<lparr>h_mem := set_direct (m_width a) (h_mem h) (m_data a) ndx value\<rparr>"

definition set_header_size :: "arr \<Rightarrow> nat \<Rightarrow> 's heap \<Rightarrow> 's heap" where
  "set_header_size a value h = h\<lparr>h_mem := set_size_in_header value (h_mem h) (m_ref a)\<rparr>"

text \<open>
  \<^verbatim>\<open>Array::create\<close> and \<^verbatim>\<open>calc_aligned_byte_size\<close>. The overflow test of the
  latter compares with the largest aligned 64 bit size.
\<close>

definition calc_aligned_byte_size :: "nat \<Rightarrow> nat \<Rightarrow> nat result" where
  "calc_aligned_byte_size sz width =
     (let max_2 = 2 ^ 64 - 8;
          (ovf, byte_size) =
            (if width < 8
             then let elems_per_byte = 8 div width;
                      byte_size_0 = sz div elems_per_byte;
                      byte_size_0 = (if sz mod elems_per_byte \<noteq> 0 then byte_size_0 + 1 else byte_size_0)
                  in (byte_size_0 > max_2 - header_size, header_size + byte_size_0)
             else let bytes_per_elem = width div 8
                  in (sz > (max_2 - header_size) div bytes_per_elem, header_size + sz * bytes_per_elem))
      in if ovf then Inl (OverflowError ''Byte size overflow'')
         else Inr ((byte_size - 1 OR 7) + 1))"

definition array_create ::
  "'s allocator_ops \<Rightarrow> node_type \<Rightarrow> bool \<Rightarrow> width_type \<Rightarrow> nat \<Rightarrow> int \<Rightarrow> 's heap \<Rightarrow> (nat \<times> 's heap) result" where
  "array_create ops type context_flag width_type sz value h =
     (let is_inner_bptree_node = (type = type_InnerBptreeNode);
          has_refs = (type = type_InnerBptreeNode \<or> type = type_HasRefs);
          width = (if value \<noteq> 0 then bit_width value else 0)
      in bind_result (if value \<noteq> 0 then calc_aligned_byte_size sz width else Inr header_size) (\<lambda>byte_size_0.
        let byte_size = max byte_size_0 initial_capacity
        in bind_result (op_alloc ops byte_size (h_alloc h)) (\<lambda>(ref, s).
          let m = init_header (h_mem h) ref is_inner_bptree_node has_refs context_flag width_type width sz byte_size;
              m = (if value \<noteq> 0 then fill_direct width m (get_data_from_header ref) 0 sz value else m)
          in Inr (ref, \<lparr>h_mem = m, h_alloc = s\<rparr>))))"

text \<open>
  Expanding the elements to a wider representation, last to first:
  \<^verbatim>\<open>old_getter\<close> reads at the old width, the setter of the new vtable writes. The
  \<open>shift\<close> is 1 for the elements \<^verbatim>\<open>Array::insert\<close> moves up and 0 for the others; the
  loop runs over the indices below \<open>i\<close> down to \<open>stop\<close>.
\<close>

fun expand_loop :: "nat \<Rightarrow> arr \<Rightarrow> nat \<Rightarrow> nat \<Rightarrow> nat \<Rightarrow> 's heap \<Rightarrow> 's heap" where
  "expand_loop old_width a shift stop 0 h = h"
| "expand_loop old_width a shift stop (Suc i) h =
     (if Suc i > stop
      then let v = get_direct old_width (h_mem h) (m_data a) i
           in expand_loop old_width a shift stop i (array_put a (i + shift) v h)
      else h)"

definition do_ensure_minimum_width :: "'s allocator_ops \<Rightarrow> int \<Rightarrow> arr \<Rightarrow> 's heap \<Rightarrow> (arr \<times> 's heap) result" where
  "do_ensure_minimum_width ops value a h =
     (let width = bit_width value; old_width = m_width a
      in bind_result (array_alloc ops (m_size a) width a h) (\<lambda>(a, h).
        Inr (a, expand_loop old_width a 0 0 (m_size a) h)))"

definition ensure_minimum_width :: "'s allocator_ops \<Rightarrow> int \<Rightarrow> arr \<Rightarrow> 's heap \<Rightarrow> (arr \<times> 's heap) result" where
  "ensure_minimum_width ops value a h =
     (if value \<ge> m_lbound a \<and> value \<le> m_ubound a then Inr (a, h) else do_ensure_minimum_width ops value a h)"

definition array_set :: "'s allocator_ops \<Rightarrow> nat \<Rightarrow> int \<Rightarrow> arr \<Rightarrow> 's heap \<Rightarrow> (arr \<times> 's heap) result" where
  "array_set ops ndx value a h =
     (if array_get (h_mem h) a ndx = value then Inr (a, h)
      else bind_result (copy_on_write ops a h) (\<lambda>(a, h).
        bind_result (ensure_minimum_width ops value a h) (\<lambda>(a, h).
          Inr (a, array_put a ndx value h))))"

definition set_as_ref :: "'s allocator_ops \<Rightarrow> nat \<Rightarrow> nat \<Rightarrow> arr \<Rightarrow> 's heap \<Rightarrow> (arr \<times> 's heap) result" where
  "set_as_ref ops ndx ref a h = array_set ops ndx (from_ref ref) a h"

definition read_u64 :: "mem \<Rightarrow> nat \<Rightarrow> u64" where
  "read_u64 m p = le_word (read_mem m p 8)"

definition write_u64 :: "mem \<Rightarrow> nat \<Rightarrow> u64 \<Rightarrow> mem" where
  "write_u64 m p w = write_mem m p (le_bytes 8 w)"

text \<open>\<^verbatim>\<open>open_bit_gap\<close>: the words after the first one, last to first, then the first.\<close>

fun gap_loop :: "nat \<Rightarrow> nat \<Rightarrow> nat \<Rightarrow> nat \<Rightarrow> mem \<Rightarrow> mem" where
  "gap_loop data width first_word 0 m = m"
| "gap_loop data width first_word (Suc k) m =
     (if Suc k > first_word
      then gap_loop data width first_word k
        (write_u64 m (data + 8 * Suc k)
          (push_bit width (read_u64 m (data + 8 * Suc k)) OR drop_bit (64 - width) (read_u64 m (data + 8 * k))))
      else m)"

definition open_bit_gap :: "nat \<Rightarrow> nat \<Rightarrow> nat \<Rightarrow> nat \<Rightarrow> mem \<Rightarrow> mem" where
  "open_bit_gap data used_bits pos_bits width m =
     (let first_word = pos_bits div 64;
          last_word = (used_bits + width - 1) div 64;
          m = gap_loop data width first_word last_word m;
          word = read_u64 m (data + 8 * first_word);
          off = pos_bits mod 64;
          keep = (if off \<noteq> 0 then drop_bit (64 - off) (NOT 0) else 0)
      in write_u64 m (data + 8 * first_word) ((word AND keep) OR push_bit width (word AND NOT keep)))"

definition move_up :: "arr \<Rightarrow> nat \<Rightarrow> nat \<Rightarrow> nat \<Rightarrow> 's heap \<Rightarrow> 's heap" where
  "move_up a old_width old_size ndx h =
     (if old_width < 8 then
        (if old_width \<noteq> 0 \<and> ndx \<noteq> old_size
         then h\<lparr>h_mem := open_bit_gap (m_data a) (old_size * old_width) (ndx * old_width) old_width (h_mem h)\<rparr>
         else h)
      else if ndx \<noteq> old_size then
        (let w = (if old_width = 64 then 8 else if old_width = 32 then 4 else if old_width = 16 then 2 else 1);
             src_begin = m_data a + ndx * w;
             src_end = m_data a + old_size * w;
             dst_end = src_end + w
         in h\<lparr>h_mem := write_mem (h_mem h) (dst_end - (src_end - src_begin))
                          (read_mem (h_mem h) src_begin (src_end - src_begin))\<rparr>)
      else h)"

definition array_insert :: "'s allocator_ops \<Rightarrow> nat \<Rightarrow> int \<Rightarrow> arr \<Rightarrow> 's heap \<Rightarrow> (arr \<times> 's heap) result" where
  "array_insert ops ndx value a h =
     (let old_width = m_width a; old_size = m_size a;
          do_expand = (value < m_lbound a \<or> value > m_ubound a)
      in bind_result
           (if do_expand then array_alloc ops (m_size a + 1) (bit_width value) a h
            else array_alloc ops (m_size a + 1) (m_width a) a h) (\<lambda>(a, h).
        let h = (if do_expand then expand_loop old_width a 1 ndx old_size h
                 else move_up a old_width old_size ndx h);
            h = array_put a ndx value h;
            h = (if do_expand then expand_loop old_width a 0 0 ndx h else h)
        in Inr (a, h)))"

definition array_add :: "'s allocator_ops \<Rightarrow> int \<Rightarrow> arr \<Rightarrow> 's heap \<Rightarrow> (arr \<times> 's heap) result" where
  "array_add ops value a h = array_insert ops (m_size a) value a h"

definition array_truncate :: "'s allocator_ops \<Rightarrow> nat \<Rightarrow> arr \<Rightarrow> 's heap \<Rightarrow> (arr \<times> 's heap) result" where
  "array_truncate ops new_size a h =
     (if new_size = m_size a then Inr (a, h)
      else bind_result (copy_on_write ops a h) (\<lambda>(a, h).
        let a = a\<lparr>m_size := new_size\<rparr>;
            h = set_header_size a new_size h
        in if new_size = 0
           then let h = h\<lparr>h_mem := set_width_in_header 0 (h_mem h) (m_ref a)\<rparr>
                in Inr (update_width_cache_from_header (h_mem h) a, h)
           else Inr (a, h)))"

definition array_clear :: "'s allocator_ops \<Rightarrow> arr \<Rightarrow> 's heap \<Rightarrow> (arr \<times> 's heap) result" where
  "array_clear ops a h = array_truncate ops 0 a h"

fun move_loop :: "arr \<Rightarrow> nat list \<Rightarrow> nat \<Rightarrow> 's heap \<Rightarrow> 's heap" where
  "move_loop a [] dest h = h"
| "move_loop a (i # is) dest h =
     (let v = get_direct (m_width a) (h_mem h) (m_data a) i
      in move_loop a is (dest + 1) (array_put a dest v h))"

definition array_move :: "'s allocator_ops \<Rightarrow> nat \<Rightarrow> nat \<Rightarrow> nat \<Rightarrow> arr \<Rightarrow> 's heap \<Rightarrow> (arr \<times> 's heap) result" where
  "array_move ops begin_ndx end_ndx dest_begin a h =
     bind_result (copy_on_write ops a h) (\<lambda>(a, h).
       let bits_per_elem = (if get_wtype_from_header (h_mem h) (m_ref a) = wtype_Multiply
                            then m_width a * 8 else m_width a)
       in if bits_per_elem < 8 then Inr (a, move_loop a [begin_ndx..<end_ndx] dest_begin h)
          else let bytes_per_elem = bits_per_elem div 8;
                   begin_2 = m_data a + begin_ndx * bytes_per_elem;
                   end_2 = m_data a + end_ndx * bytes_per_elem;
                   dest_begin_2 = m_data a + dest_begin * bytes_per_elem
               in Inr (a, h\<lparr>h_mem := write_mem (h_mem h) dest_begin_2
                                       (read_mem (h_mem h) begin_2 (end_2 - begin_2))\<rparr>))"

definition array_erase :: "'s allocator_ops \<Rightarrow> nat \<Rightarrow> arr \<Rightarrow> 's heap \<Rightarrow> (arr \<times> 's heap) result" where
  "array_erase ops ndx a h =
     bind_result (array_move ops (ndx + 1) (m_size a) ndx a h) (\<lambda>(a, h).
       let a = a\<lparr>m_size := m_size a - 1\<rparr> in Inr (a, set_header_size a (m_size a) h))"

definition array_erase_range :: "'s allocator_ops \<Rightarrow> nat \<Rightarrow> nat \<Rightarrow> arr \<Rightarrow> 's heap \<Rightarrow> (arr \<times> 's heap) result" where
  "array_erase_range ops begin_ndx end_ndx a h =
     (if begin_ndx \<noteq> end_ndx
      then bind_result (array_move ops end_ndx (m_size a) begin_ndx a h) (\<lambda>(a, h).
        let a = a\<lparr>m_size := m_size a - (end_ndx - begin_ndx)\<rparr> in Inr (a, set_header_size a (m_size a) h))
      else Inr (a, h))"

text \<open>\<^verbatim>\<open>Array::move(Array& dst, ndx)\<close>: the elements from \<open>ndx\<close> on go to the end of \<open>dst\<close>.\<close>

fun append_loop :: "arr \<Rightarrow> arr \<Rightarrow> nat list \<Rightarrow> nat \<Rightarrow> 's heap \<Rightarrow> 's heap" where
  "append_loop a dst [] dest h = h"
| "append_loop a dst (i # is) dest h =
     (let v = get_direct (m_width a) (h_mem h) (m_data a) i
      in append_loop a dst is (dest + 1) (array_put dst dest v h))"

definition array_move_to ::
  "'s allocator_ops \<Rightarrow> arr \<Rightarrow> nat \<Rightarrow> arr \<Rightarrow> 's heap \<Rightarrow> (arr \<times> arr \<times> 's heap) result" where
  "array_move_to ops dst ndx a h =
     (let dest_begin = m_size dst; nb_to_move = m_size a - ndx
      in bind_result (copy_on_write ops dst h) (\<lambda>(dst, h).
        bind_result (ensure_minimum_width ops (m_ubound a) dst h) (\<lambda>(dst, h).
          bind_result (array_alloc ops (m_size dst + nb_to_move) (m_width dst) dst h) (\<lambda>(dst, h).
            bind_result (array_truncate ops ndx a (append_loop a dst [ndx..<m_size a] dest_begin h)) (\<lambda>(a, h).
              Inr (a, dst, h))))))"

text \<open>
  \<^verbatim>\<open>Array::adjust\<close>: one pass for the least and the greatest value, then either
  \<^verbatim>\<open>set\<close> per element or an update in place. In the byte sized cases the code adds in the
  element type; the setter truncates to the same bits.
\<close>

fun adjust_set :: "'s allocator_ops \<Rightarrow> nat list \<Rightarrow> int \<Rightarrow> arr \<Rightarrow> 's heap \<Rightarrow> (arr \<times> 's heap) result" where
  "adjust_set ops [] diff a h = Inr (a, h)"
| "adjust_set ops (i # is) diff a h =
     bind_result (array_set ops i (array_get (h_mem h) a i + diff) a h) (\<lambda>(a, h). adjust_set ops is diff a h)"

definition array_adjust :: "'s allocator_ops \<Rightarrow> nat \<Rightarrow> nat \<Rightarrow> int \<Rightarrow> arr \<Rightarrow> 's heap \<Rightarrow> (arr \<times> 's heap) result" where
  "array_adjust ops begin_ndx end_ndx diff a h =
     (if diff = 0 \<or> begin_ndx \<ge> end_ndx then Inr (a, h)
      else let vs = map (array_get (h_mem h) a) [begin_ndx..<end_ndx];
               mn = fold (\<lambda>v mn. if v < mn then v else mn) vs (2 ^ 63 - 1);
               mx = fold (\<lambda>v mx. if v > mx then v else mx) vs (- (2 ^ 63))
           in if mn + diff < m_lbound a \<or> mx + diff > m_ubound a
              then adjust_set ops [begin_ndx..<end_ndx] diff a h
              else bind_result (copy_on_write ops a h) (\<lambda>(a, h).
                Inr (a, fold (\<lambda>i h. array_put a i (array_get (h_mem h) a i + diff) h)
                          [begin_ndx..<end_ndx] h)))"

definition set_type :: "'s allocator_ops \<Rightarrow> node_type \<Rightarrow> arr \<Rightarrow> 's heap \<Rightarrow> (arr \<times> 's heap) result" where
  "set_type ops type a h =
     bind_result (copy_on_write ops a h) (\<lambda>(a, h).
       let init_is_inner_bptree_node = (type = type_InnerBptreeNode);
           init_has_refs = (type = type_InnerBptreeNode \<or> type = type_HasRefs);
           a = a\<lparr>m_is_inner_bptree_node := init_is_inner_bptree_node, m_has_refs := init_has_refs\<rparr>;
           m = set_is_inner_bptree_node_in_header init_is_inner_bptree_node (h_mem h) (m_ref a);
           m = set_hasrefs_in_header init_has_refs m (m_ref a)
       in Inr (a, h\<lparr>h_mem := m\<rparr>))"

end
