(* ===== verification/Group_Top.thy ===== *)
theory Group_Top
  imports Array_Node
begin

text \<open>
  What the storage engine reads from the top array of a snapshot,
  \<^verbatim>\<open>src/llbt/group.hpp\<close> and \<^verbatim>\<open>group.cpp\<close>: the logical file size, the
  version number and the ref of the history, which is the registry of the key-value core. The
  slots from the file size on are tagged integers.
\<close>

subsection \<open>The code\<close>

definition s_file_size_ndx :: nat where "s_file_size_ndx = 2"
definition s_free_pos_ndx :: nat where "s_free_pos_ndx = 3"
definition s_free_size_ndx :: nat where "s_free_size_ndx = 4"
definition s_free_version_ndx :: nat where "s_free_version_ndx = 5"
definition s_version_ndx :: nat where "s_version_ndx = 6"
definition s_hist_type_ndx :: nat where "s_hist_type_ndx = 7"
definition s_hist_ref_ndx :: nat where "s_hist_ref_ndx = 8"
definition s_hist_version_ndx :: nat where "s_hist_version_ndx = 9"

definition get_history_ref :: "mem \<Rightarrow> nat \<Rightarrow> nat" where
  "get_history_ref m top_ref =
     (if top_ref \<noteq> 0 then
        (let top = init_from_ref m top_ref
         in if m_size top > s_hist_type_ndx then array_get_as_ref m top s_hist_ref_ndx else 0)
      else 0)"

definition get_logical_file_size :: "mem \<Rightarrow> nat \<Rightarrow> nat" where
  "get_logical_file_size m top_ref =
     (if top_ref \<noteq> 0 then
        (let top = init_from_ref m top_ref
         in if m_size top > s_file_size_ndx then get_as_int (array_get m top s_file_size_ndx) else 0)
      else 0)"

text \<open>Version 0 is not a legal initial version, so it is read as 1.\<close>

definition get_version :: "mem \<Rightarrow> nat \<Rightarrow> nat" where
  "get_version m top_ref =
     (let version_2 =
        (if top_ref \<noteq> 0 then
           (let top = init_from_ref m top_ref
            in if m_size top > s_version_ndx then get_as_int (array_get m top s_version_ndx) else 0)
         else 0)
      in if version_2 = 0 then 1 else version_2)"

subsection \<open>What reading a node depends on\<close>

definition node_span :: "mem \<Rightarrow> nat \<Rightarrow> nat set" where
  "node_span m ref = {ref..<ref + calc_byte_len (get_size_from_header m ref) (get_width_from_header m ref)}"

lemma header_in_span: "i < 8 \<Longrightarrow> ref + i \<in> node_span m ref"
  by (simp add: node_span_def calc_byte_len_def header_size_def Let_def)

lemma init_from_ref_cong:
  assumes "\<And>a. a \<in> node_span m ref \<Longrightarrow> m' a = m a"
  shows "init_from_ref m' ref = init_from_ref m ref"
proof -
  have "m' (ref + 4) = m (ref + 4)" "m' (ref + 5) = m (ref + 5)" "m' (ref + 6) = m (ref + 6)"
    "m' (ref + 7) = m (ref + 7)"
    by (rule assms, rule header_in_span, simp)+
  then show ?thesis
    by (simp add: init_from_ref_def init_from_mem_def update_width_cache_from_header_def header_getters Let_def)
qed

lemma init_from_ref_simps [simp]:
  "m_size (init_from_ref m ref) = get_size_from_header m ref"
  "m_width (init_from_ref m ref) = get_width_from_header m ref"
  "m_ref (init_from_ref m ref) = ref"
  by (simp_all add: init_from_ref_def init_from_mem_def update_width_cache_from_header_def Let_def)

lemma array_get_cong:
  assumes "\<And>a. a \<in> node_span m ref \<Longrightarrow> m' a = m a" "i < get_size_from_header m ref"
  shows "array_get m' (init_from_ref m ref) i = array_get m (init_from_ref m ref) i"
  unfolding array_get_def
proof (rule get_direct_eqI)
  let ?w = "m_width (init_from_ref m ref)" and ?n = "get_size_from_header m ref"
  show "valid_width ?w" by (simp add: valid_width_from_header)
  fix j assume j: "j < ?w"
  have "i * ?w + j < (i + 1) * ?w" using j by simp
  also have "\<dots> \<le> ?n * ?w" using assms(2) by (intro mult_le_mono1) simp
  finally have "(i * ?w + j) div 8 < (?n * ?w + 7) div 8" by linarith
  then have "m_data (init_from_ref m ref) + (i * ?w + j) div 8 \<in> node_span m ref"
    by (simp add: node_span_def calc_byte_len_def header_size_def Let_def m_data_def get_data_from_header_def)
  then show "mbit m' (m_data (init_from_ref m ref)) (i * ?w + j) = mbit m (m_data (init_from_ref m ref)) (i * ?w + j)"
    unfolding mbit_def by (simp only: assms(1))
qed

lemma get_logical_file_size_cong:
  "(\<And>a. a \<in> node_span m ref \<Longrightarrow> m' a = m a) \<Longrightarrow> get_logical_file_size m' ref = get_logical_file_size m ref"
  using init_from_ref_cong [of m ref m'] array_get_cong [of m ref m' s_file_size_ndx]
  by (simp add: get_logical_file_size_def Let_def)

lemma get_version_cong:
  "(\<And>a. a \<in> node_span m ref \<Longrightarrow> m' a = m a) \<Longrightarrow> get_version m' ref = get_version m ref"
  using init_from_ref_cong [of m ref m'] array_get_cong [of m ref m' s_version_ndx]
  by (simp add: get_version_def Let_def)

lemma get_history_ref_cong:
  assumes "\<And>a. a \<in> node_span m ref \<Longrightarrow> m' a = m a" "get_size_from_header m ref > s_hist_version_ndx"
  shows "get_history_ref m' ref = get_history_ref m ref"
  using init_from_ref_cong [OF assms(1)] array_get_cong [of m ref m' s_hist_ref_ndx, OF assms(1)] assms(2)
  by (simp add: get_history_ref_def array_get_as_ref_def s_hist_ref_ndx_def s_hist_version_ndx_def Let_def)

end
