(* ===== verification/Commit_Journal.thy ===== *)
theory Commit_Journal
  imports Crc32c Journal_Format Group_Top
begin

text \<open>
  The commit journal, \<^verbatim>\<open>src/llbt/core/commit_journal.cpp\<close>: sixteen blobs of four
  megabytes, preallocated in the file, that hold one record per commit since the last
  checkpoint. The journal is addressed by offset; \<open>write_bytes\<close> maps an offset to the
  chunk that holds it. \<open>prepare_append\<close> writes the record of a commit, \<open>commit_append\<close>
  advances the in-memory state once the record is durable. The file is the byte memory; the
  write window of the group writer is a write to it.
\<close>

subsection \<open>The code\<close>

record written_array =
  wa_ref :: u64
  wa_size :: u32
  wa_checksum :: u32

record commit_journal =
  m_chunks :: "nat list"
  m_tail :: nat
  m_commits_since_checkpoint :: nat
  m_cow_bytes_since_checkpoint :: nat
  m_sequence :: u64
  m_previous_offset :: u64
  m_checkpoint_top_ref :: nat
  m_checkpoint_version :: nat
  m_checkpoint_logical_size :: nat

record pending_append =
  pa_next_offset :: nat
  pa_record_offset :: nat
  pa_sequence :: u64
  pa_version :: u64
  pa_cow_bytes :: nat

definition chunk_size :: nat where "chunk_size = 4 * 1024 * 1024"
definition chunk_count :: nat where "chunk_count = 16"
definition capacity :: nat where "capacity = chunk_size * chunk_count"

definition required_size :: "nat \<Rightarrow> nat" where
  "required_size array_count = aligned (fixed_header_size + array_count * entry_size + footer_size)"

definition open_at_checkpoint :: "mem \<Rightarrow> nat \<Rightarrow> commit_journal option result" where
  "open_at_checkpoint m group_top_ref =
     (if group_top_ref = 0 then Inr None
      else let registry_ref = get_history_ref m group_top_ref
      in if registry_ref = 0 then Inr None
      else let registry = init_from_ref m registry_ref
      in if m_size registry \<le> registry_journal_slot then Inr None
      else let descriptor_ref = array_get_as_ref m registry registry_journal_slot
      in if descriptor_ref = 0 then Inr None
      else let descriptor = init_from_ref m descriptor_ref
      in if m_size descriptor \<noteq> chunk_count then Inl (InvalidDatabase ''bad commit journal descriptor'')
      else let chunks = map (array_get_as_ref m descriptor) [0..<chunk_count]
      in if 0 \<in> set chunks then Inl (InvalidDatabase ''bad commit journal chunk'')
      else Inr (Some
        \<lparr>m_chunks = chunks, m_tail = 0, m_commits_since_checkpoint = 0, m_cow_bytes_since_checkpoint = 0,
         m_sequence = 0, m_previous_offset = - 1, m_checkpoint_top_ref = group_top_ref,
         m_checkpoint_version = get_version m group_top_ref,
         m_checkpoint_logical_size = get_logical_file_size m group_top_ref\<rparr>))"

function write_bytes :: "nat list \<Rightarrow> nat \<Rightarrow> byte list \<Rightarrow> mem \<Rightarrow> unit result \<times> mem" where
  "write_bytes chunks offset data m =
     (if data = [] then (Inr (), m)
      else let chunk_index = offset div chunk_size;
               in_chunk = offset mod chunk_size;
               count = min (length data) (chunk_size - in_chunk)
      in if chunk_index < length chunks
         then let target = chunks ! chunk_index + header_size + in_chunk
              in write_bytes chunks (offset + count) (drop count data) (write_mem m target (take count data))
         else (Inl (OutOfRange ''vector::at''), m))"
  by auto
termination
  by (relation "measure (\<lambda>(_, _, data, _). length data)") (auto simp: chunk_size_def)

declare write_bytes.simps [simp del]

definition put_array :: "written_array \<Rightarrow> byte list \<times> nat \<Rightarrow> byte list \<times> nat" where
  "put_array array = (\<lambda>(record, cursor).
     let record = put_u64 record cursor (wa_ref array);
         record = put_u32 record (cursor + 8) (wa_size array);
         record = put_u32 record (cursor + 12) (wa_checksum array)
     in (record, cursor + entry_size))"

text \<open>The record buffer that \<^verbatim>\<open>prepare_append\<close> fills before it writes it.\<close>

definition build_record :: "u64 \<Rightarrow> u64 \<Rightarrow> u64 \<Rightarrow> u64 \<Rightarrow> u64 \<Rightarrow> written_array list \<Rightarrow> byte list" where
  "build_record sequence previous_offset version new_top_ref logical_size arrays =
     (let record_size = required_size (length arrays);
          record = replicate record_size 0;
          record = put_u64 record 0 header_magic;
          record = put_u32 record 8 record_version;
          record = put_u32 record 12 (of_nat fixed_header_size);
          record = put_u64 record 16 (sequence + 1);
          record = put_u64 record 24 version;
          record = put_u64 record 32 (if previous_offset = - 1 then - 1 else previous_offset);
          record = put_u64 record 40 new_top_ref;
          record = put_u64 record 48 logical_size;
          record = put_u32 record 56 (of_nat (length arrays));
          record = put_u32 record 60 (of_nat record_size);
          record = fst (fold put_array arrays (record, fixed_header_size));
          footer = record_size - footer_size;
          record = put_u64 record footer footer_magic;
          record = put_u64 record (footer + 8) (sequence + 1);
          record = put_u32 record (footer + 16) (of_nat record_size)
      in put_u32 record (footer + 20) (crc_compute (take (footer + 20) record)))"

text \<open>
  \<open>fail\<close> is the simulated failure the test hooks can trigger: half of the record is written
  and the call throws.
\<close>

definition prepare_append :: "bool \<Rightarrow> commit_journal \<Rightarrow> u64 \<Rightarrow> u64 \<Rightarrow> u64 \<Rightarrow> written_array list \<Rightarrow> mem \<Rightarrow>
    pending_append result \<times> mem" where
  "prepare_append fail j version new_top_ref logical_size arrays m =
     (let record_size = required_size (length arrays)
      in if record_size > capacity \<or> m_tail j + record_size > capacity
         then (Inl (LengthError ''commit journal is full; checkpoint required''), m)
      else let record = build_record (m_sequence j) (m_previous_offset j) version new_top_ref logical_size arrays
      in if fail
         then (case write_bytes (m_chunks j) (m_tail j) (take (length record div 2) record) m of
                 (Inl e, m) \<Rightarrow> (Inl e, m)
               | (Inr _, m) \<Rightarrow> (Inl (LogicError ''simulated failure''), m))
      else case write_bytes (m_chunks j) (m_tail j) record m of
             (Inl e, m) \<Rightarrow> (Inl e, m)
           | (Inr _, m) \<Rightarrow>
               (Inr \<lparr>pa_next_offset = m_tail j + record_size, pa_record_offset = m_tail j,
                     pa_sequence = m_sequence j + 1, pa_version = version,
                     pa_cow_bytes = sum_list (map (\<lambda>a. unat (wa_size a)) arrays)\<rparr>, m))"

definition commit_append :: "pending_append \<Rightarrow> commit_journal \<Rightarrow> commit_journal" where
  "commit_append pending j =
     j\<lparr>m_tail := pa_next_offset pending, m_previous_offset := of_nat (pa_record_offset pending),
       m_sequence := pa_sequence pending,
       m_commits_since_checkpoint := m_commits_since_checkpoint j + 1,
       m_cow_bytes_since_checkpoint := m_cow_bytes_since_checkpoint j + pa_cow_bytes pending\<rparr>"

definition needs_checkpoint :: "commit_journal \<Rightarrow> nat \<Rightarrow> nat \<Rightarrow> bool" where
  "needs_checkpoint j next_record_size next_cow_bytes \<longleftrightarrow>
     m_commits_since_checkpoint j \<ge> 4096 \<or> m_tail j + next_record_size > capacity * 3 div 4 \<or>
     m_cow_bytes_since_checkpoint j + next_cow_bytes > 64 * 1024 * 1024"

definition clear_after_compaction :: "nat \<Rightarrow> nat \<Rightarrow> nat \<Rightarrow> commit_journal \<Rightarrow> mem \<Rightarrow>
    unit result \<times> commit_journal \<times> mem" where
  "clear_after_compaction top_ref version logical_size j m =
     (case write_bytes (m_chunks j) 0 (replicate 8 0) m of
        (Inl e, m) \<Rightarrow> (Inl e, j, m)
      | (Inr _, m) \<Rightarrow>
          (Inr (),
           j\<lparr>m_tail := 0, m_previous_offset := - 1, m_sequence := 0, m_commits_since_checkpoint := 0,
             m_cow_bytes_since_checkpoint := 0, m_checkpoint_top_ref := top_ref,
             m_checkpoint_version := version, m_checkpoint_logical_size := logical_size\<rparr>, m))"

definition reset_after_checkpoint :: "nat \<Rightarrow> nat \<Rightarrow> nat \<Rightarrow> commit_journal \<Rightarrow> mem \<Rightarrow> commit_journal \<times> mem" where
  "reset_after_checkpoint top_ref version logical_size j m =
     snd (clear_after_compaction top_ref version logical_size j m)"

subsection \<open>The journal as one address space\<close>

text \<open>
  \<open>jaddr\<close> is the file address of a journal offset and \<open>jview\<close> the journal as a memory of its
  own. The chunks do not overlap, so a write through \<open>write_bytes\<close> is a write to the view.
\<close>

definition jaddr :: "nat list \<Rightarrow> nat \<Rightarrow> nat" where
  "jaddr chunks off = chunks ! (off div chunk_size) + header_size + off mod chunk_size"

definition jview :: "nat list \<Rightarrow> mem \<Rightarrow> mem" where
  "jview chunks m = (\<lambda>off. m (jaddr chunks off))"

definition chunks_ok :: "nat list \<Rightarrow> bool" where
  "chunks_ok chunks \<longleftrightarrow> length chunks = chunk_count \<and>
     (\<forall>i<chunk_count. \<forall>j<chunk_count. i < j \<longrightarrow>
        chunks ! i + chunk_size \<le> chunks ! j \<or> chunks ! j + chunk_size \<le> chunks ! i)"

lemma chunk_size_pos [simp]: "0 < chunk_size"
  by (simp add: chunk_size_def)

lemma off_div_lt: "off < capacity \<Longrightarrow> off div chunk_size < chunk_count"
  by (simp add: capacity_def less_mult_imp_div_less mult.commute)

lemma jaddr_add:
  assumes "off mod chunk_size + i < chunk_size"
  shows "jaddr chunks (off + i) = jaddr chunks off + i"
proof -
  define q r where "q = off div chunk_size" and "r = off mod chunk_size"
  have off: "off = r + chunk_size * q" by (simp add: q_def r_def)
  have "r + i < chunk_size" using assms by (simp add: r_def)
  then have "(off + i) div chunk_size = q" "(off + i) mod chunk_size = r + i"
    using div_mult_self2 [of chunk_size "r + i" q] mod_mult_self2 [of "r + i" chunk_size q]
    by (simp_all add: off ac_simps)
  then show ?thesis by (simp add: jaddr_def q_def r_def)
qed

lemma jaddr_inj:
  assumes "chunks_ok chunks" "i < capacity" "j < capacity" "jaddr chunks i = jaddr chunks j"
  shows "i = j"
proof -
  let ?ci = "i div chunk_size" and ?cj = "j div chunk_size"
  have lt: "?ci < chunk_count" "?cj < chunk_count" using assms(2,3) by (simp_all add: off_div_lt)
  have md: "i mod chunk_size < chunk_size" "j mod chunk_size < chunk_size" by simp_all
  have "?ci = ?cj"
  proof (rule ccontr)
    assume "?ci \<noteq> ?cj"
    then have "chunks ! ?ci + chunk_size \<le> chunks ! ?cj \<or> chunks ! ?cj + chunk_size \<le> chunks ! ?ci"
      using assms(1) lt unfolding chunks_ok_def by (meson nat_neq_iff)
    with assms(4) md show False unfolding jaddr_def by linarith
  qed
  with assms(4) have "i mod chunk_size = j mod chunk_size" by (simp add: jaddr_def)
  with \<open>?ci = ?cj\<close> show ?thesis by (metis div_mult_mod_eq)
qed

lemma write_bytes_view:
  assumes "chunks_ok chunks" "off + length data \<le> capacity"
  shows "\<exists>m'. write_bytes chunks off data m = (Inr (), m') \<and>
    (\<forall>i<length data. m' (jaddr chunks (off + i)) = data ! i) \<and>
    (\<forall>a. (\<forall>i<length data. a \<noteq> jaddr chunks (off + i)) \<longrightarrow> m' a = m a)"
  using assms
proof (induction chunks off data m rule: write_bytes.induct)
  case (1 chunks off data m)
  show ?case
  proof (cases "data = []")
    case True
    then show ?thesis by (simp add: write_bytes.simps)
  next
    case False
    define count where "count = min (length data) (chunk_size - off mod chunk_size)"
    define m1 where "m1 = write_mem m (jaddr chunks off) (take count data)"
    have "0 < length data" using False by simp
    then have "off < capacity" using "1.prems"(2) by linarith
    then have idx: "off div chunk_size < length chunks"
      using "1.prems"(1) off_div_lt [of off] by (simp add: chunks_ok_def)
    have count: "0 < count" "count \<le> length data" "off mod chunk_size + count \<le> chunk_size"
      using False mod_less_divisor [OF chunk_size_pos, of off] by (auto simp: count_def simp del: mod_less_divisor)
    have step: "write_bytes chunks off data m = write_bytes chunks (off + count) (drop count data) m1"
      using False idx by (subst write_bytes.simps) (simp add: Let_def count_def m1_def jaddr_def)
    obtain m' where m': "write_bytes chunks (off + count) (drop count data) m1 = (Inr (), m')"
      "\<And>i. i < length data - count \<Longrightarrow> m' (jaddr chunks (off + count + i)) = drop count data ! i"
      "\<And>a. (\<And>i. i < length data - count \<Longrightarrow> a \<noteq> jaddr chunks (off + count + i)) \<Longrightarrow> m' a = m1 a"
      using "1.IH" [OF False _ _ _ idx, of "off mod chunk_size" count] "1.prems" count(2)
      unfolding count_def m1_def jaddr_def by auto
    have lo: "jaddr chunks (off + i) = jaddr chunks off + i" if "i < count" for i
      using that count(3) by (intro jaddr_add) linarith
    have "m' (jaddr chunks (off + i)) = data ! i" if i: "i < length data" for i
    proof (cases "i < count")
      case True
      have "jaddr chunks (off + i) \<noteq> jaddr chunks (off + count + k)" if "k < length data - count" for k
      proof -
        have "off + i < capacity" "off + count + k < capacity" "i < count + k"
          using that True "1.prems"(2) i by linarith+
        then show ?thesis using jaddr_inj [OF "1.prems"(1), of "off + i" "off + count + k"] by auto
      qed
      then have "m' (jaddr chunks (off + i)) = m1 (jaddr chunks (off + i))" by (rule m'(3))
      with True i show ?thesis by (simp add: m1_def write_mem_def lo)
    next
      case False
      then show ?thesis using m'(2) [of "i - count"] i count(2) by (simp add: add.assoc)
    qed
    moreover have "m' a = m a" if a: "\<And>i. i < length data \<Longrightarrow> a \<noteq> jaddr chunks (off + i)" for a
    proof -
      have "a \<noteq> jaddr chunks (off + count + i)" if "i < length data - count" for i
        using a [of "count + i"] that by (simp add: add.assoc)
      then have "m' a = m1 a" by (rule m'(3))
      moreover have "m1 a = m a"
      proof (rule ccontr)
        assume "m1 a \<noteq> m a"
        then have "jaddr chunks off \<le> a" "a < jaddr chunks off + count"
          using count(2) unfolding m1_def write_mem_def by (auto split: if_splits simp: min_def)
        then have "a - jaddr chunks off < count" "a - jaddr chunks off < length data"
          "jaddr chunks off + (a - jaddr chunks off) = a" using count(2) by linarith+
        then show False using a [of "a - jaddr chunks off"] lo [of "a - jaddr chunks off"] by simp
      qed
      ultimately show ?thesis by simp
    qed
    ultimately show ?thesis using step m'(1) by auto
  qed
qed

lemma jview_write_bytes:
  assumes "chunks_ok chunks" "off + length data \<le> capacity"
  obtains m' where "write_bytes chunks off data m = (Inr (), m')"
    and "\<And>i. i < capacity \<Longrightarrow> jview chunks m' i = write_mem (jview chunks m) off data i"
    and "\<And>a. a \<notin> jaddr chunks ` {off..<off + length data} \<Longrightarrow> m' a = m a"
proof -
  obtain m' where m': "write_bytes chunks off data m = (Inr (), m')"
    "\<And>i. i < length data \<Longrightarrow> m' (jaddr chunks (off + i)) = data ! i"
    "\<And>a. (\<And>i. i < length data \<Longrightarrow> a \<noteq> jaddr chunks (off + i)) \<Longrightarrow> m' a = m a"
    using write_bytes_view [OF assms, of m] by blast
  have view: "jview chunks m' i = write_mem (jview chunks m) off data i" if i: "i < capacity" for i
  proof (cases "off \<le> i \<and> i < off + length data")
    case True
    then have "i - off < length data" by linarith
    then show ?thesis using m'(2) [of "i - off"] True by (simp add: jview_def write_mem_def)
  next
    case False
    have "jaddr chunks i \<noteq> jaddr chunks (off + k)" if "k < length data" for k
    proof
      assume eq: "jaddr chunks i = jaddr chunks (off + k)"
      have "off + k < capacity" using that assms(2) by linarith
      from jaddr_inj [OF assms(1) i this eq] that False show False by simp
    qed
    then have "m' (jaddr chunks i) = m (jaddr chunks i)" by (rule m'(3))
    with False show ?thesis unfolding jview_def write_mem_def by (simp only: if_False)
  qed
  have frame: "m' a = m a" if a: "a \<notin> jaddr chunks ` {off..<off + length data}" for a
  proof (rule m'(3))
    fix i assume "i < length data"
    then have "jaddr chunks (off + i) \<in> jaddr chunks ` {off..<off + length data}" by (intro imageI) simp
    with a show "a \<noteq> jaddr chunks (off + i)" by blast
  qed
  show ?thesis by (rule that [OF m'(1) view frame])
qed

subsection \<open>The record as a concatenation of fields\<close>

lemma put_u32_zeros:
  "q = length p \<Longrightarrow> 4 \<le> n \<Longrightarrow> put_u32 (p @ replicate n 0) q v = (p @ le_bytes 4 v) @ replicate (n - 4) 0"
  by (simp add: put_u32_eq overwrite_def)

lemma put_u64_zeros:
  "q = length p \<Longrightarrow> 8 \<le> n \<Longrightarrow> put_u64 (p @ replicate n 0) q v = (p @ le_bytes 8 v) @ replicate (n - 8) 0"
  by (simp add: put_u64_eq overwrite_def)

definition enc_array :: "written_array \<Rightarrow> byte list" where
  "enc_array a = le_bytes 8 (wa_ref a) @ le_bytes 4 (wa_size a) @ le_bytes 4 (wa_checksum a)"

definition enc_header :: "u64 \<Rightarrow> u64 \<Rightarrow> u64 \<Rightarrow> u64 \<Rightarrow> u64 \<Rightarrow> nat \<Rightarrow> nat \<Rightarrow> byte list" where
  "enc_header seq prev version newtop logical n sz =
     le_bytes 8 header_magic @ le_bytes 4 record_version @ le_bytes 4 (64 :: u32) @ le_bytes 8 seq @
     le_bytes 8 version @ le_bytes 8 prev @ le_bytes 8 newtop @ le_bytes 8 logical @
     le_bytes 4 (of_nat n :: u32) @ le_bytes 4 (of_nat sz :: u32)"

definition enc_footer :: "u64 \<Rightarrow> nat \<Rightarrow> byte list" where
  "enc_footer seq sz = le_bytes 8 footer_magic @ le_bytes 8 seq @ le_bytes 4 (of_nat sz :: u32)"

definition enc_body :: "u64 \<Rightarrow> u64 \<Rightarrow> u64 \<Rightarrow> u64 \<Rightarrow> u64 \<Rightarrow> written_array list \<Rightarrow> byte list" where
  "enc_body seq prev version newtop logical arrays =
     (let sz = 88 + 16 * length arrays
      in enc_header seq prev version newtop logical (length arrays) sz @
         concat (map enc_array arrays) @ enc_footer seq sz)"

definition enc_record :: "u64 \<Rightarrow> u64 \<Rightarrow> u64 \<Rightarrow> u64 \<Rightarrow> u64 \<Rightarrow> written_array list \<Rightarrow> byte list" where
  "enc_record seq prev version newtop logical arrays =
     (let body = enc_body seq prev version newtop logical arrays in body @ le_bytes 4 (crc_compute body))"

lemma length_enc_array [simp]: "length (enc_array a) = 16"
  by (simp add: enc_array_def)

lemma length_enc_header [simp]: "length (enc_header seq prev version newtop logical n sz) = 64"
  by (simp add: enc_header_def)

lemma length_enc_footer [simp]: "length (enc_footer seq sz) = 20"
  by (simp add: enc_footer_def)

lemma length_enc_arrays [simp]: "length (concat (map enc_array arrays)) = 16 * length arrays"
  by (induction arrays) simp_all

lemma length_enc_body [simp]: "length (enc_body seq prev version newtop logical arrays) = 84 + 16 * length arrays"
  by (simp add: enc_body_def Let_def)

lemma length_enc_record [simp]: "length (enc_record seq prev version newtop logical arrays) = 88 + 16 * length arrays"
  by (simp add: enc_record_def Let_def)

lemma required_size_eq: "n < 2 ^ 58 \<Longrightarrow> required_size n = 88 + 16 * n"
proof -
  assume n: "n < 2 ^ 58"
  have "8 dvd 88 + 16 * n" by (auto intro!: dvd_add)
  with n show ?thesis
    unfolding required_size_def fixed_header_size_def entry_size_def footer_size_def
    using aligned_id [of "88 + 16 * n"] by (simp add: mult.commute)
qed

lemma put_array_zeros:
  "16 \<le> n \<Longrightarrow> put_array a (p @ replicate n 0, length p) =
     ((p @ enc_array a) @ replicate (n - 16) 0, length (p @ enc_array a))"
  unfolding put_array_def Let_def prod.case
  by (subst put_u64_zeros, simp, simp, subst put_u32_zeros, simp, simp, subst put_u32_zeros, simp, simp)
    (simp add: enc_array_def entry_size_def)

lemma fold_put_array_zeros:
  "16 * length arrays \<le> n \<Longrightarrow> fold put_array arrays (p @ replicate n 0, length p) =
     ((p @ concat (map enc_array arrays)) @ replicate (n - 16 * length arrays) 0,
      length p + 16 * length arrays)"
proof (induction arrays arbitrary: p n)
  case (Cons a arrays)
  have "16 \<le> n" "16 * length arrays \<le> n - 16" using Cons.prems by simp_all
  then show ?case
    using Cons.IH [of "n - 16" "p @ enc_array a"] by (simp add: put_array_zeros diff_diff_eq)
qed simp

lemma put_zeros_start: "8 \<le> n \<Longrightarrow> put_u64 (replicate n 0) 0 v = le_bytes 8 v @ replicate (n - 8) 0"
  using put_u64_zeros [of 0 "[]" n v] by simp

lemma build_record_eq:
  assumes "length arrays < 2 ^ 58"
  shows "build_record seq prev version newtop logical arrays =
    enc_record (seq + 1) prev version newtop logical arrays"
proof -
  define n where "n = length arrays"
  define r1 where "r1 = put_u32 (put_u32 (put_u64 (put_u64 (put_u64 (put_u64 (put_u64 (put_u32
    (put_u32 (put_u64 (replicate (88 + 16 * n) 0) 0 header_magic) 8 record_version) 12
    (of_nat fixed_header_size)) 16 (seq + 1)) 24 version) 32 prev) 40 newtop) 48 logical) 56 (of_nat n)) 60
    (of_nat (88 + 16 * n))"
  have r1: "r1 = enc_header (seq + 1) prev version newtop logical n (88 + 16 * n) @ replicate (24 + 16 * n) 0"
    unfolding r1_def fixed_header_size_def
    by (simp add: put_zeros_start put_u32_zeros put_u64_zeros del: append_assoc) (simp add: enc_header_def)
  define r2 where "r2 = fst (fold put_array arrays (r1, fixed_header_size))"
  have r2: "r2 = (enc_header (seq + 1) prev version newtop logical n (88 + 16 * n) @
      concat (map enc_array arrays)) @ replicate 24 0"
    using fold_put_array_zeros [of arrays "24 + 16 * n"
        "enc_header (seq + 1) prev version newtop logical n (88 + 16 * n)"]
    by (simp add: r2_def r1 n_def fixed_header_size_def del: append_assoc)
  define r3 where "r3 = put_u32 (put_u64 (put_u64 r2 (64 + 16 * n) footer_magic) (72 + 16 * n) (seq + 1))
      (80 + 16 * n) (of_nat (88 + 16 * n))"
  have r3: "r3 = enc_body (seq + 1) prev version newtop logical arrays @ replicate 4 0"
    unfolding r3_def r2
    by (simp add: put_u32_zeros put_u64_zeros n_def del: append_assoc)
      (simp add: enc_body_def enc_footer_def n_def Let_def)
  have "build_record seq prev version newtop logical arrays =
      put_u32 r3 (84 + 16 * n) (crc_compute (take (84 + 16 * n) r3))"
    using required_size_eq [OF assms]
    unfolding build_record_def Let_def r3_def r2_def r1_def
    by (simp add: footer_size_def n_def)
  also have "\<dots> = enc_record (seq + 1) prev version newtop logical arrays"
    unfolding r3 by (simp add: put_u32_zeros n_def enc_record_def Let_def del: append_assoc)
  finally show ?thesis .
qed

subsection \<open>Opening at the checkpoint\<close>

definition journal_descriptor :: "mem \<Rightarrow> nat \<Rightarrow> nat" where
  "journal_descriptor m top_ref =
     array_get_as_ref m (init_from_ref m (get_history_ref m top_ref)) registry_journal_slot"

definition checkpoint_span :: "mem \<Rightarrow> nat \<Rightarrow> nat set" where
  "checkpoint_span m top_ref =
     node_span m top_ref \<union> node_span m (get_history_ref m top_ref) \<union> node_span m (journal_descriptor m top_ref)"

lemma open_at_checkpoint_cong:
  assumes same: "\<And>a. a \<in> checkpoint_span m top_ref \<Longrightarrow> m' a = m a"
    and hist: "get_size_from_header m top_ref > s_hist_version_ndx"
  shows "open_at_checkpoint m' top_ref = open_at_checkpoint m top_ref"
proof -
  let ?reg = "get_history_ref m top_ref" and ?des = "journal_descriptor m top_ref"
  have s1: "m' a = m a" if "a \<in> node_span m top_ref" for a using same that by (simp add: checkpoint_span_def)
  have s2: "m' a = m a" if "a \<in> node_span m ?reg" for a using same that by (simp add: checkpoint_span_def)
  have s3: "m' a = m a" if "a \<in> node_span m ?des" for a using same that by (simp add: checkpoint_span_def)
  have top_eqs: "get_history_ref m' top_ref = get_history_ref m top_ref"
    "get_version m' top_ref = get_version m top_ref"
    "get_logical_file_size m' top_ref = get_logical_file_size m top_ref"
    by (rule get_history_ref_cong [OF _ hist], erule s1)
      (rule get_version_cong, erule s1, rule get_logical_file_size_cong, erule s1)
  have reg: "init_from_ref m' ?reg = init_from_ref m ?reg" by (rule init_from_ref_cong) (rule s2)
  have slot: "array_get_as_ref m' (init_from_ref m ?reg) registry_journal_slot = ?des"
    if "registry_journal_slot < get_size_from_header m ?reg"
    using array_get_cong [of m ?reg m', OF s2 that] by (simp add: array_get_as_ref_def journal_descriptor_def)
  have des: "init_from_ref m' ?des = init_from_ref m ?des" by (rule init_from_ref_cong) (rule s3)
  have chunks: "map (array_get_as_ref m' (init_from_ref m ?des)) [0..<chunk_count] =
      map (array_get_as_ref m (init_from_ref m ?des)) [0..<chunk_count]"
    if "get_size_from_header m ?des = chunk_count"
    using that array_get_cong [of m ?des m', OF s3] by (simp add: array_get_as_ref_def)
  have old: "array_get_as_ref m (init_from_ref m ?reg) registry_journal_slot = ?des"
    by (simp add: journal_descriptor_def)
  show ?thesis
  proof (cases "registry_journal_slot < get_size_from_header m ?reg")
    case True
    show ?thesis
    proof (cases "get_size_from_header m ?des = chunk_count")
      case n: True
      show ?thesis
        unfolding open_at_checkpoint_def Let_def top_eqs reg slot [OF True] old des chunks [OF n] ..
    next
      case False
      then show ?thesis
        unfolding open_at_checkpoint_def Let_def top_eqs reg slot [OF True] old des by simp
    qed
  next
    case False
    then show ?thesis unfolding open_at_checkpoint_def Let_def top_eqs reg by simp
  qed
qed

subsection \<open>Appending a record\<close>

lemma prepare_append_ok:
  assumes "chunks_ok (m_chunks j)" "length arrays < 2 ^ 58"
    and "m_tail j + (88 + 16 * length arrays) \<le> capacity"
  obtains m' where "prepare_append False j version newtop logical arrays m =
      (Inr \<lparr>pa_next_offset = m_tail j + (88 + 16 * length arrays), pa_record_offset = m_tail j,
            pa_sequence = m_sequence j + 1, pa_version = version,
            pa_cow_bytes = sum_list (map (\<lambda>a. unat (wa_size a)) arrays)\<rparr>, m')"
    and "\<And>i. i < capacity \<Longrightarrow> jview (m_chunks j) m' i =
      write_mem (jview (m_chunks j) m) (m_tail j)
        (enc_record (m_sequence j + 1) (m_previous_offset j) version newtop logical arrays) i"
    and "\<And>a. a \<notin> jaddr (m_chunks j) ` {..<capacity} \<Longrightarrow> m' a = m a"
proof -
  let ?rec = "enc_record (m_sequence j + 1) (m_previous_offset j) version newtop logical arrays"
  have fit: "m_tail j + length ?rec \<le> capacity" using assms(3) by simp
  obtain m' where m': "write_bytes (m_chunks j) (m_tail j) ?rec m = (Inr (), m')"
      "\<And>i. i < capacity \<Longrightarrow> jview (m_chunks j) m' i = write_mem (jview (m_chunks j) m) (m_tail j) ?rec i"
      "\<And>a. a \<notin> jaddr (m_chunks j) ` {m_tail j..<m_tail j + length ?rec} \<Longrightarrow> m' a = m a"
    by (rule jview_write_bytes [OF assms(1) fit, of m]) blast
  show ?thesis
  proof (rule that)
    show "prepare_append False j version newtop logical arrays m =
      (Inr \<lparr>pa_next_offset = m_tail j + (88 + 16 * length arrays), pa_record_offset = m_tail j,
            pa_sequence = m_sequence j + 1, pa_version = version,
            pa_cow_bytes = sum_list (map (\<lambda>a. unat (wa_size a)) arrays)\<rparr>, m')"
      using assms(3) m'(1)
      by (simp add: prepare_append_def Let_def required_size_eq [OF assms(2)] build_record_eq [OF assms(2)])
    fix a assume a: "a \<notin> jaddr (m_chunks j) ` {..<capacity}"
    have "jaddr (m_chunks j) ` {m_tail j..<m_tail j + length ?rec} \<subseteq> jaddr (m_chunks j) ` {..<capacity}"
      using fit by (intro image_mono) auto
    with a show "m' a = m a" by (intro m'(3)) blast
  qed (rule m'(2))
qed

lemma prepare_append_full:
  assumes "length arrays < 2 ^ 58" "m_tail j + (88 + 16 * length arrays) > capacity"
  shows "prepare_append fail j version newtop logical arrays m =
    (Inl (LengthError ''commit journal is full; checkpoint required''), m)"
  using assms by (simp add: prepare_append_def Let_def required_size_eq)

end
