(* ===== verification/Commit_Recovery.thy ===== *)
theory Commit_Recovery
  imports Commit_Journal
begin

text \<open>
  Crash recovery, \<^verbatim>\<open>src/llbt/core/commit_recovery.cpp\<close>, and
  \<^verbatim>\<open>CommitJournal::open\<close>, which runs it. \<open>scan\<close> walks the records from offset 0 and
  returns the newest snapshot whose record and arrays are intact. A record that is torn ends the
  walk; a record that is whole but does not continue the chain is an error.
\<close>

subsection \<open>The code\<close>

function read_bytes :: "mem \<Rightarrow> nat list \<Rightarrow> nat \<Rightarrow> nat \<Rightarrow> byte list result" where
  "read_bytes m chunks offset n =
     (if n = 0 then Inr []
      else let chunk_index = offset div chunk_size;
               in_chunk = offset mod chunk_size;
               count = min n (chunk_size - in_chunk)
      in if chunk_index < length chunks
         then let source = chunks ! chunk_index + header_size + in_chunk
              in bind_result (read_bytes m chunks (offset + count) (n - count)) (\<lambda>rest.
                Inr (read_mem m source count @ rest))
         else Inl (OutOfRange ''vector::at''))"
  by auto
termination
  by (relation "measure (\<lambda>(_, _, _, n). n)") (auto simp: chunk_size_def)

declare read_bytes.simps [simp del]

record recovery =
  r_top_ref :: u64
  r_version :: u64
  r_logical_size :: u64
  r_tail :: nat
  r_previous_offset :: u64
  r_sequence :: u64
  r_commits :: nat
  r_cow_bytes :: nat

text \<open>
  The loop over the arrays of a record, \<open>n\<close> of them from \<open>cursor\<close> on: whether they are all
  valid, and the bytes counted so far. The sum of ref and size is taken in 64 bits.
\<close>

fun scan_arrays :: "mem \<Rightarrow> nat \<Rightarrow> byte list \<Rightarrow> nat \<Rightarrow> nat \<Rightarrow> nat \<Rightarrow> bool \<times> nat" where
  "scan_arrays m file_size record cursor 0 cow = (True, cow)"
| "scan_arrays m file_size record cursor (Suc n) cow =
     (let ref = get_u64 record cursor;
          sz = get_u32 record (cursor + 8);
          checksum = get_u32 record (cursor + 12)
      in if unat sz < header_size \<or> unat (ref + ucast sz) > file_size then (False, cow)
         else let node = unat ref;
                  stored = (le_word (read_mem m node 4) :: u32)
              in if stored \<noteq> checksum \<or> crc_compute (read_mem m (node + 4) (unat sz - 4)) \<noteq> checksum
                 then (False, cow)
                 else scan_arrays m file_size record (cursor + entry_size) n (cow + unat sz))"

text \<open>
  One turn of the loop of \<^verbatim>\<open>scan\<close>. The state is the result so far with the loop's
  offset, previous offset, sequence and count of relevant commits in the fields they end up
  in. \<open>Break\<close> leaves the loop.
\<close>

datatype scan_turn = Break recovery | Continue recovery

definition scan_turn_at :: "mem \<Rightarrow> nat list \<Rightarrow> nat \<Rightarrow> u64 \<Rightarrow> recovery \<Rightarrow> scan_turn result" where
  "scan_turn_at m chunks file_size checkpoint_version r =
     (let offset = r_tail r
      in bind_result (read_bytes m chunks offset fixed_header_size) (\<lambda>fixed.
        if get_u64 fixed 0 \<noteq> header_magic then Inr (Break r)
        else if get_u32 fixed 8 \<noteq> record_version \<or> unat (get_u32 fixed 12) \<noteq> fixed_header_size
        then Inl (InvalidDatabase ''bad commit journal record header'')
        else let next_sequence = get_u64 fixed 16;
                 version = get_u64 fixed 24;
                 previous_field = get_u64 fixed 32;
                 new_top = get_u64 fixed 40;
                 logical_size = get_u64 fixed 48;
                 arrays = unat (get_u32 fixed 56);
                 record_size = unat (get_u32 fixed 60);
                 minimum = fixed_header_size + arrays * entry_size + footer_size
        in if record_size < minimum \<or> record_size mod 8 \<noteq> 0 \<or> offset + record_size > capacity
        then Inr (Break r)
        else bind_result (read_bytes m chunks offset record_size) (\<lambda>record.
          let footer = record_size - footer_size
          in if get_u64 record footer \<noteq> footer_magic \<or> get_u64 record (footer + 8) \<noteq> next_sequence \<or>
                unat (get_u32 record (footer + 16)) \<noteq> record_size
          then Inr (Break r)
          else if get_u32 record (footer + 20) \<noteq> crc_compute (take (footer + 20) record)
          then Inr (Break r)
          else if next_sequence \<noteq> r_sequence r + 1 \<or>
                  previous_field \<noteq> (if r_previous_offset r = - 1 then - 1 else r_previous_offset r)
          then Inl (InvalidDatabase ''bad commit journal record chain'')
          else let (arrays_valid, cow) =
                     scan_arrays m file_size record fixed_header_size
                       (if version > checkpoint_version then arrays else 0) (r_cow_bytes r);
                   r = r\<lparr>r_cow_bytes := cow\<rparr>
          in if \<not> arrays_valid
             then if offset + record_size + 8 \<le> capacity
                  then bind_result (read_bytes m chunks (offset + record_size) 8) (\<lambda>next_magic.
                    if get_u64 next_magic 0 = header_magic
                    then Inl (InvalidDatabase ''corruption inside commit journal chain'')
                    else Inr (Break r))
                  else Inr (Break r)
             else let r = (if version > r_version r
                           then r\<lparr>r_top_ref := new_top, r_version := version, r_logical_size := logical_size\<rparr>
                           else r);
                      r = (if version > checkpoint_version then r\<lparr>r_commits := r_commits r + 1\<rparr> else r)
                  in Inr (Continue (r\<lparr>r_previous_offset := of_nat offset, r_sequence := next_sequence,
                                      r_tail := offset + record_size\<rparr>)))))"

lemma scan_turn_advances:
  "scan_turn_at m chunks fs cv r = Inr (Continue r') \<Longrightarrow> r_tail r < r_tail r' \<and> r_tail r' \<le> capacity"
  by (auto simp: scan_turn_at_def bind_result_eq_Inr Let_def fixed_header_size_def footer_size_def entry_size_def
      split: if_splits prod.splits)

function scan_loop :: "mem \<Rightarrow> nat list \<Rightarrow> nat \<Rightarrow> u64 \<Rightarrow> recovery \<Rightarrow> recovery result" where
  "scan_loop m chunks file_size checkpoint_version r =
     (if r_tail r + fixed_header_size + footer_size \<le> capacity
      then case scan_turn_at m chunks file_size checkpoint_version r of
             Inl e \<Rightarrow> Inl e
           | Inr (Break r') \<Rightarrow> Inr r'
           | Inr (Continue r') \<Rightarrow> scan_loop m chunks file_size checkpoint_version r'
      else Inr r)"
  by auto
termination
  by (relation "measure (\<lambda>(_, _, _, _, r). capacity - r_tail r)")
    (auto dest!: scan_turn_advances simp: fixed_header_size_def footer_size_def)

declare scan_loop.simps [simp del]

definition scan :: "mem \<Rightarrow> nat list \<Rightarrow> nat \<Rightarrow> nat \<Rightarrow> recovery result" where
  "scan m chunks file_size checkpoint_top =
     (let checkpoint_version = of_nat (get_version m checkpoint_top)
      in scan_loop m chunks file_size checkpoint_version
        \<lparr>r_top_ref = of_nat checkpoint_top, r_version = checkpoint_version,
         r_logical_size = of_nat (get_logical_file_size m checkpoint_top), r_tail = 0,
         r_previous_offset = - 1, r_sequence = 0, r_commits = 0, r_cow_bytes = 0\<rparr>)"

definition open_journal :: "mem \<Rightarrow> nat \<Rightarrow> nat \<Rightarrow> (commit_journal \<times> recovery) option result" where
  "open_journal m file_size group_top_ref =
     bind_result (open_at_checkpoint m group_top_ref) (\<lambda>journal.
       case journal of
         None \<Rightarrow> Inr None
       | Some j \<Rightarrow> bind_result (scan m (m_chunks j) file_size group_top_ref) (\<lambda>found.
           Inr (Some (j\<lparr>m_tail := r_tail found, m_previous_offset := r_previous_offset found,
                        m_sequence := r_sequence found, m_commits_since_checkpoint := r_commits found,
                        m_cow_bytes_since_checkpoint := r_cow_bytes found\<rparr>, found))))"

subsection \<open>Reading through the chunks\<close>

lemma read_bytes_view:
  assumes "length chunks = chunk_count" "off + n \<le> capacity"
  shows "read_bytes m chunks off n = Inr (read_mem (jview chunks m) off n)"
  using assms
proof (induction m chunks off n rule: read_bytes.induct)
  case (1 m chunks off n)
  show ?case
  proof (cases "n = 0")
    case True
    then show ?thesis by (simp add: read_bytes.simps)
  next
    case False
    define count where "count = min n (chunk_size - off mod chunk_size)"
    have "off < capacity" using False "1.prems"(2) by linarith
    then have idx: "off div chunk_size < length chunks"
      using "1.prems"(1) off_div_lt [of off] by simp
    have md: "off mod chunk_size < chunk_size" by simp
    have count: "count \<le> n" "off mod chunk_size + count \<le> chunk_size"
      using md unfolding count_def by linarith+
    have "read_mem m (jaddr chunks off) count = read_mem (jview chunks m) off count"
    proof (rule nth_equalityI)
      fix i assume "i < length (read_mem m (jaddr chunks off) count)"
      then have "i < count" by simp
      moreover from this have "jaddr chunks (off + i) = jaddr chunks off + i"
        using count(2) by (intro jaddr_add) linarith
      ultimately show "read_mem m (jaddr chunks off) count ! i = read_mem (jview chunks m) off count ! i"
        by (simp add: jview_def)
    qed simp
    moreover have "read_bytes m chunks (off + count) (n - count) =
        Inr (read_mem (jview chunks m) (off + count) (n - count))"
      using "1.IH" [OF False refl refl refl idx] "1.prems" count(1) unfolding count_def by simp
    moreover have "read_bytes m chunks off n =
        bind_result (read_bytes m chunks (off + count) (n - count)) (\<lambda>rest.
          Inr (read_mem m (jaddr chunks off) count @ rest))"
      using False idx by (subst read_bytes.simps) (simp add: Let_def count_def jaddr_def)
    ultimately show ?thesis
      using read_mem_append [of "jview chunks m" off count "n - count"] count(1) by simp
  qed
qed

subsection \<open>The journal as a list of records\<close>

record jrec =
  jr_version :: u64
  jr_top :: u64
  jr_logical :: u64
  jr_arrays :: "written_array list"

definition rec_size :: "jrec \<Rightarrow> nat" where
  "rec_size r = 88 + 16 * length (jr_arrays r)"

definition rec_bytes :: "u64 \<Rightarrow> u64 \<Rightarrow> jrec \<Rightarrow> byte list" where
  "rec_bytes seq prev r = enc_record seq prev (jr_version r) (jr_top r) (jr_logical r) (jr_arrays r)"

lemma length_rec_bytes [simp]: "length (rec_bytes seq prev r) = rec_size r"
  by (simp add: rec_bytes_def rec_size_def)

text \<open>\<open>stored v off prev seq rs\<close>: the view holds the records \<open>rs\<close> one after the other from \<open>off\<close> on.\<close>

fun stored :: "mem \<Rightarrow> nat \<Rightarrow> u64 \<Rightarrow> u64 \<Rightarrow> jrec list \<Rightarrow> bool" where
  "stored v off prev seq [] = True"
| "stored v off prev seq (r # rs) =
     (read_mem v off (rec_size r) = rec_bytes (seq + 1) prev r \<and>
      stored v (off + rec_size r) (of_nat off) (seq + 1) rs)"

definition log_size :: "jrec list \<Rightarrow> nat" where
  "log_size rs = sum_list (map rec_size rs)"

definition array_ok :: "mem \<Rightarrow> nat \<Rightarrow> written_array \<Rightarrow> bool" where
  "array_ok m file_size a \<longleftrightarrow>
     8 \<le> unat (wa_size a) \<and> unat (wa_ref a + ucast (wa_size a)) \<le> file_size \<and>
     (le_word (read_mem m (unat (wa_ref a)) 4) :: u32) = wa_checksum a \<and>
     crc_compute (read_mem m (unat (wa_ref a) + 4) (unat (wa_size a) - 4)) = wa_checksum a"

definition cow_sum :: "written_array list \<Rightarrow> nat" where
  "cow_sum arrays = sum_list (map (\<lambda>a. unat (wa_size a)) arrays)"

text \<open>The effect of one intact record on the state of the scan.\<close>

definition replay :: "u64 \<Rightarrow> jrec \<Rightarrow> recovery \<Rightarrow> recovery" where
  "replay cv r st =
     st\<lparr>r_top_ref := (if jr_version r > r_version st then jr_top r else r_top_ref st),
        r_version := (if jr_version r > r_version st then jr_version r else r_version st),
        r_logical_size := (if jr_version r > r_version st then jr_logical r else r_logical_size st),
        r_tail := r_tail st + rec_size r,
        r_previous_offset := of_nat (r_tail st),
        r_sequence := r_sequence st + 1,
        r_commits := (if jr_version r > cv then r_commits st + 1 else r_commits st),
        r_cow_bytes := (if jr_version r > cv then r_cow_bytes st + cow_sum (jr_arrays r) else r_cow_bytes st)\<rparr>"

lemmas get_fields = get_u32_skip get_u64_skip get_u32_here get_u64_here

lemma scan_arrays_ok:
  assumes "record = pre @ concat (map enc_array arrays) @ post" "length pre = cursor"
  shows "scan_arrays m fs record cursor (length arrays) cow =
    (list_all (array_ok m fs) arrays,
     cow + cow_sum (takeWhile (array_ok m fs) arrays))"
  using assms
proof (induction arrays arbitrary: pre cursor cow)
  case (Cons a arrays)
  have rec: "record = (pre @ enc_array a) @ concat (map enc_array arrays) @ post"
    using Cons.prems by simp
  have fields: "get_u64 record cursor = wa_ref a" "get_u32 record (cursor + 8) = wa_size a"
    "get_u32 record (cursor + 12) = wa_checksum a"
    using Cons.prems by (simp_all add: enc_array_def get_fields)
  show ?case
    using Cons.IH [OF rec, of "cursor + 16"] Cons.prems(2)
    by (auto simp: fields array_ok_def header_size_def entry_size_def Let_def cow_sum_def not_less)
qed (simp add: cow_sum_def)

lemma capacity_eq: "capacity = 67108864"
  by (simp add: capacity_def chunk_size_def chunk_count_def)

lemma unat_u32: "k < 2 ^ 32 \<Longrightarrow> unat (of_nat k :: u32) = k"
  by (simp add: unat_of_nat)

lemma enc_header_fields:
  "get_u64 (enc_header seq prev version newtop logical n sz) 0 = header_magic"
  "get_u32 (enc_header seq prev version newtop logical n sz) 8 = record_version"
  "get_u32 (enc_header seq prev version newtop logical n sz) 12 = 64"
  "get_u64 (enc_header seq prev version newtop logical n sz) 16 = seq"
  "get_u64 (enc_header seq prev version newtop logical n sz) 24 = version"
  "get_u64 (enc_header seq prev version newtop logical n sz) 32 = prev"
  "get_u64 (enc_header seq prev version newtop logical n sz) 40 = newtop"
  "get_u64 (enc_header seq prev version newtop logical n sz) 48 = logical"
  "get_u32 (enc_header seq prev version newtop logical n sz) 56 = of_nat n"
  "get_u32 (enc_header seq prev version newtop logical n sz) 60 = of_nat sz"
  by (simp_all add: enc_header_def get_fields)

lemma rec_bytes_split:
  "rec_bytes seq prev r =
     enc_header seq prev (jr_version r) (jr_top r) (jr_logical r) (length (jr_arrays r)) (rec_size r) @
     concat (map enc_array (jr_arrays r)) @ enc_footer seq (rec_size r) @
     le_bytes 4 (crc_compute (take (rec_size r - 4) (rec_bytes seq prev r)))"
  by (simp add: rec_bytes_def enc_record_def enc_body_def rec_size_def Let_def)

lemma rec_footer_fields:
  assumes "footer = rec_size r - 24"
  shows "get_u64 (rec_bytes seq prev r) footer = footer_magic"
    "get_u64 (rec_bytes seq prev r) (footer + 8) = seq"
    "get_u32 (rec_bytes seq prev r) (footer + 16) = of_nat (rec_size r)"
    "get_u32 (rec_bytes seq prev r) (footer + 20) = crc_compute (take (footer + 20) (rec_bytes seq prev r))"
proof -
  have f: "footer = 64 + 16 * length (jr_arrays r)" "footer + 20 = rec_size r - 4"
    using assms by (simp_all add: rec_size_def)
  show "get_u64 (rec_bytes seq prev r) footer = footer_magic"
    "get_u64 (rec_bytes seq prev r) (footer + 8) = seq"
    "get_u32 (rec_bytes seq prev r) (footer + 16) = of_nat (rec_size r)"
    unfolding f(1) by (subst rec_bytes_split, simp add: enc_footer_def get_fields)+
  show "get_u32 (rec_bytes seq prev r) (footer + 20) = crc_compute (take (footer + 20) (rec_bytes seq prev r))"
    unfolding f by (subst rec_bytes_split) (simp add: enc_footer_def get_fields rec_size_def)
qed

lemma rec_small:
  assumes "rec_size r \<le> capacity"
  shows "unat (of_nat (rec_size r) :: u32) = rec_size r"
    "unat (of_nat (length (jr_arrays r)) :: u32) = length (jr_arrays r)"
proof -
  have "rec_size r < 2 ^ 32" "length (jr_arrays r) < 2 ^ 32"
    using assms by (simp_all add: capacity_eq rec_size_def)
  then show "unat (of_nat (rec_size r) :: u32) = rec_size r"
    "unat (of_nat (length (jr_arrays r)) :: u32) = length (jr_arrays r)"
    by (simp_all only: unat_u32)
qed

lemma fixed_of_record:
  assumes "read_mem v off (rec_size r) = rec_bytes seq prev r"
  shows "read_mem v off 64 =
    enc_header seq prev (jr_version r) (jr_top r) (jr_logical r) (length (jr_arrays r)) (rec_size r)"
proof -
  have "read_mem v off 64 = take 64 (read_mem v off (rec_size r))"
    by (simp add: take_read_mem rec_size_def)
  also have "\<dots> = take 64 (rec_bytes seq prev r)" by (simp only: assms)
  also have "\<dots> = enc_header seq prev (jr_version r) (jr_top r) (jr_logical r) (length (jr_arrays r)) (rec_size r)"
    by (subst rec_bytes_split) simp
  finally show ?thesis .
qed

lemma scan_arrays_record:
  "scan_arrays m fs (rec_bytes seq prev r) 64 (length (jr_arrays r)) cow =
    (list_all (array_ok m fs) (jr_arrays r), cow + cow_sum (takeWhile (array_ok m fs) (jr_arrays r)))"
  by (rule scan_arrays_ok [where pre = "enc_header seq prev (jr_version r) (jr_top r) (jr_logical r)
        (length (jr_arrays r)) (rec_size r)"]) (subst rec_bytes_split, simp_all)

text \<open>
  A whole record whose sequence number and back pointer continue the chain: the walk replays it
  when its arrays are intact, and otherwise ends, or fails if another record follows.
\<close>

lemma scan_turn_record:
  assumes len: "length chunks = chunk_count" and fit: "r_tail st + rec_size r \<le> capacity"
    and bytes: "read_mem (jview chunks m) (r_tail st) (rec_size r) = rec_bytes seq prev r"
  shows "scan_turn_at m chunks fs cv st =
    (if seq \<noteq> r_sequence st + 1 \<or> prev \<noteq> r_previous_offset st
     then Inl (InvalidDatabase ''bad commit journal record chain'')
     else if jr_version r \<le> cv \<or> list_all (array_ok m fs) (jr_arrays r)
     then Inr (Continue (replay cv r st))
     else if r_tail st + rec_size r + 8 \<le> capacity \<and>
             get_u64 (read_mem (jview chunks m) (r_tail st + rec_size r) 8) 0 = header_magic
     then Inl (InvalidDatabase ''corruption inside commit journal chain'')
     else Inr (Break (st\<lparr>r_cow_bytes := r_cow_bytes st +
             cow_sum (takeWhile (array_ok m fs) (jr_arrays r))\<rparr>)))"
proof -
  let ?v = "jview chunks m"
  define footer where "footer = rec_size r - 24"
  have sz: "64 \<le> rec_size r" "rec_size r mod 8 = 0" "88 + length (jr_arrays r) * 16 = rec_size r"
    by (simp_all add: rec_size_def mod_eq_0_iff_dvd)
  have "r_tail st + 64 \<le> capacity" "rec_size r \<le> capacity" using fit sz(1) by linarith+
  note small = rec_small [OF this(2)]
  note fixed = fixed_of_record [OF bytes]
  have rd: "read_bytes m chunks (r_tail st) 64 = Inr (read_mem ?v (r_tail st) 64)"
    "read_bytes m chunks (r_tail st) (rec_size r) = Inr (rec_bytes seq prev r)"
    using read_bytes_view [OF len \<open>r_tail st + 64 \<le> capacity\<close>] read_bytes_view [OF len fit] bytes by simp_all
  have next8: "r_tail st + rec_size r + 8 \<le> capacity \<Longrightarrow>
      read_bytes m chunks (r_tail st + rec_size r) 8 = Inr (read_mem ?v (r_tail st + rec_size r) 8)"
    by (rule read_bytes_view [OF len])
  note ff = rec_footer_fields [OF footer_def, of seq prev]
  have all: "takeWhile (array_ok m fs) (jr_arrays r) = jr_arrays r" if "list_all (array_ok m fs) (jr_arrays r)"
    using that by (simp add: list_all_iff)
  have chain: "(if r_previous_offset st = - 1 then - 1 else r_previous_offset st) = r_previous_offset st" by simp
  show ?thesis
    unfolding scan_turn_at_def Let_def fixed_header_size_def entry_size_def footer_size_def rd(1)
      bind_result_simps fixed enc_header_fields small footer_def [symmetric] rd(2) ff chain
    using fit sz
    by (auto simp: scan_arrays_record not_less next8 replay_def all not_le)
qed

subsection \<open>The walk over an intact journal\<close>

definition no_record :: "mem \<Rightarrow> nat \<Rightarrow> bool" where
  "no_record v off \<longleftrightarrow> off + 88 \<le> capacity \<longrightarrow> get_u64 (read_mem v off 64) 0 \<noteq> header_magic"

definition arrays_intact :: "mem \<Rightarrow> nat \<Rightarrow> u64 \<Rightarrow> jrec \<Rightarrow> bool" where
  "arrays_intact m fs cv r \<longleftrightarrow> jr_version r \<le> cv \<or> list_all (array_ok m fs) (jr_arrays r)"

lemma loop_bound: "off + fixed_header_size + footer_size \<le> capacity \<longleftrightarrow> off + 88 \<le> capacity"
  by (simp add: fixed_header_size_def footer_size_def add.commute)

lemma scan_loop_end:
  assumes "length chunks = chunk_count" "no_record (jview chunks m) (r_tail st)"
  shows "scan_loop m chunks fs cv st = Inr st"
proof (cases "r_tail st + 88 \<le> capacity")
  case True
  then have "read_bytes m chunks (r_tail st) 64 = Inr (read_mem (jview chunks m) (r_tail st) 64)"
    by (intro read_bytes_view assms) simp
  with True assms(2) show ?thesis
    by (subst scan_loop.simps) (simp add: loop_bound scan_turn_at_def fixed_header_size_def no_record_def)
next
  case False
  then show ?thesis by (subst scan_loop.simps) (simp add: loop_bound del: add_le_imp_le_right)
qed

lemma replay_tail [simp]:
  "r_tail (replay cv r st) = r_tail st + rec_size r"
  "r_previous_offset (replay cv r st) = of_nat (r_tail st)"
  "r_sequence (replay cv r st) = r_sequence st + 1"
  by (simp_all add: replay_def)

lemma rec_size_ge: "88 \<le> rec_size r"
  by (simp add: rec_size_def)

lemma scan_loop_record:
  assumes "length chunks = chunk_count" "r_tail st + rec_size r \<le> capacity"
    and "read_mem (jview chunks m) (r_tail st) (rec_size r) =
      rec_bytes (r_sequence st + 1) (r_previous_offset st) r"
    and "arrays_intact m fs cv r"
  shows "scan_loop m chunks fs cv st = scan_loop m chunks fs cv (replay cv r st)"
proof -
  have "r_tail st + 88 \<le> capacity" using assms(2) rec_size_ge [of r] by linarith
  then show ?thesis
    using scan_turn_record [OF assms(1-3), of fs cv] assms(4)
    by (subst scan_loop.simps) (simp add: loop_bound arrays_intact_def)
qed

lemma scan_loop_log:
  assumes "length chunks = chunk_count"
    and "stored (jview chunks m) (r_tail st) (r_previous_offset st) (r_sequence st) rs"
    and "r_tail st + log_size rs \<le> capacity" "list_all (arrays_intact m fs cv) rs"
  shows "scan_loop m chunks fs cv st = scan_loop m chunks fs cv (fold (replay cv) rs st)"
  using assms(2-)
proof (induction rs arbitrary: st)
  case (Cons r rs)
  have "r_tail st + rec_size r \<le> capacity" using Cons.prems(2) by (simp add: log_size_def)
  then have "scan_loop m chunks fs cv st = scan_loop m chunks fs cv (replay cv r st)"
    using Cons.prems by (intro scan_loop_record assms(1)) auto
  also have "\<dots> = scan_loop m chunks fs cv (fold (replay cv) rs (replay cv r st))"
    using Cons.prems by (intro Cons.IH) (auto simp: log_size_def add.assoc)
  finally show ?case by simp
qed simp

lemma fold_replay_tail: "r_tail (fold (replay cv) rs st) = r_tail st + log_size rs"
  by (induction rs arbitrary: st) (simp_all add: log_size_def)

lemma fold_replay_sequence: "r_sequence (fold (replay cv) rs st) = r_sequence st + of_nat (length rs)"
  by (induction rs arbitrary: st) (simp_all add: algebra_simps)

subsection \<open>The journal in memory and on disk\<close>

lemma stored_snoc:
  "stored v (r_tail st) (r_previous_offset st) (r_sequence st) (rs @ [r]) \<longleftrightarrow>
     stored v (r_tail st) (r_previous_offset st) (r_sequence st) rs \<and>
     read_mem v (r_tail (fold (replay cv) rs st)) (rec_size r) =
       rec_bytes (r_sequence (fold (replay cv) rs st) + 1) (r_previous_offset (fold (replay cv) rs st)) r"
proof (induction rs arbitrary: st)
  case (Cons r' rs)
  show ?case using Cons.IH [of "replay cv r' st"] by simp
qed simp

lemma stored_cong:
  "(\<And>i. off \<le> i \<Longrightarrow> i < off + log_size rs \<Longrightarrow> v' i = v i) \<Longrightarrow> stored v' off prev seq rs = stored v off prev seq rs"
proof (induction rs arbitrary: off prev seq)
  case (Cons r rs)
  have "read_mem v' off (rec_size r) = read_mem v off (rec_size r)"
    by (rule read_mem_cong) (auto intro!: Cons.prems simp: log_size_def)
  moreover have "stored v' (off + rec_size r) (of_nat off) (seq + 1) rs = stored v (off + rec_size r) (of_nat off) (seq + 1) rs"
    by (rule Cons.IH) (auto intro!: Cons.prems simp: log_size_def)
  ultimately show ?case by simp
qed simp

definition outside_journal :: "nat list \<Rightarrow> nat set \<Rightarrow> bool" where
  "outside_journal chunks S \<longleftrightarrow> S \<inter> jaddr chunks ` {..<capacity} = {}"

definition array_safe :: "mem \<Rightarrow> nat \<Rightarrow> nat list \<Rightarrow> written_array \<Rightarrow> bool" where
  "array_safe m fs chunks a \<longleftrightarrow> array_ok m fs a \<and>
     outside_journal chunks {unat (wa_ref a)..<unat (wa_ref a) + unat (wa_size a)}"

lemma array_ok_cong:
  assumes "\<And>x. unat (wa_ref a) \<le> x \<Longrightarrow> x < unat (wa_ref a) + unat (wa_size a) \<Longrightarrow> m' x = m x"
  shows "array_ok m' fs a = array_ok m fs a"
proof (cases "8 \<le> unat (wa_size a)")
  case True
  then have "read_mem m' (unat (wa_ref a)) 4 = read_mem m (unat (wa_ref a)) 4"
    "read_mem m' (unat (wa_ref a) + 4) (unat (wa_size a) - 4) = read_mem m (unat (wa_ref a) + 4) (unat (wa_size a) - 4)"
    by (intro read_mem_cong assms; linarith)+
  then show ?thesis by (simp add: array_ok_def)
qed (simp add: array_ok_def)

lemma array_safe_frame:
  assumes "array_safe m fs chunks a" "\<And>x. x \<notin> jaddr chunks ` {..<capacity} \<Longrightarrow> m' x = m x"
  shows "array_safe m' fs chunks a"
proof -
  have "array_ok m' fs a = array_ok m fs a"
    by (rule array_ok_cong, rule assms(2)) (use assms(1) in \<open>force simp: array_safe_def outside_journal_def\<close>)
  with assms(1) show ?thesis by (simp add: array_safe_def)
qed

definition checkpoint_state :: "nat \<Rightarrow> nat \<Rightarrow> nat \<Rightarrow> recovery" where
  "checkpoint_state top_ref version logical_size =
     \<lparr>r_top_ref = of_nat top_ref, r_version = of_nat version, r_logical_size = of_nat logical_size, r_tail = 0,
      r_previous_offset = - 1, r_sequence = 0, r_commits = 0, r_cow_bytes = 0\<rparr>"

definition recovered :: "commit_journal \<Rightarrow> jrec list \<Rightarrow> recovery" where
  "recovered j rs = fold (replay (of_nat (m_checkpoint_version j))) rs
     (checkpoint_state (m_checkpoint_top_ref j) (m_checkpoint_version j) (m_checkpoint_logical_size j))"

text \<open>
  The relation between the memory, the in-memory journal and the records since the
  checkpoint: what recovery would compute from the records is what the journal object holds.
\<close>

definition journal_holds :: "mem \<Rightarrow> nat \<Rightarrow> commit_journal \<Rightarrow> jrec list \<Rightarrow> bool" where
  "journal_holds m fs j rs \<longleftrightarrow>
     chunks_ok (m_chunks j) \<and> stored (jview (m_chunks j) m) 0 (- 1) 0 rs \<and> log_size rs \<le> capacity \<and>
     list_all (\<lambda>r. list_all (array_safe m fs (m_chunks j)) (jr_arrays r)) rs \<and>
     m_tail j = r_tail (recovered j rs) \<and> m_sequence j = r_sequence (recovered j rs) \<and>
     m_previous_offset j = r_previous_offset (recovered j rs) \<and>
     m_commits_since_checkpoint j = r_commits (recovered j rs) \<and>
     m_cow_bytes_since_checkpoint j = r_cow_bytes (recovered j rs)"

definition zero_tail :: "mem \<Rightarrow> commit_journal \<Rightarrow> bool" where
  "zero_tail m j \<longleftrightarrow> (\<forall>i. m_tail j \<le> i \<and> i < capacity \<longrightarrow> jview (m_chunks j) m i = 0)"

text \<open>The bytes of a field that decodes to a given value.\<close>

lemma get_u64_bytes:
  assumes "get_u64 xs p = v" "p + 8 \<le> length xs"
  shows "segment p 8 xs = le_bytes 8 v"
proof -
  have "le_bytes 8 (le_word (segment p 8 xs) :: u64) = segment p 8 xs"
    using assms(2) by (intro le_bytes_le_word) (simp_all add: length_segment)
  then show ?thesis using assms by (simp add: get_u64_eq)
qed

lemma get_u32_bytes:
  assumes "get_u32 xs p = v" "p + 4 \<le> length xs"
  shows "segment p 4 xs = le_bytes 4 v"
proof -
  have "le_bytes 4 (le_word (segment p 4 xs) :: u32) = segment p 4 xs"
    using assms(2) by (intro le_bytes_le_word) (simp_all add: length_segment)
  then show ?thesis using assms by (simp add: get_u32_eq)
qed

lemma get_u64_byte: "get_u64 xs p = v \<Longrightarrow> p + 8 \<le> length xs \<Longrightarrow> i < 8 \<Longrightarrow> xs ! (p + i) = le_bytes 8 v ! i"
  using get_u64_bytes [of xs p v] nth_segment [of i 8 p xs] by simp

lemma magic_top_bytes: "le_bytes 8 header_magic ! 7 = 0x35" "le_bytes 8 footer_magic ! 7 = 0x52"
  by (simp_all add: header_magic_def footer_magic_def)

lemma no_record_zero:
  assumes "off + 88 \<le> capacity \<Longrightarrow> v (off + 7) = 0"
  shows "no_record v off"
  unfolding no_record_def
proof (intro impI notI)
  assume "off + 88 \<le> capacity" "get_u64 (read_mem v off 64) 0 = header_magic"
  with get_u64_byte [OF this(2), of 7] assms show False by (simp add: magic_top_bytes)
qed

lemma zero_tail_no_record: "zero_tail m j \<Longrightarrow> no_record (jview (m_chunks j) m) (m_tail j)"
  by (rule no_record_zero) (simp add: zero_tail_def)

lemma scan_eq:
  "scan m chunks fs top_ref =
     scan_loop m chunks fs (of_nat (get_version m top_ref))
       (checkpoint_state top_ref (get_version m top_ref) (get_logical_file_size m top_ref))"
  by (simp add: scan_def checkpoint_state_def Let_def)

lemma recovered_tail: "r_tail (recovered j rs) = log_size rs"
  by (simp add: recovered_def fold_replay_tail checkpoint_state_def)

lemma array_safe_intact:
  "list_all (\<lambda>r. list_all (array_safe m fs chunks) (jr_arrays r)) rs \<Longrightarrow> list_all (arrays_intact m fs cv) rs"
  by (auto simp: list_all_iff arrays_intact_def array_safe_def)

lemma scan_journal:
  assumes "journal_holds m fs j rs"
  shows "scan_loop m (m_chunks j) fs (of_nat (m_checkpoint_version j))
      (checkpoint_state (m_checkpoint_top_ref j) (m_checkpoint_version j) (m_checkpoint_logical_size j)) =
    scan_loop m (m_chunks j) fs (of_nat (m_checkpoint_version j)) (recovered j rs)"
  unfolding recovered_def
  using assms
  by (intro scan_loop_log) (auto simp: journal_holds_def chunks_ok_def checkpoint_state_def intro: array_safe_intact)

lemma scan_journal_end:
  assumes "journal_holds m fs j rs" "no_record (jview (m_chunks j) m) (m_tail j)"
  shows "scan_loop m (m_chunks j) fs (of_nat (m_checkpoint_version j))
      (checkpoint_state (m_checkpoint_top_ref j) (m_checkpoint_version j) (m_checkpoint_logical_size j)) =
    Inr (recovered j rs)"
  using scan_journal [OF assms(1)] assms
  by (simp add: scan_loop_end journal_holds_def chunks_ok_def)

text \<open>Appending a record keeps the relation, and keeps the rest of the journal zero.\<close>

lemma recovered_snoc: "recovered j (rs @ [r]) = replay (of_nat (m_checkpoint_version j)) r (recovered j rs)"
  by (simp add: recovered_def)

lemma recovered_commit_append [simp]: "recovered (commit_append p j) rs = recovered j rs"
  by (simp add: recovered_def commit_append_def)

definition append_pending :: "commit_journal \<Rightarrow> jrec \<Rightarrow> pending_append" where
  "append_pending j r =
     \<lparr>pa_next_offset = m_tail j + rec_size r, pa_record_offset = m_tail j, pa_sequence = m_sequence j + 1,
      pa_version = jr_version r, pa_cow_bytes = cow_sum (jr_arrays r)\<rparr>"

lemma append_holds:
  assumes holds: "journal_holds m fs j rs"
    and room: "m_tail j + rec_size r \<le> capacity"
    and newer: "of_nat (m_checkpoint_version j) < jr_version r"
    and safe: "list_all (array_safe m fs (m_chunks j)) (jr_arrays r)"
  obtains m' where "prepare_append False j (jr_version r) (jr_top r) (jr_logical r) (jr_arrays r) m =
      (Inr (append_pending j r), m')"
    and "journal_holds m' fs (commit_append (append_pending j r) j) (rs @ [r])"
    and "\<And>i. m_tail j + rec_size r \<le> i \<Longrightarrow> i < capacity \<Longrightarrow> jview (m_chunks j) m' i = jview (m_chunks j) m i"
    and "\<And>a. a \<notin> jaddr (m_chunks j) ` {..<capacity} \<Longrightarrow> m' a = m a"
proof -
  let ?c = "m_chunks j" and ?j = "commit_append (append_pending j r) j"
  let ?rec = "rec_bytes (m_sequence j + 1) (m_previous_offset j) r"
  have chunks: "chunks_ok ?c" and tail: "m_tail j = log_size rs"
    using holds by (simp_all add: journal_holds_def recovered_tail)
  have n: "length (jr_arrays r) < 2 ^ 58" and room': "m_tail j + (88 + 16 * length (jr_arrays r)) \<le> capacity"
    using room by (simp_all add: rec_size_def capacity_eq)
  obtain m' where prep: "prepare_append False j (jr_version r) (jr_top r) (jr_logical r) (jr_arrays r) m =
        (Inr (append_pending j r), m')"
      and view: "\<And>i. i < capacity \<Longrightarrow> jview ?c m' i = write_mem (jview ?c m) (m_tail j) ?rec i"
      and frame: "\<And>a. a \<notin> jaddr ?c ` {..<capacity} \<Longrightarrow> m' a = m a"
    by (rule prepare_append_ok [OF chunks n room', of "jr_version r" "jr_top r" "jr_logical r" m])
      (simp add: append_pending_def rec_size_def cow_sum_def rec_bytes_def)
  have below: "jview ?c m' i = jview ?c m i" if "i < m_tail j" for i
    using view [of i] that room by (simp add: write_mem_def)
  have above: "jview ?c m' i = jview ?c m i" if "m_tail j + rec_size r \<le> i" "i < capacity" for i
    using view [of i] that by (simp add: write_mem_def)
  have "read_mem (jview ?c m') (m_tail j) (rec_size r) =
      read_mem (write_mem (jview ?c m) (m_tail j) ?rec) (m_tail j) (rec_size r)"
    using room by (intro read_mem_cong view) linarith
  then have here: "read_mem (jview ?c m') (m_tail j) (rec_size r) = ?rec"
    by (simp add: read_write_mem_same)
  have "stored (jview ?c m') 0 (- 1) 0 rs"
    using holds stored_cong [of 0 rs "jview ?c m'" "jview ?c m"] below tail by (simp add: journal_holds_def)
  then have stored: "stored (jview ?c m') 0 (- 1) 0 (rs @ [r])"
    using stored_snoc [of "jview ?c m'" "checkpoint_state (m_checkpoint_top_ref j) (m_checkpoint_version j)
        (m_checkpoint_logical_size j)" rs r "of_nat (m_checkpoint_version j)"] here holds
    by (simp add: checkpoint_state_def recovered_def journal_holds_def)
  have "list_all (\<lambda>r. list_all (array_safe m' fs ?c) (jr_arrays r)) (rs @ [r])"
    using holds safe array_safe_frame [OF _ frame] unfolding journal_holds_def list_all_iff by auto
  then have "journal_holds m' fs ?j (rs @ [r])"
    using holds stored room newer tail unfolding journal_holds_def recovered_commit_append recovered_snoc
    by (simp add: commit_append_def append_pending_def replay_def log_size_def)
  then show ?thesis using prep above frame by (intro that)
qed

lemma append_zero_tail:
  assumes "zero_tail m j"
    and "\<And>i. m_tail j + rec_size r \<le> i \<Longrightarrow> i < capacity \<Longrightarrow> jview (m_chunks j) m' i = jview (m_chunks j) m i"
  shows "zero_tail m' (commit_append (append_pending j r) j)"
  using assms by (simp add: zero_tail_def commit_append_def append_pending_def)

subsection \<open>Reopening\<close>

definition at_checkpoint :: "commit_journal \<Rightarrow> commit_journal" where
  "at_checkpoint j = j\<lparr>m_tail := 0, m_commits_since_checkpoint := 0, m_cow_bytes_since_checkpoint := 0,
     m_sequence := 0, m_previous_offset := - 1\<rparr>"

text \<open>
  The journal object belongs to the checkpoint in memory: opening at the checkpoint yields it
  with no record replayed, and the nodes that opening reads are not part of the journal.
\<close>

definition attached :: "mem \<Rightarrow> commit_journal \<Rightarrow> bool" where
  "attached m j \<longleftrightarrow> open_at_checkpoint m (m_checkpoint_top_ref j) = Inr (Some (at_checkpoint j)) \<and>
     get_size_from_header m (m_checkpoint_top_ref j) > s_hist_version_ndx \<and>
     outside_journal (m_chunks j) (checkpoint_span m (m_checkpoint_top_ref j))"

lemma at_checkpoint_simps [simp]:
  "m_chunks (at_checkpoint j) = m_chunks j"
  "m_checkpoint_top_ref (at_checkpoint j) = m_checkpoint_top_ref j"
  "m_checkpoint_version (at_checkpoint j) = m_checkpoint_version j"
  "m_checkpoint_logical_size (at_checkpoint j) = m_checkpoint_logical_size j"
  by (simp_all add: at_checkpoint_def)

lemma open_at_checkpoint_reads:
  assumes "open_at_checkpoint m top_ref = Inr (Some j)"
  shows "m_checkpoint_version j = get_version m top_ref"
    "m_checkpoint_logical_size j = get_logical_file_size m top_ref"
    "m_checkpoint_top_ref j = top_ref" "length (m_chunks j) = chunk_count"
  using assms by (auto simp: open_at_checkpoint_def Let_def split: if_splits)

lemma attached_frame:
  assumes "attached m j" "\<And>a. a \<notin> jaddr (m_chunks j) ` {..<capacity} \<Longrightarrow> m' a = m a"
  shows "open_at_checkpoint m' (m_checkpoint_top_ref j) = Inr (Some (at_checkpoint j))"
proof -
  have "open_at_checkpoint m' (m_checkpoint_top_ref j) = open_at_checkpoint m (m_checkpoint_top_ref j)"
    by (rule open_at_checkpoint_cong, rule assms(2))
      (use assms(1) in \<open>auto simp: attached_def outside_journal_def\<close>)
  with assms(1) show ?thesis by (simp add: attached_def)
qed

text \<open>The journal object that \<^verbatim>\<open>open\<close> makes of a recovery result.\<close>

definition with_recovery :: "commit_journal \<Rightarrow> recovery \<Rightarrow> commit_journal" where
  "with_recovery j found = j\<lparr>m_tail := r_tail found, m_previous_offset := r_previous_offset found,
     m_sequence := r_sequence found, m_commits_since_checkpoint := r_commits found,
     m_cow_bytes_since_checkpoint := r_cow_bytes found\<rparr>"

lemma open_journal_eq:
  assumes "open_at_checkpoint m (m_checkpoint_top_ref j) = Inr (Some (at_checkpoint j))"
  shows "open_journal m fs (m_checkpoint_top_ref j) =
    bind_result (scan_loop m (m_chunks j) fs (of_nat (m_checkpoint_version j))
      (checkpoint_state (m_checkpoint_top_ref j) (m_checkpoint_version j) (m_checkpoint_logical_size j)))
      (\<lambda>found. Inr (Some (with_recovery j found, found)))"
  using open_at_checkpoint_reads [OF assms]
  by (simp add: open_journal_def assms scan_eq with_recovery_def at_checkpoint_def)

lemma with_recovery_holds: "journal_holds m fs j rs \<Longrightarrow> with_recovery j (recovered j rs) = j"
  by (simp add: with_recovery_def journal_holds_def)

lemma replay_version: "r_version st \<le> r_version (replay cv r st)"
  by (auto simp: replay_def)

lemma recovered_version: "of_nat (m_checkpoint_version j) \<le> r_version (recovered j rs)"
proof -
  have mono: "r_version st \<le> r_version (fold (replay cv) rs st)" for st cv
    by (induction rs arbitrary: st) (auto intro: order_trans replay_version)
  show ?thesis
    using mono [of "checkpoint_state (m_checkpoint_top_ref j) (m_checkpoint_version j) (m_checkpoint_logical_size j)"
        "of_nat (m_checkpoint_version j)"]
    by (simp add: recovered_def checkpoint_state_def)
qed

lemma reopen:
  assumes "open_at_checkpoint m (m_checkpoint_top_ref j) = Inr (Some (at_checkpoint j))"
    and "journal_holds m fs j rs" "no_record (jview (m_chunks j) m) (m_tail j)"
  shows "open_journal m fs (m_checkpoint_top_ref j) = Inr (Some (j, recovered j rs))"
  using open_journal_eq [OF assms(1)] scan_journal_end [OF assms(2,3)] with_recovery_holds [OF assms(2)] by simp

lemma commit_append_fields [simp]:
  "m_chunks (commit_append p j) = m_chunks j"
  "m_checkpoint_top_ref (commit_append p j) = m_checkpoint_top_ref j"
  "at_checkpoint (commit_append p j) = at_checkpoint j"
  by (simp_all add: commit_append_def at_checkpoint_def)

subsection \<open>Torn records\<close>

text \<open>
  \<open>torn v off k bs\<close>: the first \<open>k\<close> bytes of \<open>bs\<close> are in the journal at \<open>off\<close> and everything
  after them is zero.
\<close>

definition torn :: "mem \<Rightarrow> nat \<Rightarrow> nat \<Rightarrow> byte list \<Rightarrow> bool" where
  "torn v off k bs \<longleftrightarrow> (\<forall>i<capacity. off \<le> i \<longrightarrow> v i = (if i < off + k then bs ! (i - off) else 0))"

lemma torn_nth:
  assumes "torn v off k bs" "off + n \<le> capacity" "i < n"
  shows "read_mem v off n ! i = (if i < k then bs ! i else 0)"
  using assms by (simp add: torn_def)

lemma header_bytes:
  "i < 8 \<Longrightarrow> rec_bytes seq prev r ! i = le_bytes 8 header_magic ! i"
  "i < 4 \<Longrightarrow> rec_bytes seq prev r ! (8 + i) = le_bytes 4 record_version ! i"
  "i < 4 \<Longrightarrow> rec_bytes seq prev r ! (12 + i) = le_bytes 4 (64 :: u32) ! i"
  by (subst rec_bytes_split, simp add: enc_header_def nth_append del: nth_le_bytes)+

lemma get_u64_from_nth:
  assumes "p + 8 \<le> length xs" "\<And>i. i < 8 \<Longrightarrow> xs ! (p + i) = le_bytes 8 v ! i"
  shows "get_u64 xs p = v"
proof -
  have "segment p 8 xs = le_bytes 8 v"
    using assms by (intro nth_equalityI) (simp_all add: length_segment nth_segment del: nth_le_bytes)
  then show ?thesis using assms(1) by (simp add: get_u64_eq le_word_le_bytes)
qed

lemma get_u32_from_nth:
  assumes "p + 4 \<le> length xs" "\<And>i. i < 4 \<Longrightarrow> xs ! (p + i) = le_bytes 4 v ! i"
  shows "get_u32 xs p = v"
proof -
  have "segment p 4 xs = le_bytes 4 v"
    using assms by (intro nth_equalityI) (simp_all add: length_segment nth_segment del: nth_le_bytes)
  then show ?thesis using assms(1) by (simp add: get_u32_eq le_word_le_bytes)
qed

lemma zero_bytes: "i < n \<Longrightarrow> le_bytes n (0 :: 'a::len word) ! i = 0"
  by simp

lemma small_bytes: "0 < i \<Longrightarrow> i < 4 \<Longrightarrow> le_bytes 4 (64 :: u32) ! i = 0" "0 < i \<Longrightarrow> i < 4 \<Longrightarrow> le_bytes 4 record_version ! i = 0"
proof -
  assume "0 < i" "i < 4"
  then have "i \<in> {1, 2, 3}" by auto
  then show "le_bytes 4 (64 :: u32) ! i = 0" "le_bytes 4 record_version ! i = 0"
    by (auto simp: record_version_def)
qed

lemma torn_fixed:
  assumes t: "torn v off k (rec_bytes seq prev r)" and fit: "off + 64 \<le> capacity"
  shows "8 \<le> k \<Longrightarrow> get_u64 (read_mem v off 64) 0 = header_magic"
    "k \<le> 12 \<Longrightarrow> get_u32 (read_mem v off 64) 12 = 0"
    "9 \<le> k \<Longrightarrow> get_u32 (read_mem v off 64) 8 = record_version"
    "13 \<le> k \<Longrightarrow> get_u32 (read_mem v off 64) 12 = 64"
proof -
  note n = torn_nth [OF t fit]
  show "8 \<le> k \<Longrightarrow> get_u64 (read_mem v off 64) 0 = header_magic"
    by (rule get_u64_from_nth) (simp_all add: n header_bytes del: nth_le_bytes nth_read_mem)
  show "k \<le> 12 \<Longrightarrow> get_u32 (read_mem v off 64) 12 = 0"
    by (rule get_u32_from_nth) (simp_all add: n zero_bytes del: nth_read_mem)
  show "9 \<le> k \<Longrightarrow> get_u32 (read_mem v off 64) 8 = record_version"
  proof (rule get_u32_from_nth)
    fix i :: nat assume "9 \<le> k" "i < 4"
    then show "read_mem v off 64 ! (8 + i) = le_bytes 4 record_version ! i"
      using header_bytes(2) [of i seq prev r] small_bytes(2) [of i] n [of "8 + i"]
      by (cases "i = 0") (auto simp del: nth_le_bytes nth_read_mem)
  qed simp
  show "13 \<le> k \<Longrightarrow> get_u32 (read_mem v off 64) 12 = 64"
  proof (rule get_u32_from_nth)
    fix i :: nat assume "13 \<le> k" "i < 4"
    then show "read_mem v off 64 ! (12 + i) = le_bytes 4 (64 :: u32) ! i"
      using header_bytes(3) [of i seq prev r] small_bytes(1) [of i] n [of "12 + i"]
      by (cases "i = 0") (auto simp del: nth_le_bytes nth_read_mem)
  qed simp
qed

lemma split_tail:
  "length xs = a + 16 \<Longrightarrow>
   xs = take a xs @ segment a 8 xs @ segment (a + 8) 4 xs @ segment (a + 12) 4 xs"
proof -
  assume "length xs = a + 16"
  then have "take 8 (drop a xs) @ take 4 (drop (a + 8) xs) @ take 4 (drop (a + 12) xs) = drop a xs"
    using append_take_drop_id [of 8 "drop a xs"] append_take_drop_id [of 4 "drop (a + 8) xs"]
    by (simp add: drop_drop add.commute)
  then show ?thesis by (simp add: segment_def)
qed

lemma torn_whole:
  fixes v off k seq prev r
  defines "rec \<equiv> rec_bytes seq prev r" and "fixed \<equiv> read_mem v off 64"
  defines "rs \<equiv> unat (get_u32 fixed 60)"
  defines "record \<equiv> read_mem v off rs" and "footer \<equiv> rs - 24"
  assumes t: "torn v off k rec" and fit: "off + rec_size r \<le> capacity"
    and min: "88 \<le> rs" "off + rs \<le> capacity"
    and magic: "get_u64 record footer = footer_magic"
    and sequence: "get_u64 record (footer + 8) = get_u64 fixed 16"
    and size: "unat (get_u32 record (footer + 16)) = rs"
    and crc: "get_u32 record (footer + 20) = crc_compute (take (footer + 20) record)"
  shows "read_mem v off (rec_size r) = rec"
proof -
  have nth: "record ! i = (if i < k then rec ! i else 0)" if "i < rs" for i
    unfolding record_def using torn_nth [OF t min(2) that] .
  have "record ! (footer + 7) = 0x52"
    using get_u64_byte [OF magic, of 7] min(1) by (simp add: record_def footer_def magic_top_bytes)
  then have k: "footer + 8 \<le> k" using nth [of "footer + 7"] min(1) by (auto simp: footer_def split: if_splits)
  then have "64 \<le> k" using min(1) by (simp add: footer_def)
  have "off + 64 \<le> capacity" using fit rec_size_ge [of r] by linarith
  from torn_nth [OF t this] \<open>64 \<le> k\<close> have "fixed = take 64 rec"
    using rec_size_ge [of r] unfolding fixed_def rec_def by (intro nth_equalityI) simp_all
  then have fixed: "fixed = enc_header seq prev (jr_version r) (jr_top r) (jr_logical r)
      (length (jr_arrays r)) (rec_size r)"
    unfolding rec_def by (subst (asm) rec_bytes_split) simp
  have rs: "rs = rec_size r"
    using fit rec_small [of r] by (simp add: rs_def fixed enc_header_fields)
  have footer: "footer = rec_size r - 24" by (simp add: footer_def rs)
  note ff = rec_footer_fields [OF footer, of seq prev, folded rec_def]
  have len: "length record = footer + 8 + 16" "length rec = footer + 8 + 16"
    using min(1) by (simp_all add: record_def rec_def rs footer_def)
  have h1: "take (footer + 8) record = take (footer + 8) rec"
  proof (rule nth_equalityI)
    fix i assume "i < length (take (footer + 8) record)"
    then have i: "i < footer + 8" by simp
    then have "i < rs" "i < k" using k min(1) by (simp_all add: footer_def)
    with i nth show "take (footer + 8) record ! i = take (footer + 8) rec ! i" by simp
  qed (simp add: len)
  have "get_u64 record (footer + 8) = seq" using sequence by (simp add: fixed enc_header_fields)
  then have h2: "segment (footer + 8) 8 record = segment (footer + 8) 8 rec"
    using get_u64_bytes [of "record" "footer + 8" seq] get_u64_bytes [OF ff(2)] len by simp
  have "get_u32 record (footer + 16) = of_nat (rec_size r)"
    unfolding word_unat_eq_iff using size rs rec_small(1) [of r] fit by simp
  then have h3: "segment (footer + 16) 4 record = segment (footer + 16) 4 rec"
    using get_u32_bytes [of "record" "footer + 16"] get_u32_bytes [OF ff(3)] len by simp
  have body: "take (footer + 20) xs = take (footer + 8) xs @ segment (footer + 8) 8 xs @ segment (footer + 16) 4 xs"
    for xs :: "byte list"
    using take_add [of "footer + 8" 12 xs] take_add [of 8 4 "drop (footer + 8) xs"]
    by (simp add: segment_def drop_drop add.commute)
  have "take (footer + 20) record = take (footer + 20) rec"
    by (simp only: body h1 h2 h3)
  then have h4: "segment (footer + 20) 4 record = segment (footer + 20) 4 rec"
    using get_u32_bytes [OF crc] get_u32_bytes [OF ff(4)] len by simp
  have "record = rec"
    using split_tail [OF len(1)] split_tail [OF len(2)] h1 h2 h3 h4 by (simp add: add.assoc)
  then show ?thesis by (simp add: record_def rs)
qed

lemma torn_scan_turn:
  assumes len: "length chunks = chunk_count" and fit: "r_tail st + rec_size r \<le> capacity"
    and t: "torn (jview chunks m) (r_tail st) k (rec_bytes seq prev r)" and k: "13 \<le> k"
    and part: "read_mem (jview chunks m) (r_tail st) (rec_size r) \<noteq> rec_bytes seq prev r"
  shows "scan_turn_at m chunks fs cv st = Inr (Break st)"
proof -
  let ?v = "jview chunks m"
  define fixed where "fixed = read_mem ?v (r_tail st) 64"
  define rs where "rs = unat (get_u32 fixed 60)"
  have b: "r_tail st + 64 \<le> capacity" using fit rec_size_ge [of r] by linarith
  have rd: "read_bytes m chunks (r_tail st) 64 = Inr fixed"
    unfolding fixed_def by (rule read_bytes_view [OF len b])
  have rd2: "r_tail st + rs \<le> capacity \<Longrightarrow>
      read_bytes m chunks (r_tail st) rs = Inr (read_mem ?v (r_tail st) rs)"
    by (rule read_bytes_view [OF len])
  note hd = torn_fixed [OF t b, folded fixed_def]
  have "9 \<le> k" "8 \<le> k" using k by simp_all
  note h = hd(1) [OF this(2)] hd(3) [OF this(1)] hd(4) [OF k]
  have whole: "\<not> (88 \<le> rs \<and> r_tail st + rs \<le> capacity \<and>
      get_u64 (read_mem ?v (r_tail st) rs) (rs - 24) = footer_magic \<and>
      get_u64 (read_mem ?v (r_tail st) rs) (rs - 24 + 8) = get_u64 fixed 16 \<and>
      unat (get_u32 (read_mem ?v (r_tail st) rs) (rs - 24 + 16)) = rs \<and>
      get_u32 (read_mem ?v (r_tail st) rs) (rs - 24 + 20) = crc_compute (take (rs - 24 + 20) (read_mem ?v (r_tail st) rs)))"
    using torn_whole [OF t fit, folded fixed_def, folded rs_def] part by blast
  show ?thesis
    unfolding scan_turn_at_def Let_def fixed_header_size_def entry_size_def footer_size_def rd bind_result_simps
      h rs_def [symmetric]
    using whole rd2 by (auto simp: not_less not_le)
qed

lemma torn_scan:
  assumes len: "length chunks = chunk_count" and fit: "r_tail st + rec_size r \<le> capacity"
    and t: "torn (jview chunks m) (r_tail st) k (rec_bytes seq prev r)"
    and part: "read_mem (jview chunks m) (r_tail st) (rec_size r) \<noteq> rec_bytes seq prev r"
  shows "scan_loop m chunks fs cv st =
    (if 8 \<le> k \<and> k \<le> 12 then Inl (InvalidDatabase ''bad commit journal record header'') else Inr st)"
proof -
  have b: "r_tail st + 88 \<le> capacity" "r_tail st + 64 \<le> capacity" using fit rec_size_ge [of r] by linarith+
  consider "k < 8" | "8 \<le> k" "k \<le> 12" | "13 \<le> k" by linarith
  then show ?thesis
  proof cases
    case 1
    then have "no_record (jview chunks m) (r_tail st)"
      using t b by (intro no_record_zero) (simp add: torn_def)
    with 1 show ?thesis by (simp add: scan_loop_end [OF len])
  next
    case 2
    have "scan_turn_at m chunks fs cv st = Inl (InvalidDatabase ''bad commit journal record header'')"
      using torn_fixed(1,2) [OF t b(2)] 2 read_bytes_view [OF len b(2), of m]
      by (simp add: scan_turn_at_def fixed_header_size_def)
    with 2 b show ?thesis by (subst scan_loop.simps) (simp add: loop_bound)
  next
    case 3
    then show ?thesis
      using torn_scan_turn [OF len fit t 3 part] b by (subst scan_loop.simps) (simp add: loop_bound)
  qed
qed

end
