(* ===== verification/Crash_Safety.thy ===== *)
theory Crash_Safety
  imports Commit_Recovery
begin

text \<open>
  What the commit journal guarantees across a crash. The journal is related to the list of
  its records by \<open>journal_holds\<close>; a crash is a memory that agrees with the one before the
  append outside the journal and below the tail and holds some prefix of the new record at the
  tail.
\<close>

subsection \<open>A crash during an append\<close>










lemma node_span_cong:
  assumes "\<And>a. a \<in> node_span m ref \<Longrightarrow> m' a = m a"
  shows "node_span m' ref = node_span m ref"
  using arg_cong [OF init_from_ref_cong [of m ref m', OF assms], where f = m_size]
    arg_cong [OF init_from_ref_cong [of m ref m', OF assms], where f = m_width]
  by (simp add: node_span_def)

lemma checkpoint_span_cong:
  assumes att: "attached m j" and same: "\<And>a. a \<in> checkpoint_span m (m_checkpoint_top_ref j) \<Longrightarrow> m' a = m a"
  shows "checkpoint_span m' (m_checkpoint_top_ref j) = checkpoint_span m (m_checkpoint_top_ref j)"
proof -
  let ?t = "m_checkpoint_top_ref j"
  let ?reg = "get_history_ref m ?t" and ?des = "journal_descriptor m ?t"
  have size: "get_size_from_header m ?t > s_hist_version_ndx" using att by (simp add: attached_def)
  have s: "\<And>a. a \<in> node_span m ?t \<Longrightarrow> m' a = m a" "\<And>a. a \<in> node_span m ?reg \<Longrightarrow> m' a = m a"
      "\<And>a. a \<in> node_span m ?des \<Longrightarrow> m' a = m a"
    using same by (simp_all add: checkpoint_span_def)
  have slot: "registry_journal_slot < get_size_from_header m ?reg"
    using att by (auto simp: attached_def open_at_checkpoint_def Let_def split: if_splits)
  have reg: "get_history_ref m' ?t = ?reg" by (rule get_history_ref_cong [of m ?t m', OF s(1) size])
  have "init_from_ref m' ?reg = init_from_ref m ?reg" by (rule init_from_ref_cong) (rule s(2))
  then have des: "journal_descriptor m' ?t = ?des"
    using array_get_cong [of m ?reg m', OF s(2) slot] by (simp add: journal_descriptor_def reg array_get_as_ref_def)
  show ?thesis
    using node_span_cong [of m ?t m', OF s(1)] node_span_cong [of m ?reg m', OF s(2)] node_span_cong [of m ?des m', OF s(3)]
    by (simp add: checkpoint_span_def reg des)
qed

lemma attached_preserved:
  assumes att: "attached m j" and same: "\<And>a. a \<in> checkpoint_span m (m_checkpoint_top_ref j) \<Longrightarrow> m' a = m a"
  shows "attached m' j"
proof -
  let ?t = "m_checkpoint_top_ref j"
  have size: "get_size_from_header m ?t > s_hist_version_ndx" using att by (simp add: attached_def)
  have "get_size_from_header m' ?t = get_size_from_header m ?t"
    using arg_cong [OF init_from_ref_cong [of m ?t m'], where f = m_size] same by (simp add: checkpoint_span_def)
  moreover have "open_at_checkpoint m' ?t = open_at_checkpoint m ?t"
    by (rule open_at_checkpoint_cong [of m ?t m', OF same size])
  ultimately show ?thesis using att checkpoint_span_cong [of m j m', OF att same] by (simp add: attached_def)
qed

lemma attached_frame_full:
  assumes "attached m j" "\<And>a. a \<notin> jaddr (m_chunks j) ` {..<capacity} \<Longrightarrow> m' a = m a"
  shows "attached m' j"
  by (rule attached_preserved [OF assms(1)], rule assms(2))
    (use assms(1) in \<open>auto simp: attached_def outside_journal_def\<close>)

lemma attached_commit_append [simp]:
  "attached m (commit_append p j) = attached m j"
  "m_checkpoint_version (commit_append p j) = m_checkpoint_version j"
  "m_checkpoint_logical_size (commit_append p j) = m_checkpoint_logical_size j"
  by (simp_all add: attached_def, simp_all add: commit_append_def)

subsection \<open>Corruption of an array node\<close>

lemma stored_append:
  "stored v (r_tail st) (r_previous_offset st) (r_sequence st) (rs @ rs') \<longleftrightarrow>
     stored v (r_tail st) (r_previous_offset st) (r_sequence st) rs \<and>
     stored v (r_tail (fold (replay cv) rs st)) (r_previous_offset (fold (replay cv) rs st))
       (r_sequence (fold (replay cv) rs st)) rs'"
proof (induction rs arbitrary: st)
  case (Cons r rs)
  show ?case using Cons.IH [of "replay cv r st"] by simp
qed simp

lemma read_mem_update: "read_mem (m(x := b)) a n = (if a \<le> x \<and> x < a + n then (read_mem m a n)[x - a := b] else read_mem m a n)"
  by (rule nth_equalityI) (auto simp: nth_list_update)

lemma le_word_change:
  assumes "i < length bs" "8 * length bs \<le> LENGTH('a)" "b \<noteq> bs ! i"
  shows "(le_word (bs[i := b]) :: 'a::len word) \<noteq> le_word bs"
proof
  assume "(le_word (bs[i := b]) :: 'a word) = le_word bs"
  then have "le_bytes (length bs) (le_word (bs[i := b]) :: 'a word) = le_bytes (length bs) (le_word bs :: 'a word)"
    by simp
  then have "bs[i := b] = bs" using assms(2) le_bytes_le_word [where ?'a = 'a, of "bs[i := b]"]
    le_bytes_le_word [where ?'a = 'a, of bs] by simp
  with assms show False by (metis nth_list_update_eq)
qed

lemma array_corrupt:
  assumes ok: "array_ok m fs a" and x: "unat (wa_ref a) \<le> x" "x < unat (wa_ref a) + unat (wa_size a)"
    and b: "b \<noteq> m x"
  shows "\<not> array_ok (m(x := b)) fs a"
proof (cases "x < unat (wa_ref a) + 4")
  case True
  let ?bs = "read_mem m (unat (wa_ref a)) 4"
  have "(le_word (?bs[x - unat (wa_ref a) := b]) :: u32) \<noteq> le_word ?bs"
    using True x b by (intro le_word_change) auto
  with ok True x show ?thesis by (simp add: array_ok_def read_mem_update)
next
  case False
  let ?bs = "read_mem m (unat (wa_ref a) + 4) (unat (wa_size a) - 4)"
  have "crc_compute (?bs[x - (unat (wa_ref a) + 4) := b]) \<noteq> crc_compute ?bs"
    using False x b by (intro crc_detects_byte_change) auto
  with ok False x show ?thesis by (simp add: array_ok_def read_mem_update)
qed

definition avoids :: "nat \<Rightarrow> written_array \<Rightarrow> bool" where
  "avoids x a \<longleftrightarrow> x < unat (wa_ref a) \<or> unat (wa_ref a) + unat (wa_size a) \<le> x"

lemma rec_magic: "get_u64 (take 8 (rec_bytes seq prev r)) 0 = header_magic"
  using header_bytes(1) [of _ seq prev r] rec_size_ge [of r]
  by (intro get_u64_from_nth) (simp_all del: nth_le_bytes)

lemma checkpoint_state_simps:
  "r_tail (checkpoint_state t v l) = 0" "r_previous_offset (checkpoint_state t v l) = - 1"
  "r_sequence (checkpoint_state t v l) = 0"
  by (simp_all add: checkpoint_state_def)

lemma journal_split:
  assumes "journal_holds m fs j (rs @ r # rs')"
  shows "stored (jview (m_chunks j) m) 0 (- 1) 0 rs"
    and "read_mem (jview (m_chunks j) m) (log_size rs) (rec_size r) =
      rec_bytes (r_sequence (recovered j rs) + 1) (r_previous_offset (recovered j rs)) r"
    and "stored (jview (m_chunks j) m) (log_size rs + rec_size r) (of_nat (log_size rs))
      (r_sequence (recovered j rs) + 1) rs'"
    and "log_size rs + rec_size r + log_size rs' \<le> capacity"
  using assms stored_append [of _ "checkpoint_state (m_checkpoint_top_ref j) (m_checkpoint_version j)
      (m_checkpoint_logical_size j)" rs "r # rs'" "of_nat (m_checkpoint_version j)"]
  by (simp_all add: journal_holds_def checkpoint_state_simps recovered_def [symmetric] recovered_tail) (simp add: log_size_def)?

text \<open>Whether a record follows, as the scan sees it when it meets a broken array.\<close>

lemma next_magic:
  assumes holds: "journal_holds m fs j (rs @ r # rs')" and tail: "rs' = [] \<longrightarrow> zero_tail m j"
  shows "log_size rs + rec_size r + 8 \<le> capacity \<and>
    get_u64 (read_mem (jview (m_chunks j) m) (log_size rs + rec_size r) 8) 0 = header_magic \<longleftrightarrow> rs' \<noteq> []"
proof (cases rs')
  case Nil
  let ?v = "jview (m_chunks j) m"
  have mt: "m_tail j = log_size rs + rec_size r"
    using holds Nil by (simp add: journal_holds_def recovered_tail log_size_def)
  have "le_bytes 8 header_magic ! 7 \<noteq> 0" by (simp only: magic_top_bytes) simp
  moreover have "get_u64 (read_mem ?v (m_tail j) 8) 0 = header_magic \<Longrightarrow> m_tail j + 8 \<le> capacity \<Longrightarrow>
      le_bytes 8 header_magic ! 7 = 0"
    using get_u64_byte [of "read_mem ?v (m_tail j) 8" 0 header_magic 7] tail Nil by (simp add: zero_tail_def)
  ultimately show ?thesis using Nil mt by auto
next
  case (Cons q qs)
  let ?v = "jview (m_chunks j) m" and ?o = "log_size rs + rec_size r"
  have q: "read_mem ?v ?o (rec_size q) = rec_bytes (r_sequence (recovered j rs) + 1 + 1) (of_nat (log_size rs)) q"
      "?o + rec_size q \<le> capacity"
    using journal_split(3,4) [OF holds] Cons by (simp_all add: log_size_def)
  have "read_mem ?v ?o 8 = take 8 (read_mem ?v ?o (rec_size q))"
    using rec_size_ge [of q] by (simp add: take_read_mem min_def)
  then have "get_u64 (read_mem ?v ?o 8) 0 = header_magic" by (simp only: q(1) rec_magic)
  with q(2) Cons rec_size_ge [of q] show ?thesis by simp
qed

lemma avoids_intact:
  assumes "journal_holds m fs j (rs @ rs')" "list_all (\<lambda>r. list_all (avoids x) (jr_arrays r)) rs"
  shows "list_all (arrays_intact (m(x := b)) fs cv) rs"
  unfolding list_all_iff arrays_intact_def
proof (intro ballI disjI2)
  fix q c assume "q \<in> set rs" "c \<in> set (jr_arrays q)"
  then have "array_ok m fs c" "avoids x c"
    using assms by (auto simp: journal_holds_def list_all_iff array_safe_def)
  then show "array_ok (m(x := b)) fs c" by (subst array_ok_cong [where m = m]) (auto simp: avoids_def)
qed

lemma corrupt_scan:
  assumes holds: "journal_holds m fs j (rs @ r # rs')" and a: "a \<in> set (jr_arrays r)"
    and x: "unat (wa_ref a) \<le> x" "x < unat (wa_ref a) + unat (wa_size a)" and b: "b \<noteq> m x"
    and other: "list_all (\<lambda>r. list_all (avoids x) (jr_arrays r)) rs"
    and newer: "of_nat (m_checkpoint_version j) < jr_version r"
    and tail: "rs' = [] \<longrightarrow> zero_tail m j"
  shows "scan_loop (m(x := b)) (m_chunks j) fs (of_nat (m_checkpoint_version j))
      (checkpoint_state (m_checkpoint_top_ref j) (m_checkpoint_version j) (m_checkpoint_logical_size j)) =
    (if rs' \<noteq> [] then Inl (InvalidDatabase ''corruption inside commit journal chain'')
     else Inr ((recovered j rs)\<lparr>r_cow_bytes := r_cow_bytes (recovered j rs) +
       cow_sum (takeWhile (array_ok (m(x := b)) fs) (jr_arrays r))\<rparr>))"
proof -
  let ?m = "m(x := b)" and ?v = "jview (m_chunks j) m" and ?st = "recovered j rs"
  have safe: "array_safe m fs (m_chunks j) a" using holds a by (auto simp: journal_holds_def list_all_iff)
  have len: "length (m_chunks j) = chunk_count" using holds by (simp add: journal_holds_def chunks_ok_def)
  have v: "jview (m_chunks j) ?m i = ?v i" if "i < capacity" for i
    using safe x that by (force simp: jview_def array_safe_def outside_journal_def)
  then have rd: "read_mem (jview (m_chunks j) ?m) o' n = read_mem ?v o' n" if "o' + n \<le> capacity" for o' n
    using that by (intro read_mem_cong) auto
  note split = journal_split [OF holds]
  have old: "stored (jview (m_chunks j) ?m) 0 (- 1) 0 rs"
    using split(1,4) by (subst stored_cong [where v = ?v]) (simp_all add: v)
  have broken: "\<not> list_all (array_ok ?m fs) (jr_arrays r)"
    using array_corrupt [of m fs a x b] x b safe a by (auto simp: list_all_iff array_safe_def)
  have fit: "r_tail ?st + rec_size r \<le> capacity" using split(4) by (simp add: recovered_tail)
  have here: "read_mem (jview (m_chunks j) ?m) (r_tail ?st) (rec_size r) =
      rec_bytes (r_sequence ?st + 1) (r_previous_offset ?st) r"
    using split(2,4) by (simp add: recovered_tail rd)
  have nxt: "r_tail ?st + rec_size r + 8 \<le> capacity \<and>
      get_u64 (read_mem (jview (m_chunks j) ?m) (r_tail ?st + rec_size r) 8) 0 = header_magic \<longleftrightarrow> rs' \<noteq> []"
    using next_magic [OF holds tail] by (auto simp: recovered_tail rd)
  have "scan_loop ?m (m_chunks j) fs (of_nat (m_checkpoint_version j))
      (checkpoint_state (m_checkpoint_top_ref j) (m_checkpoint_version j) (m_checkpoint_logical_size j)) =
      scan_loop ?m (m_chunks j) fs (of_nat (m_checkpoint_version j)) ?st"
    unfolding recovered_def using old split(4) avoids_intact [OF holds other]
    by (intro scan_loop_log len) (simp_all add: checkpoint_state_simps)
  moreover have "r_tail ?st + 88 \<le> capacity" using fit rec_size_ge [of r] by linarith
  ultimately show ?thesis
    using scan_turn_record [OF len fit here, of fs "of_nat (m_checkpoint_version j)"] broken newer
    unfolding nxt by (subst (asm) (2) scan_loop.simps) (simp add: loop_bound not_le [symmetric] split: if_splits)
qed

lemma corrupt_reopen:
  assumes att: "attached m j" and "x \<notin> checkpoint_span m (m_checkpoint_top_ref j)"
    and "journal_holds m fs j (rs @ r # rs')" "a \<in> set (jr_arrays r)"
    and "unat (wa_ref a) \<le> x" "x < unat (wa_ref a) + unat (wa_size a)" "b \<noteq> m x"
    and "list_all (\<lambda>r. list_all (avoids x) (jr_arrays r)) rs"
    and "of_nat (m_checkpoint_version j) < jr_version r" "rs' = [] \<longrightarrow> zero_tail m j"
  shows "case open_journal (m(x := b)) fs (m_checkpoint_top_ref j) of
      Inl e \<Rightarrow> rs' \<noteq> [] \<and> e = InvalidDatabase ''corruption inside commit journal chain''
    | Inr None \<Rightarrow> False
    | Inr (Some (j', found)) \<Rightarrow> rs' = [] \<and> m_tail j' = log_size rs \<and> r_top_ref found = r_top_ref (recovered j rs) \<and>
        r_version found = r_version (recovered j rs) \<and> r_logical_size found = r_logical_size (recovered j rs)"
proof -
  have "attached (m(x := b)) j" using assms(2) by (intro attached_preserved [OF att]) auto
  then have op: "open_at_checkpoint (m(x := b)) (m_checkpoint_top_ref j) = Inr (Some (at_checkpoint j))"
    by (simp add: attached_def)
  show ?thesis
    using open_journal_eq [OF op, of fs] corrupt_scan [OF assms(3-)]
    by (simp add: with_recovery_def recovered_tail)
qed

subsection \<open>Records of an earlier epoch\<close>





subsection \<open>A concrete checkpoint\<close>

text \<open>
  A file with the top arrays of two checkpoints, the registry node they name, the descriptor of
  the journal and one array node with its checksum; all sixteen chunks are zero.
\<close>

definition node64 :: "nat list \<Rightarrow> byte list" where
  "node64 vs = [65, 65, 65, 65, 0x47, 0, 0, of_nat (length vs)] @ concat (map (\<lambda>v. le_bytes 8 (of_nat v :: u64)) vs)"

definition sample_chunks :: "nat list" where
  "sample_chunks = map (\<lambda>i. 0x10000 + i * 0x500000) [0..<16]"

definition sample_bytes :: "byte list" where
  "sample_bytes = [1, 2, 3, 4, 5, 6, 7, 8, 9, 10, 11, 12]"

definition sample_top :: "nat \<Rightarrow> byte list" where
  "sample_top version = node64 [0, 0, 2001, 0, 0, 0, 2 * version + 1, 0, 256, 0]"

definition sample_file :: mem where
  "sample_file = write_mem (write_mem (write_mem (write_mem (write_mem (\<lambda>_. 0)
     64 (sample_top 3)) 256 (node64 [0, 0, 0, 512])) 512 (node64 sample_chunks))
     1024 (le_bytes 4 (crc_compute sample_bytes) @ sample_bytes)) 2048 (sample_top 9)"

definition sample_journal :: "nat \<Rightarrow> nat \<Rightarrow> commit_journal" where
  "sample_journal top_ref version = \<lparr>m_chunks = sample_chunks, m_tail = 0, m_commits_since_checkpoint = 0,
     m_cow_bytes_since_checkpoint = 0, m_sequence = 0, m_previous_offset = - 1, m_checkpoint_top_ref = top_ref,
     m_checkpoint_version = version, m_checkpoint_logical_size = 1000\<rparr>"

definition sample_array :: written_array where
  "sample_array = \<lparr>wa_ref = 1024, wa_size = 16, wa_checksum = crc_compute sample_bytes\<rparr>"

definition sample_record :: "u64 \<Rightarrow> nat \<Rightarrow> jrec" where
  "sample_record version n = \<lparr>jr_version = version, jr_top = 1024, jr_logical = 2000, jr_arrays = replicate n sample_array\<rparr>"

lemma length_node64 [simp]: "length (node64 vs) = 8 + 8 * length vs"
  by (simp add: node64_def length_concat comp_def sum_list_triv)

lemma concat_words_nth:
  "i < length vs \<Longrightarrow> k < 8 \<Longrightarrow> concat (map (\<lambda>v. le_bytes 8 (of_nat v :: u64)) vs) ! (8 * i + k) =
    le_bytes 8 (of_nat (vs ! i) :: u64) ! k"
proof (induction vs arbitrary: i)
  case (Cons v vs)
  then show ?case by (cases i) (simp_all add: nth_append del: nth_le_bytes)
qed simp

lemma node64_header:
  assumes "read_mem m ref (8 + 8 * length vs) = node64 vs" "length vs < 256"
  shows "get_size_from_header m ref = length vs" "get_width_from_header m ref = 64"
proof -
  have b: "m (ref + i) = node64 vs ! i" if "i < 8" for i
    using arg_cong [OF assms(1), of "\<lambda>xs. xs ! i"] that by simp
  have "m (ref + 4) = 0x47" "m (ref + 5) = 0" "m (ref + 6) = 0" "m (ref + 7) = of_nat (length vs)"
    using b [of 4] b [of 5] b [of 6] b [of 7] by (simp_all add: node64_def)
  with assms(2) show "get_size_from_header m ref = length vs" "get_width_from_header m ref = 64"
    by (simp_all add: get_size_from_header_def get_width_from_header_def unat_of_nat)
qed

lemma node64_get:
  assumes "read_mem m ref (8 + 8 * length vs) = node64 vs" "length vs < 256" "i < length vs"
  shows "array_get m (init_from_ref m ref) i = sint (of_nat (vs ! i) :: u64)"
proof -
  have "read_mem m (ref + 8 + i * 8) 8 = le_bytes 8 (of_nat (vs ! i) :: u64)"
  proof (rule nth_equalityI)
    fix k assume k: "k < length (read_mem m (ref + 8 + i * 8) 8)"
    then have "8 + 8 * i + k < 8 + 8 * length vs" using assms(3) by simp
    then have "m (ref + (8 + 8 * i + k)) = node64 vs ! (8 + (8 * i + k))"
      using arg_cong [OF assms(1), of "\<lambda>xs. xs ! (8 + 8 * i + k)"] by (simp add: add.assoc)
    also have "\<dots> = concat (map (\<lambda>v. le_bytes 8 (of_nat v :: u64)) vs) ! (8 * i + k)"
      unfolding node64_def by (subst nth_append_right) simp_all
    also have "\<dots> = le_bytes 8 (of_nat (vs ! i) :: u64) ! k"
      using k assms(3) by (simp add: concat_words_nth del: nth_le_bytes)
    finally show "read_mem m (ref + 8 + i * 8) 8 ! k = le_bytes 8 (of_nat (vs ! i) :: u64) ! k"
      using k by (simp add: ac_simps del: nth_le_bytes)
  qed simp
  then show ?thesis
    by (simp add: array_get_def m_data_def get_data_from_header_def header_size_def get_direct_def
        node64_header [OF assms(1,2)] le_word_le_bytes)
qed

lemma sample_nodes:
  "read_mem sample_file 64 (8 + 8 * length [0, 0, 2001, 0, 0, 0, 7, 0, 256, 0 :: nat]) = node64 [0, 0, 2001, 0, 0, 0, 7, 0, 256, 0]"
  "read_mem sample_file 2048 (8 + 8 * length [0, 0, 2001, 0, 0, 0, 19, 0, 256, 0 :: nat]) = node64 [0, 0, 2001, 0, 0, 0, 19, 0, 256, 0]"
  "read_mem sample_file 256 (8 + 8 * length [0, 0, 0, 512 :: nat]) = node64 [0, 0, 0, 512]"
  "read_mem sample_file 512 (8 + 8 * length sample_chunks) = node64 sample_chunks"
  "read_mem sample_file 1024 16 = le_bytes 4 (crc_compute sample_bytes) @ sample_bytes"
  by (simp_all add: sample_file_def sample_top_def sample_chunks_def sample_bytes_def mem_simps)

lemma length_sample_chunks [simp]: "length sample_chunks = 16"
  by (simp add: sample_chunks_def)

lemma sample_chunks_nth: "i < 16 \<Longrightarrow> sample_chunks ! i = 0x10000 + i * 0x500000"
  by (simp add: sample_chunks_def)

lemmas sample_headers = node64_header [OF sample_nodes(1), simplified] node64_header [OF sample_nodes(2), simplified]
  node64_header [OF sample_nodes(3), simplified] node64_header [OF sample_nodes(4), simplified]

lemma sample_jaddr: "off < capacity \<Longrightarrow> 0x10000 \<le> jaddr sample_chunks off"
  using off_div_lt [of off] by (simp add: jaddr_def sample_chunks_nth chunk_count_def)

lemma sample_outside: "S \<subseteq> {..<0x10000} \<Longrightarrow> outside_journal sample_chunks S"
  using sample_jaddr unfolding outside_journal_def by fastforce

lemma sample_chunks_ok: "chunks_ok sample_chunks"
  by (auto simp: chunks_ok_def chunk_count_def chunk_size_def sample_chunks_nth)

lemma sample_tops:
  "get_history_ref sample_file 64 = 256" "get_history_ref sample_file 2048 = 256"
  "get_version sample_file 64 = 3" "get_version sample_file 2048 = 9"
  "get_logical_file_size sample_file 64 = 1000" "get_logical_file_size sample_file 2048 = 1000"
  using node64_get [OF sample_nodes(1), simplified] node64_get [OF sample_nodes(2), simplified]
  by (simp_all add: get_history_ref_def get_version_def get_logical_file_size_def sample_headers s_hist_type_ndx_def
      s_hist_ref_ndx_def s_version_ndx_def s_file_size_ndx_def array_get_as_ref_def to_ref_def get_as_int_def Let_def)

lemma sample_registry: "array_get_as_ref sample_file (init_from_ref sample_file 256) registry_journal_slot = 512"
  using node64_get [OF sample_nodes(3), simplified] by (simp add: registry_journal_slot_def array_get_as_ref_def to_ref_def)

lemma sample_descriptor:
  assumes "i < 16"
  shows "array_get_as_ref sample_file (init_from_ref sample_file 512) i = sample_chunks ! i"
proof -
  have "sample_chunks ! i < 2 ^ 64" using assms by (simp add: sample_chunks_nth)
  with assms show ?thesis
    using node64_get [OF sample_nodes(4), of i] by (simp add: array_get_as_ref_def to_ref_def unat_of_nat)
qed

lemma sample_attached:
  assumes "top_ref = 64 \<and> version = 3 \<or> top_ref = 2048 \<and> version = 9"
  shows "attached sample_file (sample_journal top_ref version)"
proof -
  have chunks: "map (array_get_as_ref sample_file (init_from_ref sample_file 512)) [0..<chunk_count] = sample_chunks"
    by (rule nth_equalityI) (simp_all add: chunk_count_def sample_descriptor)
  have zero: "0 \<notin> set sample_chunks" by (auto simp: sample_chunks_def)
  have "open_at_checkpoint sample_file top_ref = Inr (Some (at_checkpoint (sample_journal top_ref version)))"
    using assms unfolding open_at_checkpoint_def
    by (auto simp: Let_def sample_tops sample_headers sample_registry chunk_count_def chunks [unfolded chunk_count_def]
        zero at_checkpoint_def sample_journal_def) (simp_all add: registry_journal_slot_def sample_descriptor sample_chunks_nth)
  moreover have "journal_descriptor sample_file top_ref = 512"
    using assms by (auto simp: journal_descriptor_def sample_tops sample_registry)
  then have "checkpoint_span sample_file top_ref \<subseteq> {..<0x10000}"
    using assms by (auto simp: checkpoint_span_def node_span_def sample_tops sample_headers calc_byte_len_def header_size_def)
  ultimately show ?thesis
    using assms by (auto simp: attached_def sample_journal_def sample_headers s_hist_version_ndx_def sample_outside)
qed

lemma sample_span: "checkpoint_span sample_file 64 = {64..<152} \<union> {256..<296} \<union> {512..<648}"
  by (simp add: checkpoint_span_def node_span_def sample_tops sample_headers calc_byte_len_def header_size_def
      journal_descriptor_def sample_registry)

lemma sample_zero_tail: "zero_tail sample_file (sample_journal top_ref version)"
proof -
  have "jview sample_chunks sample_file i = 0" if "i < capacity" for i
    using sample_jaddr [OF that]
    by (simp add: jview_def sample_file_def write_mem_def sample_top_def sample_bytes_def)
  then show ?thesis by (simp add: zero_tail_def sample_journal_def)
qed

lemma sample_recovered: "recovered (sample_journal top_ref version) [] = checkpoint_state top_ref version 1000"
  by (simp add: recovered_def sample_journal_def)

lemma sample_holds: "journal_holds sample_file fs (sample_journal top_ref version) []"
  unfolding journal_holds_def sample_recovered
  by (simp add: sample_journal_def sample_chunks_ok log_size_def checkpoint_state_def)

lemma sample_safe: "1040 \<le> fs \<Longrightarrow> array_safe sample_file fs sample_chunks sample_array"
proof -
  have "read_mem sample_file 1024 4 = le_bytes 4 (crc_compute sample_bytes)"
    using arg_cong [OF sample_nodes(5), of "take 4"] by (simp add: take_read_mem)
  moreover have "read_mem sample_file 1028 12 = sample_bytes"
    using arg_cong [OF sample_nodes(5), of "drop 4"] by (simp add: drop_read_mem)
  ultimately show "array_safe sample_file fs sample_chunks sample_array" if "1040 \<le> fs"
    using that by (auto simp: array_safe_def array_ok_def sample_array_def le_word_le_bytes intro!: sample_outside)
qed

lemma sample_record_simps [simp]:
  "jr_version (sample_record v n) = v" "jr_arrays (sample_record v n) = replicate n sample_array"
  "rec_size (sample_record v n) = 88 + 16 * n"
  by (simp_all add: sample_record_def rec_size_def)

lemma sample_journal_simps [simp]:
  "m_tail (sample_journal t v) = 0" "m_chunks (sample_journal t v) = sample_chunks"
  "m_checkpoint_top_ref (sample_journal t v) = t" "m_checkpoint_version (sample_journal t v) = v"
  "m_sequence (sample_journal t v) = 0" "m_previous_offset (sample_journal t v) = - 1"
  by (simp_all add: sample_journal_def)


text \<open>The sample file after a number of commits.\<close>

definition sample_log :: "nat \<Rightarrow> nat \<Rightarrow> jrec list" where
  "sample_log n k = map (\<lambda>i. sample_record (of_nat (4 + i)) k) [0..<n]"

lemma sample_commits:
  assumes "n \<le> 5" "k \<le> 1"
  obtains m j where "attached m j" "journal_holds m 2000 j (sample_log n k)" "zero_tail m j"
    "m_chunks j = sample_chunks" "m_checkpoint_top_ref j = 64" "m_checkpoint_version j = 3" "m_checkpoint_logical_size j = 1000"
    "\<And>a. a \<notin> jaddr sample_chunks ` {..<capacity} \<Longrightarrow> m a = sample_file a"
  using assms
proof (induction n arbitrary: thesis)
  case 0
  show ?case
    by (rule "0.prems"(1) [of sample_file "sample_journal 64 3"])
      (use sample_attached [of 64 3] sample_holds sample_zero_tail in \<open>simp_all add: sample_log_def sample_journal_def\<close>)
next
  case (Suc n)
  obtain m j where mj: "attached m j" "journal_holds m 2000 j (sample_log n k)" "zero_tail m j"
    "m_chunks j = sample_chunks" "m_checkpoint_top_ref j = 64" "m_checkpoint_version j = 3" "m_checkpoint_logical_size j = 1000"
    "\<And>a. a \<notin> jaddr sample_chunks ` {..<capacity} \<Longrightarrow> m a = sample_file a"
    using Suc.IH Suc.prems(2,3) by (metis Suc_leD)
  let ?r = "sample_record (of_nat (4 + n)) k"
  have "log_size (sample_log n k) \<le> 104 * n" using Suc.prems(3) by (simp add: log_size_def sample_log_def comp_def sum_list_triv)
  then have room: "m_tail j + rec_size ?r \<le> capacity"
    using mj(2) Suc.prems(2,3) by (simp add: journal_holds_def recovered_tail capacity_eq)
  have "unat (of_nat (4 + n) :: u64) = 4 + n" using Suc.prems(2) by (simp add: unat_of_nat del: of_nat_add)
  then have newer: "of_nat (m_checkpoint_version j) < jr_version ?r" by (simp add: word_less_nat_alt mj(6) del: of_nat_add)
  have safe: "list_all (array_safe m 2000 (m_chunks j)) (jr_arrays ?r)"
    using array_safe_frame [OF sample_safe [of 2000] mj(8)] mj(4) by (simp add: list_all_iff)
  let ?j = "commit_append (append_pending j ?r) j"
  obtain m' where m': "journal_holds m' 2000 ?j (sample_log n k @ [?r])"
      "\<And>i. m_tail j + rec_size ?r \<le> i \<Longrightarrow> i < capacity \<Longrightarrow> jview (m_chunks j) m' i = jview (m_chunks j) m i"
      "\<And>a. a \<notin> jaddr (m_chunks j) ` {..<capacity} \<Longrightarrow> m' a = m a"
    by (rule append_holds [OF mj(2) room newer safe]) blast
  show ?case
    by (rule Suc.prems(1) [of m' ?j])
      (use m'(1,3) mj(4-8) append_zero_tail [of m j ?r m', OF mj(3) m'(2)] attached_frame_full [OF mj(1) m'(3)]
        in \<open>simp_all add: sample_log_def\<close>)
qed

subsection \<open>The guarantees\<close>







text \<open>
  C6: A byte of an array node is damaged after its commit was recorded. If the commit is the last
  one of the journal, reopening falls back to the commit before it; if another record follows, the
  damage is reported. The damaged commit is never opened.
\<close>

theorem damaged_node_never_opened:
  assumes "attached m j" "x \<notin> checkpoint_span m (m_checkpoint_top_ref j)"
    and "journal_holds m fs j (rs @ r # rs')" "a \<in> set (jr_arrays r)"
    and "unat (wa_ref a) \<le> x" "x < unat (wa_ref a) + unat (wa_size a)" "b \<noteq> m x"
    and "list_all (\<lambda>r. list_all (avoids x) (jr_arrays r)) rs"
    and "of_nat (m_checkpoint_version j) < jr_version r" "rs' = [] \<longrightarrow> zero_tail m j"
  shows "case open_journal (m(x := b)) fs (m_checkpoint_top_ref j) of
      Inl e \<Rightarrow> rs' \<noteq> [] \<and> e = InvalidDatabase ''corruption inside commit journal chain''
    | Inr None \<Rightarrow> False
    | Inr (Some (j', found)) \<Rightarrow> rs' = [] \<and> m_tail j' = log_size rs \<and> r_top_ref found = r_top_ref (recovered j rs) \<and>
        r_version found = r_version (recovered j rs) \<and> r_logical_size found = r_logical_size (recovered j rs)"
  using assms by (rule corrupt_reopen)

theorem damaged_node_never_opened_witness:
  "\<exists>m j. journal_holds m 2000 j [sample_record 4 1, sample_record 5 1] \<and>
     open_journal (m(1030 := m 1030 + 1)) 2000 64 = Inl (InvalidDatabase ''corruption inside commit journal chain'')"
proof -
  obtain m j where mj: "attached m j" "journal_holds m 2000 j (sample_log 2 1)" "zero_tail m j"
    "m_chunks j = sample_chunks" "m_checkpoint_top_ref j = 64" "m_checkpoint_version j = 3"
    "\<And>a. a \<notin> jaddr sample_chunks ` {..<capacity} \<Longrightarrow> m a = sample_file a"
    by (rule sample_commits [of 2 1]) simp_all
  have two: "sample_log 2 1 = [] @ sample_record 4 1 # [sample_record 5 1]" by (simp add: sample_log_def upt_rec)
  have "checkpoint_span m 64 = checkpoint_span sample_file 64"
    using checkpoint_span_cong [of sample_file "sample_journal 64 3" m] mj(7) sample_attached [of 64 3]
    by (auto simp: attached_def outside_journal_def)
  then have "1030 \<notin> checkpoint_span m (m_checkpoint_top_ref j)" by (simp add: mj(5) sample_span)
  then have "open_journal (m(1030 := m 1030 + 1)) 2000 64 = Inl (InvalidDatabase ''corruption inside commit journal chain'')"
    using damaged_node_never_opened [of m j 1030 2000 "[]" "sample_record 4 1" "[sample_record 5 1]" sample_array
        "m 1030 + 1"] mj two
    by (simp add: sample_array_def split: sum.splits option.splits prod.splits)
  with mj(2) two show ?thesis by auto
qed



text \<open>
  C26: The checkpoint policy keeps the journal from filling up. An append that
  \<open>needs_checkpoint\<close> lets through finds room for its record, is written completely and reads back;
  the journal then holds at most three quarters of its capacity and 4096 commits.
\<close>

theorem policy_leaves_room:
  assumes "journal_holds m fs j rs" "length arrays < 2 ^ 58"
    and "\<not> needs_checkpoint j (required_size (length arrays)) cow_bytes"
  shows "\<exists>p m'. prepare_append False j version newtop logical arrays m = (Inr p, m') \<and>
    read_mem (jview (m_chunks j) m') (m_tail j) (required_size (length arrays)) =
      build_record (m_sequence j) (m_previous_offset j) version newtop logical arrays \<and>
    m_tail (commit_append p j) \<le> capacity * 3 div 4 \<and> m_commits_since_checkpoint (commit_append p j) \<le> 4096"
proof -
  have chunks: "chunks_ok (m_chunks j)" using assms(1) by (simp add: journal_holds_def)
  have size: "required_size (length arrays) = 88 + 16 * length arrays" using assms(2) by (rule required_size_eq)
  have room: "m_tail j + (88 + 16 * length arrays) \<le> capacity * 3 div 4" "m_commits_since_checkpoint j < 4096"
    using assms(3) by (auto simp: needs_checkpoint_def size)
  then have fit: "m_tail j + (88 + 16 * length arrays) \<le> capacity" by (simp add: capacity_eq)
  let ?rec = "enc_record (m_sequence j + 1) (m_previous_offset j) version newtop logical arrays"
  let ?p = "\<lparr>pa_next_offset = m_tail j + (88 + 16 * length arrays), pa_record_offset = m_tail j,
      pa_sequence = m_sequence j + 1, pa_version = version, pa_cow_bytes = sum_list (map (\<lambda>a. unat (wa_size a)) arrays)\<rparr>"
  obtain m' where m': "prepare_append False j version newtop logical arrays m = (Inr ?p, m')"
      "\<And>i. i < capacity \<Longrightarrow> jview (m_chunks j) m' i = write_mem (jview (m_chunks j) m) (m_tail j) ?rec i"
    by (rule prepare_append_ok [OF chunks assms(2) fit, of version newtop logical m]) blast
  have "read_mem (jview (m_chunks j) m') (m_tail j) (88 + 16 * length arrays) =
      read_mem (write_mem (jview (m_chunks j) m) (m_tail j) ?rec) (m_tail j) (88 + 16 * length arrays)"
    using fit by (intro read_mem_cong m'(2)) linarith
  also have "\<dots> = ?rec" by (simp add: read_write_mem_same)
  finally show ?thesis
    using m'(1) room by (simp add: size build_record_eq [OF assms(2)] commit_append_def)
qed

theorem policy_leaves_room_witness:
  "\<not> needs_checkpoint (sample_journal 64 3) (required_size 1) 16 \<and>
   (\<exists>p m'. prepare_append False (sample_journal 64 3) 4 1024 2000 [sample_array] sample_file = (Inr p, m') \<and>
     m_tail (commit_append p (sample_journal 64 3)) \<le> capacity * 3 div 4)"
proof -
  have "\<not> needs_checkpoint (sample_journal 64 3) (required_size (length [sample_array])) 16"
    by (simp add: needs_checkpoint_def required_size_eq capacity_eq, simp add: sample_journal_def)
  with policy_leaves_room [OF sample_holds [of 2000 64 3], of "[sample_array]" 16 4 1024 2000] show ?thesis by auto
qed

end
