(* ===== verification/Array_Payload.thy ===== *)
theory Array_Payload
  imports Array_Node
begin

text \<open>
  The loops of the integer array over the packed payload of one node: widening, opening a gap
  for an insertion, and moving elements. Each is described by the bits of the payload it
  changes; the element view follows with \<open>get_direct_eqI\<close>.
\<close>

subsection \<open>Which bytes a write touches\<close>

lemma div_succ: "0 < w \<Longrightarrow> (a + w + 7) div 8 = (a + (w - 1)) div 8 + (1 :: nat)"
proof -
  assume "0 < w"
  then have "a + w + 7 = a + (w - 1) + 8" by simp
  then show ?thesis by (simp only: div_add_self2)
qed

lemma set_subbyte_frame:
  fixes w q i :: nat
  assumes "w * q = 8" "x < data + i * w div 8 \<or> data + (i * w + w + 7) div 8 \<le> x"
  shows "x \<noteq> data + i div q"
proof -
  have w: "0 < w" using assms(1) by (cases w) auto
  have "i * w div 8 = i div q" using subbyte_place(1) [OF assms(1), of 0 i] w by simp
  moreover have "(i * w + (w - 1)) div 8 = i div q"
    using subbyte_place(1) [OF assms(1), of "w - 1" i] w by simp
  ultimately show ?thesis using assms(2) div_succ [OF w, of "i * w"] by linarith
qed

lemma bytes_range: "i * (8 * n) div 8 = i * n" "(i * (8 * n) + 8 * n + 7) div 8 = i * n + (n :: nat)"
proof -
  have "i * (8 * n) = 8 * (i * n)" by simp
  then show "i * (8 * n) div 8 = i * n" by simp
  have "i * (8 * n) + 8 * n + 7 = 7 + (i * n + n) * 8" by (simp add: algebra_simps)
  then show "(i * (8 * n) + 8 * n + 7) div 8 = i * n + n" by (simp only: div_mult_self1 zero_neq_numeral)
qed

lemma set_direct_frame:
  assumes "valid_width w" and x: "x < data + i * w div 8 \<or> data + (i * w + w + 7) div 8 \<le> x"
  shows "set_direct w m data i v x = m x"
proof -
  note b = bytes_range [of i 1] bytes_range [of i 2] bytes_range [of i 4] bytes_range [of i 8]
  show ?thesis
    using assms(1) x unfolding valid_width_def
  proof (elim insertE emptyE; hypsubst)
    assume "x < data + i * 1 div 8 \<or> data + (i * 1 + 1 + 7) div 8 \<le> x"
    then show "set_direct 1 m data i v x = m x" unfolding set_direct_subbyte using set_subbyte_frame [of 1 8 x data i] by simp
  next
    assume "x < data + i * 2 div 8 \<or> data + (i * 2 + 2 + 7) div 8 \<le> x"
    then show "set_direct 2 m data i v x = m x" unfolding set_direct_subbyte using set_subbyte_frame [of 2 4 x data i] by simp
  next
    assume "x < data + i * 4 div 8 \<or> data + (i * 4 + 4 + 7) div 8 \<le> x"
    then show "set_direct 4 m data i v x = m x" unfolding set_direct_subbyte using set_subbyte_frame [of 4 2 x data i] by simp
  qed (use b in \<open>auto simp: set_direct_def write_mem_def\<close>)
qed

lemma h_mem_array_put [simp]: "h_mem (array_put a i v h) = set_direct (m_width a) (h_mem h) (m_data a) i v"
  by (simp add: array_put_def)

lemma h_alloc_array_put [simp]: "h_alloc (array_put a i v h) = h_alloc h"
  by (simp add: array_put_def)

subsection \<open>Widening\<close>

lemma get_direct_below:
  assumes "valid_width w" "valid_width w'" "w' \<le> w" "j < i"
  shows "get_direct w' (set_direct w m data i v) data j = get_direct w' m data j"
proof (rule get_direct_eqI [OF assms(2)])
  fix b assume "b < w'"
  then have "j * w' + b < (j + 1) * w'" by simp
  also have "(j + 1) * w' \<le> i * w" using assms(3,4) by (intro mult_le_mono) simp_all
  finally show "mbit (set_direct w m data i v) data (j * w' + b) = mbit m data (j * w' + b)"
    by (simp add: mbit_set_direct [OF assms(1)])
qed

lemma div_block:
  assumes "0 < w"
  shows "i * w \<le> k \<and> k < i * w + w \<longleftrightarrow> k div w = (i :: nat)"
proof
  assume "i * w \<le> k \<and> k < i * w + w"
  then show "k div w = i" by (intro div_nat_eqI) (simp_all add: mult.commute)
next
  assume "k div w = i"
  then have "k = i * w + k mod w" by (metis div_mult_mod_eq)
  with assms show "i * w \<le> k \<and> k < i * w + w" by (metis le_add1 mod_less_divisor nat_add_left_cancel_less)
qed

lemma mbit_expand_loop:
  assumes w: "valid_width (m_width a)" "valid_width ow" "ow \<le> m_width a" "0 < m_width a"
  shows "mbit (h_mem (expand_loop ow a shift stop n h)) (m_data a) k =
    (if stop + shift \<le> k div m_width a \<and> k div m_width a < n + shift
     then bit (get_direct ow (h_mem h) (m_data a) (k div m_width a - shift)) (k mod m_width a)
     else mbit (h_mem h) (m_data a) k)"
proof (induction n arbitrary: h)
  case (Suc i)
  let ?w = "m_width a" and ?d = "m_data a"
  let ?v = "get_direct ow (h_mem h) ?d i"
  have put: "mbit (set_direct ?w (h_mem h) ?d (i + shift) ?v) ?d k =
      (if k div ?w = i + shift then bit ?v (k mod ?w) else mbit (h_mem h) ?d k)"
    using div_block [OF w(4), of "i + shift" k] minus_div_mult_eq_mod [of k ?w]
    by (simp only: mbit_set_direct [OF w(1)]) auto
  have old: "get_direct ow (set_direct ?w (h_mem h) ?d (i + shift) ?v) ?d (k div ?w - shift) =
      get_direct ow (h_mem h) ?d (k div ?w - shift)" if "k div ?w < i + shift" "shift \<le> k div ?w"
    using that w by (intro get_direct_below) auto
  show ?case
  proof (cases "stop < Suc i")
    case True
    then show ?thesis
      using old by (cases "k div ?w = i + shift") (simp_all add: Suc.IH put Let_def)
  qed auto
qed auto

lemma h_alloc_expand_loop [simp]: "h_alloc (expand_loop ow a shift stop n h) = h_alloc h"
  by (induction n arbitrary: h) (simp_all add: Let_def)

lemma get_expand_loop:
  assumes "valid_width (m_width a)" "valid_width ow" "ow \<le> m_width a"
  shows "get_direct (m_width a) (h_mem (expand_loop ow a shift stop n h)) (m_data a) k =
    (if stop + shift \<le> k \<and> k < n + shift then get_direct ow (h_mem h) (m_data a) (k - shift)
     else get_direct (m_width a) (h_mem h) (m_data a) k)"
proof (cases "m_width a = 0")
  case True
  then show ?thesis using assms(3) by (simp add: width_0)
next
  case False
  let ?w = "m_width a"
  have at: "(k * ?w + j) div ?w = k" "(k * ?w + j) mod ?w = j" if "j < ?w" for j using that by auto
  note bits = mbit_expand_loop [OF assms, of shift stop n h]
  show ?thesis
  proof (cases "stop + shift \<le> k \<and> k < n + shift")
    case True
    have "fits_width ?w (get_direct ow (h_mem h) (m_data a) (k - shift))"
      using assms by (intro fits_width_mono [OF assms(2,1)] fits_get_direct)
    then have "get_direct ?w (h_mem (expand_loop ow a shift stop n h)) (m_data a) k =
        get_direct ow (h_mem h) (m_data a) (k - shift)"
      using True False at by (intro get_direct_valueI [OF assms(1)]) (simp_all add: bits)
    with True show ?thesis by simp
  next
    case other: False
    have "get_direct ?w (h_mem (expand_loop ow a shift stop n h)) (m_data a) k = get_direct ?w (h_mem h) (m_data a) k"
      using False other at by (intro get_direct_eqI [OF assms(1)]) (auto simp: bits)
    with other show ?thesis by auto
  qed
qed

lemma get_old_expand_loop:
  assumes "valid_width (m_width a)" "valid_width ow" "ow \<le> m_width a" "k < stop + shift"
  shows "get_direct ow (h_mem (expand_loop ow a shift stop n h)) (m_data a) k = get_direct ow (h_mem h) (m_data a) k"
  using assms(4)
proof (induction n arbitrary: h)
  case (Suc i)
  show ?case
  proof (cases "stop < Suc i")
    case True
    with Suc.prems have "k < i + shift" by simp
    then show ?thesis using True Suc.prems by (simp add: Let_def Suc.IH get_direct_below [OF assms(1-3)])
  qed simp
qed simp

subsection \<open>Opening a gap\<close>

lemma mbit_write_u64:
  "mbit (write_u64 m (data + 8 * k) w) data j = (if j div 64 = k then bit w (j mod 64) else mbit m data j)"
proof -
  have hit: "8 * (8 * k) \<le> j \<and> j < 8 * (8 * k + 8) \<longleftrightarrow> j div 64 = k"
    using div_block [of 64 k j] by (simp add: mult.commute algebra_simps)
  have "bit (le_bytes 8 w ! ((j - 64 * k) div 8)) ((j - 64 * k) mod 8) = bit w (j mod 64)" if "j div 64 = k"
  proof -
    have r: "j - 64 * k = j mod 64" using that by (simp add: minus_mult_div_eq_mod [symmetric])
    have "j mod 64 div 8 < 8" by (simp add: less_mult_imp_div_less)
    then show ?thesis unfolding r
      by (simp add: bit_byte_le_bytes mult_div_mod_eq del: nth_le_bytes)
  qed
  then show ?thesis
    using mbit_write_mem [of m data "8 * k" "le_bytes 8 w" j] hit by (simp add: write_u64_def del: nth_le_bytes)
qed

lemma bit_read_u64: "bit (read_u64 m (data + 8 * k)) j \<longleftrightarrow> j < 64 \<and> mbit m data (64 * k + j)"
proof (cases "j < 64")
  case True
  have "64 * k + j = j + 8 * (8 * k)" by simp
  then have "(64 * k + j) div 8 = 8 * k + j div 8" "(64 * k + j) mod 8 = j mod 8"
    by (simp_all only: div_mult_self2 mod_mult_self2 zero_neq_numeral)
  moreover have "j div 8 < 8" using True by (simp add: less_mult_imp_div_less)
  ultimately show ?thesis using True by (simp add: read_u64_def bit_le_word mbit_def add.assoc)
qed (auto dest: bit_imp_le_length)

lemma mbit_gap_loop:
  assumes "0 < w" "w < 64"
  shows "mbit (gap_loop data w f l m) data j =
    (if f < j div 64 \<and> j div 64 \<le> l then mbit m data (j - w) else mbit m data j)"
proof (induction l arbitrary: m)
  case (Suc k)
  let ?word = "push_bit w (read_u64 m (data + 8 * Suc k)) OR drop_bit (64 - w) (read_u64 m (data + 8 * k))"
  let ?m = "write_u64 m (data + 8 * Suc k) ?word"
  have top: "bit ?word (j mod 64) = mbit m data (j - w)" if "j div 64 = Suc k"
  proof -
    have j: "j = 64 * Suc k + j mod 64" using that by (metis mult_div_mod_eq)
    define i where "i = j mod 64"
    have i: "i < 64" by (simp add: i_def)
    have eq: "j - w = (if w \<le> i then 64 * Suc k + (i - w) else 64 * k + (64 - w + i))"
      using j assms(2) unfolding i_def [symmetric] by auto
    show ?thesis unfolding eq i_def [symmetric]
      using i assms by (auto simp: bit_or_iff bit_push_bit_iff bit_drop_bit_eq bit_read_u64 simp del: mult_Suc_right)
  qed
  have low: "mbit ?m data (j - w) = mbit m data (j - w)" if "j div 64 \<le> k"
  proof -
    have "(j - w) div 64 \<le> j div 64" by (rule div_le_mono) simp
    with that show ?thesis by (simp only: mbit_write_u64) auto
  qed
  show ?case
  proof (cases "f < Suc k")
    case True
    then show ?thesis using top low by (auto simp: Suc.IH mbit_write_u64 simp del: mult_Suc_right)
  qed auto
qed auto

lemma mbit_open_bit_gap:
  assumes w: "0 < w" "w < 64" and l: "l = (used + w - 1) div 64" and j: "j < pos \<or> pos + w \<le> j"
    and pos: "pos mod 64 + w \<le> 64"
  shows "mbit (open_bit_gap data used pos w m) data j =
    (if pos \<le> j \<and> (j div 64 \<le> l \<or> j div 64 = pos div 64) then mbit m data (j - w) else mbit m data j)"
proof -
  define f where "f = pos div 64"
  define off where "off = pos mod 64"
  let ?m = "gap_loop data w f l m"
  let ?word = "read_u64 ?m (data + 8 * f)"
  let ?keep = "if off \<noteq> 0 then drop_bit (64 - off) (NOT 0) else 0 :: u64"
  have off: "off < 64" "pos = 64 * f + off" by (simp_all add: off_def f_def)
  have keep: "bit ?keep i \<longleftrightarrow> i < off" for i
    using off by (auto simp: bit_drop_bit_eq bit_simps)
  have word: "bit ?word i \<longleftrightarrow> i < 64 \<and> mbit m data (64 * f + i)" for i
    by (auto simp: bit_read_u64 mbit_gap_loop [OF w])
  have result: "mbit (open_bit_gap data used pos w m) data j =
      (if j div 64 = f then bit ((?word AND ?keep) OR push_bit w (?word AND NOT ?keep)) (j mod 64) else mbit ?m data j)"
    by (simp add: open_bit_gap_def Let_def f_def off_def l mbit_write_u64)
  show ?thesis
  proof (cases "j div 64 = f")
    case True
    define i where "i = j mod 64"
    have i: "i < 64" "j = 64 * f + i" using True by (auto simp: i_def)
    have split: "bit ((?word AND ?keep) OR push_bit w (?word AND NOT ?keep)) i \<longleftrightarrow>
        (if i < off then mbit m data (64 * f + i) else w + off \<le> i \<and> mbit m data (64 * f + (i - w)))"
      unfolding bit_or_iff bit_and_iff bit_push_bit_iff bit_not_iff keep word using i(1) off(1) by auto
    show ?thesis
    proof (cases "i < off")
      case True
      then show ?thesis using i off result split \<open>j div 64 = f\<close> unfolding i_def [symmetric] by simp
    next
      case False
      with j i off have "w + off \<le> i" "pos \<le> j" "64 * f + (i - w) = j - w" by simp_all
      with False show ?thesis using result split \<open>j div 64 = f\<close> unfolding i_def [symmetric] f_def [symmetric] by simp
    qed
  next
    case False
    have "pos \<le> j \<longleftrightarrow> f < j div 64"
    proof
      assume "pos \<le> j"
      then have "f \<le> j div 64" unfolding f_def by (rule div_le_mono)
      with False show "f < j div 64" by simp
    next
      assume "f < j div 64"
      then have "64 * f + 64 \<le> 64 * (j div 64)" by simp
      also have "\<dots> \<le> j" by simp
      finally show "pos \<le> j" using off by simp
    qed
    with False show ?thesis using result by (auto simp: mbit_gap_loop [OF w] f_def)
  qed
qed

lemma subbyte_fits_word:
  assumes "w \<in> {1, 2, 4 :: nat}"
  shows "i * w mod 64 + w \<le> 64"
proof -
  obtain q where q: "64 = q * w" "0 < w" using assms by (auto intro: that [of 64] that [of 32] that [of 16])
  then have eq: "i * w mod 64 = (i mod q) * w" by (simp only: mult_mod_left)
  have "0 < q" using q by (cases q) auto
  then have "i mod q + 1 \<le> q" by (simp add: Suc_le_eq)
  then have "(i mod q + 1) * w \<le> q * w" by (rule mult_le_mono1)
  then show ?thesis unfolding eq using q by simp
qed

lemma get_open_bit_gap:
  assumes "w \<in> {1, 2, 4}" "ndx < n" "k \<noteq> ndx" "k \<le> n"
  shows "get_direct w (open_bit_gap data (n * w) (ndx * w) w m) data k =
    get_direct w m data (if k < ndx then k else k - 1)"
proof (rule get_direct_eqI)
  show "valid_width w" using assms(1) by (auto simp: valid_width_def)
  fix j assume j: "j < w"
  have w: "0 < w" "w < 64" using assms(1) by auto
  let ?p = "k * w + j"
  have le: "k * w + j < (k + 1) * w" using j by simp
  have pos: "?p < ndx * w \<or> ndx * w + w \<le> ?p" and iff: "ndx * w \<le> ?p \<longleftrightarrow> ndx < k"
  proof -
    have "k < ndx \<Longrightarrow> (k + 1) * w \<le> ndx * w" by (intro mult_le_mono1) simp
    moreover have "ndx < k \<Longrightarrow> (ndx + 1) * w \<le> k * w" by (intro mult_le_mono1) simp
    ultimately show "?p < ndx * w \<or> ndx * w + w \<le> ?p" "ndx * w \<le> ?p \<longleftrightarrow> ndx < k"
      using assms(3) le by (cases "k < ndx"; simp)+
  qed
  have "k * w \<le> n * w" using assms(4) by simp
  then have "?p \<le> n * w + w - 1" using j by linarith
  then have "?p div 64 \<le> (n * w + w - 1) div 64" by (rule div_le_mono)
  moreover have "?p - w = (k - 1) * w + j" if "ndx < k"
    using that by (simp add: diff_mult_distrib)
  ultimately show "mbit (open_bit_gap data (n * w) (ndx * w) w m) data (k * w + j) =
      mbit m data ((if k < ndx then k else k - 1) * w + j)"
    using assms(3) iff mbit_open_bit_gap [OF w refl pos subbyte_fits_word [OF assms(1)], of data "n * w" m]
    by (cases "k < ndx") simp_all
qed

subsection \<open>Moving bytes\<close>

lemma mbit_memmove:
  "mbit (write_mem m (data + b) (read_mem m (data + a) n)) data k =
    (if 8 * b \<le> k \<and> k < 8 * (b + n) then mbit m data (k - 8 * b + 8 * a) else mbit m data k)"
proof (cases "8 * b \<le> k \<and> k < 8 * (b + n)")
  case True
  define p where "p = k - 8 * b"
  have "p < n * 8" using True by (simp add: p_def less_diff_conv2 algebra_simps)
  then have "p div 8 < n" by (rule less_mult_imp_div_less)
  moreover have "(p + 8 * a) div 8 = p div 8 + a" "(p + 8 * a) mod 8 = p mod 8" by simp_all
  ultimately show ?thesis
    using True unfolding mbit_write_mem p_def [symmetric] by (simp add: mbit_def add.assoc add.commute [of a])
next
  case False
  then show ?thesis unfolding mbit_write_mem by auto
qed

text \<open>Moving whole elements of at least a byte, in either direction.\<close>

lemma get_memmove:
  assumes w: "valid_width w" "w = 8 * B" "0 < B"
  shows "get_direct w (write_mem m (data + to * B) (read_mem m (data + from * B) (cnt * B))) data k =
    get_direct w m data (if to \<le> k \<and> k < to + cnt then k - to + from else k)"
proof (rule get_direct_eqI [OF w(1)])
  fix j assume j: "j < w"
  have le: "x * w \<le> k * w + j \<longleftrightarrow> x \<le> k" and lt: "k * w + j < x * w \<longleftrightarrow> k < x" for x
  proof -
    have "(k * w + j) div w = k" using j by simp
    then show "x * w \<le> k * w + j \<longleftrightarrow> x \<le> k" using less_eq_div_iff_mult_less_eq [of w x "k * w + j"] j by simp
    then show "k * w + j < x * w \<longleftrightarrow> k < x" by (metis not_le)
  qed
  have e: "8 * (x * B) = x * w" "8 * (x * B + y * B) = (x + y) * w" for x y
    using w(2) by (simp_all add: algebra_simps)
  have "k * w + j - to * w + from * w = (k - to + from) * w + j" if "to \<le> k"
  proof -
    from that obtain d where "k = to + d" by (auto simp: le_iff_add)
    then show ?thesis by (simp add: add_mult_distrib)
  qed
  then show "mbit (write_mem m (data + to * B) (read_mem m (data + from * B) (cnt * B))) data (k * w + j) =
      mbit m data ((if to \<le> k \<and> k < to + cnt then k - to + from else k) * w + j)"
    unfolding mbit_memmove e by (simp add: le lt)
qed

lemma get_move_up:
  assumes w: "valid_width w" and n: "ndx \<le> n" "k \<noteq> ndx" "k \<le> n"
  shows "get_direct w (h_mem (move_up a w n ndx h)) (m_data a) k =
    get_direct w (h_mem h) (m_data a) (if k < ndx then k else k - 1)"
proof -
  consider "w = 0" | "w \<in> {1, 2, 4}" | "w = 8 \<or> w = 16 \<or> w = 32 \<or> w = 64"
    using w by (auto simp: valid_width_def)
  then show ?thesis
  proof cases
    case 1
    then show ?thesis by (simp add: width_0)
  next
    case 2
    then have "0 < w" "w < 8" by auto
    then show ?thesis
      using n get_open_bit_gap [OF 2, of ndx n k] by (cases "ndx = n") (simp_all add: move_up_def)
  next
    case 3
    define B where "B = w div 8"
    have B: "w = 8 * B" "0 < B"
      "(if w = 64 then 8 else if w = 32 then 4 else if w = 16 then 2 else 1) = B"
      using 3 by (auto simp: B_def)
    have m: "h_mem (move_up a w n ndx h) =
        (if ndx = n then h_mem h else write_mem (h_mem h) (m_data a + (ndx + 1) * B)
           (read_mem (h_mem h) (m_data a + ndx * B) ((n - ndx) * B)))"
    proof -
      have "ndx * B \<le> n * B" using n(1) by simp
      moreover from this have "m_data a + n * B + B - (n * B - ndx * B) = m_data a + (ndx + 1) * B" by simp
      moreover have "\<not> w < 8" using B by simp
      ultimately show ?thesis unfolding move_up_def B(3) Let_def by (auto simp: diff_mult_distrib)
    qed
    show ?thesis
      unfolding m using n get_memmove [OF w B(1,2), of "h_mem h" "m_data a" "ndx + 1" ndx "n - ndx" k]
      by (cases "k < ndx") auto
  qed
qed

lemma get_move_loop:
  assumes w: "valid_width (m_width a)" and "to \<le> b"
  shows "get_direct (m_width a) (h_mem (move_loop a [b..<e] to h)) (m_data a) k =
    get_direct (m_width a) (h_mem h) (m_data a) (if to \<le> k \<and> k < to + (e - b) then k - to + b else k)"
  using assms(2)
proof (induction "e - b" arbitrary: b to h)
  case (Suc n)
  then have "b < e" by simp
  then have step: "[b..<e] = b # [Suc b..<e]" by (simp add: upt_rec)
  let ?v = "get_direct (m_width a) (h_mem h) (m_data a) b"
  have put: "get_direct (m_width a) (set_direct (m_width a) (h_mem h) (m_data a) to ?v) (m_data a) i =
      (if i = to then ?v else get_direct (m_width a) (h_mem h) (m_data a) i)" for i
    by (rule get_set_direct [OF w fits_get_direct [OF w]])
  have m: "n = e - Suc b" using Suc.hyps(2) by simp
  have IH: "get_direct (m_width a) (h_mem (move_loop a [Suc b..<e] (Suc to) h')) (m_data a) k =
      get_direct (m_width a) (h_mem h') (m_data a) (if Suc to \<le> k \<and> k < Suc to + n then k - Suc to + Suc b else k)" for h' :: "'a heap"
    using Suc.hyps(1) [OF m, of "Suc to" h'] Suc.prems unfolding m [symmetric] by simp
  have n: "e - b = Suc n" using Suc.hyps(2) by simp
  have res: "get_direct (m_width a) (h_mem (move_loop a [b..<e] to h)) (m_data a) k =
      get_direct (m_width a) (set_direct (m_width a) (h_mem h) (m_data a) to ?v) (m_data a)
        (if Suc to \<le> k \<and> k < Suc to + n then k - Suc to + Suc b else k)"
    unfolding step move_loop.simps Let_def using IH [of "array_put a to ?v h"] by simp
  show ?case
  proof (cases "to < k")
    case True
    then obtain d where "k = Suc (to + d)" by (auto simp: less_iff_Suc_add)
    then show ?thesis using Suc.prems res unfolding n by (simp add: put)
  next
    case False
    then show ?thesis using Suc.prems res unfolding n by (simp add: put)
  qed
qed auto

lemma h_alloc_move [simp]:
  "h_alloc (move_loop a is to h) = h_alloc h" "h_alloc (move_up a w n ndx h) = h_alloc h"
  by (induction a "is" to h rule: move_loop.induct) (simp_all add: move_up_def Let_def)

subsection \<open>The rest of the memory\<close>

text \<open>
  All loops stay inside the payload, \<open>data\<close> to \<open>data + size\<close> with \<open>size\<close> the bytes of the
  elements rounded up to a word.
\<close>

definition payload_bytes :: "nat \<Rightarrow> nat \<Rightarrow> nat" where
  "payload_bytes n w = (n * w + 7) div 8"

lemma payload_bytes_mono: "n \<le> n' \<Longrightarrow> payload_bytes n w \<le> payload_bytes n' w"
  unfolding payload_bytes_def by (intro div_le_mono) simp

lemma set_direct_outside:
  assumes "valid_width w" "i < n" "x < data \<or> data + payload_bytes n w \<le> x"
  shows "set_direct w m data i v x = m x"
proof (rule set_direct_frame [OF assms(1)])
  have "payload_bytes (i + 1) w \<le> payload_bytes n w" using assms(2) by (intro payload_bytes_mono) simp
  then have "(i * w + w + 7) div 8 \<le> payload_bytes n w" by (simp add: payload_bytes_def add.commute)
  with assms(3) show "x < data + i * w div 8 \<or> data + (i * w + w + 7) div 8 \<le> x" by auto
qed

lemma expand_loop_outside:
  assumes "valid_width (m_width a)" "x < m_data a \<or> m_data a + payload_bytes (n + shift) (m_width a) \<le> x"
  shows "h_mem (expand_loop ow a shift stop n h) x = h_mem h x"
  using assms(2)
proof (induction n arbitrary: h)
  case (Suc i)
  then have "x < m_data a \<or> m_data a + payload_bytes (i + shift) (m_width a) \<le> x"
    using payload_bytes_mono [of "i + shift" "Suc i + shift" "m_width a"] by auto
  with Suc show ?case by (simp add: Let_def set_direct_outside [OF assms(1), of _ "Suc (i + shift)"])
qed simp

lemma move_loop_outside:
  assumes "valid_width (m_width a)" "x < m_data a \<or> m_data a + payload_bytes (to + length is) (m_width a) \<le> x"
  shows "h_mem (move_loop a is to h) x = h_mem h x"
  using assms(2)
proof (induction "is" arbitrary: to h)
  case (Cons i "is")
  then show ?case by (simp add: Let_def set_direct_outside [OF assms(1), of _ "to + length (i # is)"])
qed simp

lemma write_u64_outside: "x < p \<or> p + 8 \<le> x \<Longrightarrow> write_u64 m p w x = m x"
  by (auto simp: write_u64_def write_mem_def)

lemma gap_loop_outside: "x < data \<or> data + 8 * Suc l \<le> x \<Longrightarrow> gap_loop data w f l m x = m x"
proof (induction l arbitrary: m)
  case (Suc l)
  then have "x < data \<or> data + 8 * Suc l \<le> x" "x < data + 8 * Suc l \<or> data + 8 * Suc l + 8 \<le> x" by auto
  then show ?case by (simp add: Suc.IH write_u64_outside del: mult_Suc_right)
qed simp

lemma payload_words:
  assumes "payload_bytes n w \<le> 8 * c" "0 < n * w"
  shows "(n * w - 1) div 64 < c"
proof -
  have "n * w \<le> 8 * ((n * w + 7) div 8)" by simp
  also have "\<dots> \<le> 8 * (8 * c)" using assms(1) by (simp add: payload_bytes_def)
  finally have "n * w - 1 < c * 64" using assms(2) by linarith
  then show ?thesis by (rule less_mult_imp_div_less)
qed

lemma move_up_outside:
  assumes w: "valid_width w" and n: "ndx \<le> n" "payload_bytes (n + 1) w \<le> 8 * c"
    and x: "x < m_data a \<or> m_data a + 8 * c \<le> x"
  shows "h_mem (move_up a w n ndx h) x = h_mem h x"
proof (cases "w < 8")
  case True
  have "open_bit_gap (m_data a) (n * w) (ndx * w) w (h_mem h) x = h_mem h x" if "0 < w" "ndx < n"
  proof -
    let ?l = "(n * w + w - 1) div 64" and ?f = "ndx * w div 64"
    have "((n + 1) * w - 1) div 64 < c" using n(2) that by (intro payload_words) simp_all
    then have l: "?l < c" by (simp add: add.commute)
    have "ndx * w \<le> n * w + w - 1" using that mult_le_mono1 [OF n(1), of w] by linarith
    then have "?f \<le> ?l" by (rule div_le_mono)
    with l have "8 * Suc ?l \<le> 8 * c" "8 * ?f + 8 \<le> 8 * c" by simp_all
    with x have "x < m_data a \<or> m_data a + 8 * Suc ?l \<le> x" "x < m_data a + 8 * ?f \<or> m_data a + 8 * ?f + 8 \<le> x"
      by linarith+
    then show ?thesis by (simp add: open_bit_gap_def Let_def write_u64_outside gap_loop_outside)
  qed
  with True n(1) show ?thesis by (simp add: move_up_def)
next
  case False
  define B where "B = w div 8"
  have B: "w = 8 * B" "0 < B" "(if w = 64 then 8 else if w = 32 then 4 else if w = 16 then 2 else 1) = B"
    using w False by (auto simp: B_def valid_width_def)
  have "payload_bytes (n + 1) w = (n + 1) * B"
    using bytes_range(2) [of n B] by (simp add: payload_bytes_def B(1) add.commute)
  then have top: "(n + 1) * B \<le> 8 * c" using n(2) by simp
  have le: "ndx * B \<le> n * B" using n(1) by simp
  have "m_data a + n * B + B - (n * B - ndx * B) = m_data a + ndx * B + B" using le by simp
  with x top le False show ?thesis
    unfolding move_up_def B(3) Let_def by (auto simp: write_mem_def)
qed

end
