(* ===== verification/Array_Spec.thy ===== *)
theory Array_Spec
  imports Array_Payload
begin

text \<open>
  What the integer array is to its users: a well-formed node in a block of the allocator, and
  the list of the integers it holds. An allocator is an interface, the locale
  \<open>allocator\<close>: the blocks it has handed out are disjoint, a new block overlaps none of them,
  freeing one keeps the others, and a request fails only when the file would grow too large.
  The lemmas of the locale here are those of a node as a whole: copying it on write, moving it
  to a larger block, and changing the inside of its block.
\<close>

subsection \<open>Well-formed arrays\<close>

definition arr_ok :: "mem \<Rightarrow> arr \<Rightarrow> bool" where
  "arr_ok m a \<longleftrightarrow> m_size a = get_size_from_header m (m_ref a) \<and> m_width a = get_width_from_header m (m_ref a) \<and>
     get_wtype_from_header m (m_ref a) = wtype_Bits \<and> valid_width (m_width a) \<and>
     m_lbound a = lbound_for_width (m_width a) \<and> m_ubound a = ubound_for_width (m_width a)"

definition contents :: "mem \<Rightarrow> arr \<Rightarrow> int list" where
  "contents m a = elems (m_width a) m (m_data a) (m_size a)"

text \<open>The number of bytes the allocator is told when the node at \<open>ref\<close> is freed.\<close>

definition node_len :: "'s allocator_ops \<Rightarrow> 's heap \<Rightarrow> nat \<Rightarrow> nat" where
  "node_len ops h ref =
     (if op_is_read_only ops (h_alloc h) ref then get_byte_size_from_header (h_mem h) ref
      else get_capacity_from_header (h_mem h) ref)"

definition array_at :: "'s allocator_ops \<Rightarrow> ('s \<Rightarrow> nat \<Rightarrow> nat \<Rightarrow> bool) \<Rightarrow> 's heap \<Rightarrow> arr \<Rightarrow> bool" where
  "array_at ops block h a \<longleftrightarrow> arr_ok (h_mem h) a \<and> block (h_alloc h) (m_ref a) (node_len ops h (m_ref a)) \<and>
     calc_byte_len (m_size a) (m_width a) \<le> node_len ops h (m_ref a)"

definition writable_array :: "'s allocator_ops \<Rightarrow> ('s \<Rightarrow> nat \<Rightarrow> nat \<Rightarrow> bool) \<Rightarrow> 's heap \<Rightarrow> arr \<Rightarrow> bool" where
  "writable_array ops block h a \<longleftrightarrow>
     array_at ops block h a \<and> \<not> op_is_read_only ops (h_alloc h) (m_ref a)"

lemma writable_array_iff:
  "writable_array ops block h a \<longleftrightarrow> arr_ok (h_mem h) a \<and> \<not> op_is_read_only ops (h_alloc h) (m_ref a) \<and>
     block (h_alloc h) (m_ref a) (get_capacity_from_header (h_mem h) (m_ref a)) \<and>
     calc_byte_len (m_size a) (m_width a) \<le> get_capacity_from_header (h_mem h) (m_ref a)"
  by (auto simp: writable_array_def array_at_def node_len_def)

text \<open>The other blocks: they stay allocated and keep every byte.\<close>

definition kept :: "'s allocator_ops \<Rightarrow> ('s \<Rightarrow> nat \<Rightarrow> nat \<Rightarrow> bool) \<Rightarrow> 's heap \<Rightarrow> 's heap \<Rightarrow> nat \<Rightarrow> nat \<Rightarrow> bool" where
  "kept ops block h h' ref ref' \<longleftrightarrow>
     (\<forall>r k. block (h_alloc h) r k \<and> r \<noteq> ref \<longrightarrow>
        block (h_alloc h') r k \<and> r \<noteq> ref' \<and>
        op_is_read_only ops (h_alloc h') r = op_is_read_only ops (h_alloc h) r \<and>
        (\<forall>x. r \<le> x \<and> x < r + k \<longrightarrow> h_mem h' x = h_mem h x))"

lemma kept_refl: "kept ops block h h ref ref"
  by (simp add: kept_def)

lemma kept_trans: "kept ops block h h1 r r1 \<Longrightarrow> kept ops block h1 h2 r1 r2 \<Longrightarrow> kept ops block h h2 r r2"
  unfolding kept_def by metis

lemma capacity_dvd: "8 dvd get_capacity_from_header m h"
proof -
  have "push_bit 19 n = 8 * push_bit 16 n" "push_bit 11 n = 8 * push_bit 8 n" "push_bit 3 n = 8 * n" for n :: nat
    by (simp_all add: push_bit_eq_mult)
  then show ?thesis unfolding get_capacity_from_header_def by (simp only: dvd_add dvd_triv_left)
qed

lemma round_up_8: "(x :: nat) \<le> (x + 7) div 8 * 8" "(x + 7) div 8 * 8 \<le> x + 7"
proof -
  have "(x + 7) div 8 * 8 + (x + 7) mod 8 = x + 7" by (rule div_mult_mod_eq)
  moreover have "(x + 7) mod 8 < 8" by simp
  ultimately show "x \<le> (x + 7) div 8 * 8" "(x + 7) div 8 * 8 \<le> x + 7" by linarith+
qed

lemma calc_byte_len_payload: "calc_byte_len n w = payload_bytes n w + 8"
  by (simp add: calc_byte_len_def payload_bytes_def header_size_def Let_def)

lemma calc_byte_size_bits: "calc_byte_size wtype_Bits n w = (payload_bytes n w + 7) div 8 * 8 + 8"
  by (simp add: calc_byte_size_def payload_bytes_def header_size_def Let_def drop_bit_eq_div)

lemma calc_byte_size_bounds:
  "calc_byte_len n w \<le> calc_byte_size wtype_Bits n w" "calc_byte_size wtype_Bits n w \<le> calc_byte_len n w + 7"
  "8 dvd calc_byte_size wtype_Bits n w"
proof -
  let ?p = "payload_bytes n w"
  have "?p \<le> (?p + 7) div 8 * 8" "(?p + 7) div 8 * 8 \<le> ?p + 7" by (rule round_up_8)+
  then show "calc_byte_len n w \<le> calc_byte_size wtype_Bits n w"
    "calc_byte_size wtype_Bits n w \<le> calc_byte_len n w + 7" "8 dvd calc_byte_size wtype_Bits n w"
    by (simp_all add: calc_byte_len_payload calc_byte_size_bits)
qed

lemma calc_byte_size_le: "calc_byte_len n w \<le> c \<Longrightarrow> 8 dvd c \<Longrightarrow> calc_byte_size wtype_Bits n w \<le> c"
proof -
  assume c: "calc_byte_len n w \<le> c" "8 dvd c"
  obtain d where d: "c = 8 * d" using c(2) by (elim dvdE)
  obtain e where e: "calc_byte_size wtype_Bits n w = 8 * e" using calc_byte_size_bounds(3) by (metis dvdE)
  have "8 * e < 8 * d + 8" using calc_byte_size_bounds(2) [of n w] c(1) unfolding d e by linarith
  then show ?thesis unfolding d e by simp
qed

lemma header_eqI:
  assumes "\<And>i. i < 8 \<Longrightarrow> m' (r' + i) = m (r + i)"
  shows "get_size_from_header m' r' = get_size_from_header m r" "get_width_from_header m' r' = get_width_from_header m r"
    "get_wtype_from_header m' r' = get_wtype_from_header m r" "get_capacity_from_header m' r' = get_capacity_from_header m r"
    "get_byte_size_from_header m' r' = get_byte_size_from_header m r"
  using assms [of 0] assms [of 1] assms [of 2] assms [of 4] assms [of 5] assms [of 6] assms [of 7]
  by (simp_all add: header_getters get_byte_size_from_header_def)

lemma get_direct_copy:
  assumes w: "valid_width w" and i: "i < n" and same: "\<And>x. x < payload_bytes n w \<Longrightarrow> m' (d' + x) = m (d + x)"
  shows "get_direct w m' d' i = get_direct w m d i"
proof (rule get_direct_eqI [OF w])
  fix j assume j: "j < w"
  have "i * w + j < (i + 1) * w" using j by simp
  also have "\<dots> \<le> n * w" using i by (intro mult_le_mono1) simp
  finally have "i * w + j < n * w" .
  then have "(i * w + j) div 8 < payload_bytes n w" unfolding payload_bytes_def by simp
  then show "mbit m' d' (i * w + j) = mbit m d (i * w + j)" by (simp add: mbit_def same)
qed

lemma grow_capacity_ok:
  assumes "orig < needed" "8 dvd orig" "needed \<le> 2 ^ 25 - 100"
  shows "needed \<le> grow_capacity orig needed" "orig \<le> grow_capacity orig needed" "8 dvd grow_capacity orig needed"
    "grow_capacity orig needed \<le> 2 ^ 26 - 16"
proof -
  define r where "r = needed mod 8"
  have r: "r \<le> 7" "needed = needed div 8 * 8 + r" by (simp_all add: r_def)
  have up: "8 dvd needed + (8 - r)"
  proof -
    have "needed + (8 - r) = needed div 8 * 8 + 8" using r by linarith
    then show ?thesis by simp
  qed
  have g: "grow_capacity orig needed = (if orig * 2 < needed then (if r = 0 then needed else needed + (8 - r)) else orig * 2)"
    using assms(1,3) r by (auto simp: grow_capacity_def Let_def r_def max_array_payload_aligned_def)
  show "needed \<le> grow_capacity orig needed" "orig \<le> grow_capacity orig needed" "grow_capacity orig needed \<le> 2 ^ 26 - 16"
    using assms(1,3) by (auto simp: g)
  have "8 dvd needed" if "r = 0" using that by (simp add: r_def mod_eq_0_iff_dvd)
  then show "8 dvd grow_capacity orig needed" using up assms(2) by (simp add: g)
qed

lemma copy_size:
  assumes "calc_byte_len n w \<le> 2 ^ 26 - 100" "minimum \<le> 2 ^ 26 - 100"
  shows "0 < (max (calc_byte_size wtype_Bits n w) minimum + 7) div 8 * 8 + 64"
    "8 dvd (max (calc_byte_size wtype_Bits n w) minimum + 7) div 8 * 8 + 64"
    "(max (calc_byte_size wtype_Bits n w) minimum + 7) div 8 * 8 + 64 \<le> 2 ^ 26 - 16"
    "calc_byte_size wtype_Bits n w \<le> (max (calc_byte_size wtype_Bits n w) minimum + 7) div 8 * 8 + 64"
    "minimum \<le> (max (calc_byte_size wtype_Bits n w) minimum + 7) div 8 * 8 + 64"
proof -
  define x where "x = max (calc_byte_size wtype_Bits n w) minimum"
  have "calc_byte_size wtype_Bits n w \<le> x" "minimum \<le> x" "x \<le> 2 ^ 26 - 93"
    using assms calc_byte_size_bounds(2) [of n w] by (simp_all add: x_def)
  then show "0 < (max (calc_byte_size wtype_Bits n w) minimum + 7) div 8 * 8 + 64"
    "8 dvd (max (calc_byte_size wtype_Bits n w) minimum + 7) div 8 * 8 + 64"
    "(max (calc_byte_size wtype_Bits n w) minimum + 7) div 8 * 8 + 64 \<le> 2 ^ 26 - 16"
    "calc_byte_size wtype_Bits n w \<le> (max (calc_byte_size wtype_Bits n w) minimum + 7) div 8 * 8 + 64"
    "minimum \<le> (max (calc_byte_size wtype_Bits n w) minimum + 7) div 8 * 8 + 64"
    using round_up_8 [of x] unfolding x_def [symmetric] by simp_all
qed

definition same_payload :: "mem \<Rightarrow> arr \<Rightarrow> mem \<Rightarrow> arr \<Rightarrow> bool" where
  "same_payload m a m' a' \<longleftrightarrow>
     (\<forall>x<payload_bytes (m_size a) (m_width a). m' (m_data a' + x) = m (m_data a + x))"

lemma same_payload_get:
  "same_payload m a m' a' \<Longrightarrow> valid_width (m_width a) \<Longrightarrow> i < m_size a \<Longrightarrow>
   get_direct (m_width a) m' (m_data a') i = get_direct (m_width a) m (m_data a) i"
  unfolding same_payload_def by (rule get_direct_copy) auto

lemma m_data_eq: "m_data a = m_ref a + 8"
  by (simp add: m_data_def get_data_from_header_def header_size_def)

lemma payload_in_byte_size:
  "x < payload_bytes n w \<Longrightarrow> x + 8 < calc_byte_size wtype_Bits n w"
  using calc_byte_size_bounds(1) [of n w] by (simp add: calc_byte_len_payload)

definition insert_at :: "nat \<Rightarrow> 'a \<Rightarrow> 'a list \<Rightarrow> 'a list" where
  "insert_at i x xs = take i xs @ x # drop i xs"

definition erase_range :: "nat \<Rightarrow> nat \<Rightarrow> 'a list \<Rightarrow> 'a list" where
  "erase_range b e xs = take b xs @ drop e xs"

lemma length_insert_at [simp]: "i \<le> length xs \<Longrightarrow> length (insert_at i x xs) = Suc (length xs)"
  by (simp add: insert_at_def)

lemma nth_insert_at:
  "i \<le> length xs \<Longrightarrow> insert_at i x xs ! k = (if k < i then xs ! k else if k = i then x else xs ! (k - 1))"
  by (auto simp: insert_at_def nth_append min_def nth_Cons' less_diff_conv2 not_less)

lemma length_erase_range [simp]: "b \<le> e \<Longrightarrow> e \<le> length xs \<Longrightarrow> length (erase_range b e xs) = length xs - (e - b)"
  by (simp add: erase_range_def)

lemma nth_erase_range:
  "b \<le> e \<Longrightarrow> e \<le> length xs \<Longrightarrow> k < length xs - (e - b) \<Longrightarrow>
   erase_range b e xs ! k = xs ! (if k < b then k else k - b + e)"
  by (auto simp: erase_range_def nth_append min_def add.commute)

lemma h_alloc_conv: "h_alloc (h\<lparr>h_mem := m\<rparr>) = h_alloc h"
  by simp

lemma bit_7: "bit (7 :: nat) k \<longleftrightarrow> k < 3"
proof -
  have "(7 :: nat) = mask 3" by (simp add: mask_eq_exp_minus_1)
  then show ?thesis by (simp only: bit_mask_iff) simp
qed

lemma or_7: "(x OR 7) + 1 = x div 8 * 8 + (8 :: nat)"
proof -
  have "x OR 7 = push_bit 3 (drop_bit 3 x) OR 7"
  proof (rule bit_eqI)
    fix k :: nat
    show "bit (x OR 7) k = bit (push_bit 3 (drop_bit 3 x) OR 7) k"
      by (cases "k < 3") (simp_all only: bit_or_iff bit_7 bit_push_bit_iff_nat bit_drop_bit_eq o_def, simp_all)
  qed
  also have "\<dots> = push_bit 3 (drop_bit 3 x) + 7"
    by (rule disjunctive_add [symmetric]) (simp only: bit_push_bit_iff_nat bit_7, simp)
  finally show ?thesis by (simp add: push_bit_eq_mult drop_bit_eq_div)
qed

lemma ceil_div: "0 < q \<Longrightarrow> (if n mod q \<noteq> 0 then n div q + 1 else n div q) = (n + q - 1) div (q :: nat)"
proof -
  assume q: "0 < q"
  define r where "r = n mod q"
  have n: "n = r + n div q * q" "r < q" using q by (simp_all add: r_def)
  have "(n + q - 1) div q = (r + q - 1) div q + n div q"
  proof -
    have "n + q - 1 = (r + q - 1) + n div q * q" using n q by linarith
    then show ?thesis using q by (simp only: div_mult_self1)
  qed
  moreover have "(r + q - 1) div q = (if r \<noteq> 0 then 1 else 0)"
    using n(2) q by (auto simp: div_nat_eqI)
  ultimately show ?thesis by (simp add: r_def)
qed

lemma calc_aligned_byte_size_ok:
  assumes "valid_width w" "0 < w" "n \<le> 4000000"
  shows "calc_aligned_byte_size n w = Inr (calc_byte_size wtype_Bits n w)"
proof -
  let ?p = "payload_bytes n w"
  have p: "?p \<le> 32000008"
  proof -
    have "w \<le> 64" using assms(1) by (auto simp: valid_width_def)
    then have "n * w \<le> 4000000 * 64" using assms(3) by (intro mult_le_mono) simp_all
    then have "?p \<le> (4000000 * 64 + 7) div 8" unfolding payload_bytes_def by (intro div_le_mono add_right_mono)
    then show ?thesis by simp
  qed
  have al: "((header_size + ?p - 1) OR 7) + 1 = calc_byte_size wtype_Bits n w"
  proof -
    have "header_size + ?p - 1 = ?p + 7" by (simp add: header_size_def)
    then show ?thesis unfolding or_7 calc_byte_size_bits by simp
  qed
  show ?thesis
  proof (cases "w < 8")
    case True
    then obtain q where q: "w * q = 8" "8 div w = q" "0 < q"
      using assms by (auto simp: valid_width_def)
    have "(n + q - 1) div q = ?p"
    proof -
      have "(n * w + 7) div 8 = (n * w + 7) div w div q" by (simp add: div_mult2_eq [symmetric] q(1))
      also have "(n * w + 7) div w = n + 7 div w" using assms(2) by simp
      also have "7 div w = q - 1" using q assms(1,2) True by (auto simp: valid_width_def)
      finally show ?thesis using q(3) by (simp add: payload_bytes_def)
    qed
    with True al p show ?thesis
      unfolding calc_aligned_byte_size_def Let_def q(2) ceil_div [OF q(3)] by (simp add: header_size_def)
  next
    case False
    then obtain B where B: "w = 8 * B" "w div 8 = B" "0 < B" using assms(1) by (auto simp: valid_width_def)
    have pb: "?p = n * B"
    proof -
      have "n * w + 7 = 7 + n * B * 8" by (simp add: B(1))
      then show ?thesis unfolding payload_bytes_def by (simp only: div_mult_self1 zero_neq_numeral)
    qed
    have "n \<le> (2 ^ 64 - 8 - header_size) div B"
    proof -
      have "B \<le> 8" using assms(1) B(1) by (auto simp: valid_width_def)
      then have "(2 ^ 64 - 8 - header_size) div 8 \<le> (2 ^ 64 - 8 - header_size) div B"
        using B(3) by (intro div_le_mono2) simp_all
      moreover have "4000000 \<le> (2 ^ 64 - 8 - header_size) div 8" by (simp add: header_size_def)
      ultimately show ?thesis using assms(3) by linarith
    qed
    with False al show ?thesis
      unfolding calc_aligned_byte_size_def Let_def B(2) pb by simp
  qed
qed

subsection \<open>The allocator interface\<close>

locale allocator =
  fixes ops :: "'s allocator_ops" and ok :: "'s \<Rightarrow> bool" and block :: "'s \<Rightarrow> nat \<Rightarrow> nat \<Rightarrow> bool"
  assumes alloc_block: "ok s \<Longrightarrow> 0 < n \<Longrightarrow> 8 dvd n \<Longrightarrow> n \<le> 2 ^ 26 - 16 \<Longrightarrow> op_alloc ops n s = Inr (ref, s') \<Longrightarrow>
      ok s' \<and> block s' ref n \<and> \<not> op_is_read_only ops s' ref"
    and alloc_fresh: "ok s \<Longrightarrow> 0 < n \<Longrightarrow> 8 dvd n \<Longrightarrow> n \<le> 2 ^ 26 - 16 \<Longrightarrow> op_alloc ops n s = Inr (ref, s') \<Longrightarrow>
      block s r k \<Longrightarrow> block s' r k \<and> op_is_read_only ops s' r = op_is_read_only ops s r \<and> (r + k \<le> ref \<or> ref + n \<le> r)"
    and free_returns: "ok s \<Longrightarrow> block s r k \<Longrightarrow> \<exists>s'. op_free ops r k s = Inr s' \<and> ok s'"
    and free_keeps: "ok s \<Longrightarrow> block s r k \<Longrightarrow> op_free ops r k s = Inr s' \<Longrightarrow> block s r' k' \<Longrightarrow> r' \<noteq> r \<Longrightarrow>
      block s' r' k' \<and> op_is_read_only ops s' r' = op_is_read_only ops s r'"
    and block_disjoint: "ok s \<Longrightarrow> block s r k \<Longrightarrow> block s r' k' \<Longrightarrow> r \<noteq> r' \<Longrightarrow> r + k \<le> r' \<or> r' + k' \<le> r"
    and block_pos: "ok s \<Longrightarrow> block s r k \<Longrightarrow> 0 < k"
    and alloc_error: "ok s \<Longrightarrow> 0 < n \<Longrightarrow> 8 dvd n \<Longrightarrow> n \<le> 2 ^ 26 - 16 \<Longrightarrow> op_alloc ops n s = Inl e \<Longrightarrow>
      e = MaximumFileSizeExceeded"
begin

lemma alloc_other:
  assumes "ok (h_alloc h)" "op_alloc ops c (h_alloc h) = Inr (ref, s)" "0 < c" "8 dvd c" "c \<le> 2 ^ 26 - 16"
    and "block (h_alloc h) r k"
  shows "block s r k" "op_is_read_only ops s r = op_is_read_only ops (h_alloc h) r" "r \<noteq> ref"
    "r + k \<le> ref \<or> ref + c \<le> r"
proof -
  show f: "block s r k" "op_is_read_only ops s r = op_is_read_only ops (h_alloc h) r" "r + k \<le> ref \<or> ref + c \<le> r"
    using alloc_fresh [OF assms(1,3-5,2,6)] by simp_all
  show "r \<noteq> ref" using f(3) block_pos [OF assms(1,6)] assms(3) by auto
qed

lemma node_len_dvd: "arr_ok (h_mem h) a \<Longrightarrow> 8 dvd node_len ops h (m_ref a)"
  by (simp add: node_len_def get_byte_size_from_header_def arr_ok_def capacity_dvd calc_byte_size_bounds)

lemma byte_size_le_node_len:
  "array_at ops block h a \<Longrightarrow> calc_byte_size wtype_Bits (m_size a) (m_width a) \<le> node_len ops h (m_ref a)"
  unfolding array_at_def by (intro calc_byte_size_le node_len_dvd) auto

text \<open>
  Moving a node to a new block: the first \<open>n\<close> bytes are copied, the capacity is entered in the
  header, and the old block is freed.
\<close>

lemma move_node:
  assumes okh: "ok (h_alloc h)" and at: "array_at ops block h a"
    and al: "op_alloc ops c (h_alloc h) = Inr (ref, s)" and c: "0 < c" "8 dvd c" "c \<le> 2 ^ 26 - 16"
    and n: "calc_byte_size wtype_Bits (m_size a) (m_width a) \<le> n" "n \<le> node_len ops h (m_ref a)" "n \<le> c"
    and m1: "m1 = write_mem (h_mem h) ref (read_mem (h_mem h) (m_ref a) n)" and m2: "m2 = set_capacity_in_header c m1 ref"
    and fr: "op_free ops (m_ref a) (node_len ops h (m_ref a)) s = Inr s'"
  shows "ok s'" "writable_array ops block \<lparr>h_mem = m2, h_alloc = s'\<rparr> (a\<lparr>m_ref := ref, m_missing_parent_update := u\<rparr>)"
    "get_capacity_from_header m2 ref = c" "same_payload (h_mem h) a m2 (a\<lparr>m_ref := ref, m_missing_parent_update := u\<rparr>)"
    "kept ops block h \<lparr>h_mem = m2, h_alloc = s'\<rparr> (m_ref a) ref"
proof -
  let ?k = "node_len ops h (m_ref a)"
  have blk: "block (h_alloc h) (m_ref a) ?k" and aok: "arr_ok (h_mem h) a" using at by (simp_all add: array_at_def)
  note new = alloc_block [OF okh c al]
  note other = alloc_other [OF okh al c]
  have free: "block s' r k" "op_is_read_only ops s' r = op_is_read_only ops s r" if "block s r k" "r \<noteq> m_ref a" for r k
    using free_keeps [OF _ other(1) [OF blk] fr that] new by simp_all
  show "ok s'" using free_returns [OF _ other(1) [OF blk]] new fr by auto
  have old: "m_ref a \<noteq> ref" by (rule other(3) [OF blk])
  have outside: "m2 x = h_mem h x" if "x < ref \<or> ref + c \<le> x" for x
    using that n(3) c unfolding m2 m1 by (auto simp: setters_frame write_mem_def dest!: dvd_imp_le)
  have inside: "m1 (ref + i) = h_mem h (m_ref a + i)" if "i < n" for i
    using that by (simp add: m1 write_mem_def)
  have n8: "8 \<le> n" using n(1) calc_byte_size_bounds(1) [of "m_size a" "m_width a"] by (simp add: calc_byte_len_payload)
  have hdr: "get_size_from_header m1 ref = get_size_from_header (h_mem h) (m_ref a)"
    "get_width_from_header m1 ref = get_width_from_header (h_mem h) (m_ref a)"
    "get_wtype_from_header m1 ref = get_wtype_from_header (h_mem h) (m_ref a)"
    by (rule header_eqI; use inside n8 in simp)+
  show cap: "get_capacity_from_header m2 ref = c"
    using c unfolding m2 by (intro get_capacity_set_capacity) auto
  have len: "calc_byte_len (m_size a) (m_width a) \<le> c"
    using n(1,3) calc_byte_size_bounds(1) [of "m_size a" "m_width a"] by linarith
  have ro: "\<not> op_is_read_only ops s' ref" using free new old by metis
  show "writable_array ops block \<lparr>h_mem = m2, h_alloc = s'\<rparr> (a\<lparr>m_ref := ref, m_missing_parent_update := u\<rparr>)"
    using aok hdr cap len ro free(1) new old
    by (simp add: writable_array_def array_at_def arr_ok_def node_len_def m2 size_frame byte4_frames valid_width_from_header)
  show "same_payload (h_mem h) a m2 (a\<lparr>m_ref := ref, m_missing_parent_update := u\<rparr>)"
    unfolding same_payload_def
  proof (intro allI impI)
    fix x assume x: "x < payload_bytes (m_size a) (m_width a)"
    then have "8 + x < n" using payload_in_byte_size n(1) by fastforce
    then have "m1 (ref + (8 + x)) = h_mem h (m_ref a + (8 + x))" by (rule inside)
    then show "m2 (m_data (a\<lparr>m_ref := ref, m_missing_parent_update := u\<rparr>) + x) = h_mem h (m_data a + x)"
      by (simp add: m2 m_data_eq setters_frame add.assoc)
  qed
  show "kept ops block h \<lparr>h_mem = m2, h_alloc = s'\<rparr> (m_ref a) ref"
    unfolding kept_def
  proof (intro allI impI)
    fix r k assume rk: "block (h_alloc h) r k \<and> r \<noteq> m_ref a"
    then have "r + k \<le> ref \<or> ref + c \<le> r" using other(4) by blast
    then have "m2 x = h_mem h x" if "r \<le> x" "x < r + k" for x using that by (intro outside) auto
    then show "block (h_alloc \<lparr>h_mem = m2, h_alloc = s'\<rparr>) r k \<and> r \<noteq> ref \<and>
        op_is_read_only ops (h_alloc \<lparr>h_mem = m2, h_alloc = s'\<rparr>) r = op_is_read_only ops (h_alloc h) r \<and>
        (\<forall>x. r \<le> x \<and> x < r + k \<longrightarrow> h_mem \<lparr>h_mem = m2, h_alloc = s'\<rparr> x = h_mem h x)"
      using rk free [OF other(1), of r k] other(2,3) [of r k] by simp
  qed
qed

lemma free_old:
  assumes okh: "ok (h_alloc h)" and at: "array_at ops block h a"
    and al: "op_alloc ops c (h_alloc h) = Inr (ref, s)" and c: "0 < c" "8 dvd c" "c \<le> 2 ^ 26 - 16"
    and same: "\<And>x. x < ref \<or> ref + c \<le> x \<Longrightarrow> m' x = h_mem h x"
  obtains s' where "op_free ops (m_ref a) (node_len ops h (m_ref a)) s = Inr s'"
    "free_node ops (m_ref a) \<lparr>h_mem = m', h_alloc = s\<rparr> = Inr \<lparr>h_mem = m', h_alloc = s'\<rparr>"
proof -
  let ?k = "node_len ops h (m_ref a)"
  have blk: "block (h_alloc h) (m_ref a) ?k" using at by (simp add: array_at_def)
  note other = alloc_other [OF okh al c blk]
  have "8 \<le> ?k" using at by (simp add: array_at_def calc_byte_len_payload)
  then have "m' (m_ref a + i) = h_mem h (m_ref a + i)" if "i < 8" for i
    using other(4) that by (intro same) auto
  then have "node_len ops \<lparr>h_mem = m', h_alloc = s\<rparr> (m_ref a) = ?k"
    using header_eqI [of m' "m_ref a" "h_mem h" "m_ref a"] other(2) by (simp add: node_len_def)
  moreover obtain s' where "op_free ops (m_ref a) ?k s = Inr s'"
    using free_returns [OF _ other(1)] alloc_block [OF okh c al] by blast
  ultimately show ?thesis by (intro that) (simp_all add: free_node_def node_len_def Let_def)
qed

text \<open>What an operation guarantees about the array it returns and about everything else.\<close>

lemma do_copy_on_write_ok:
  assumes okh: "ok (h_alloc h)" and at: "array_at ops block h a"
    and small: "calc_byte_len (m_size a) (m_width a) \<le> 2 ^ 26 - 100" "minimum \<le> 2 ^ 26 - 100"
    and run: "do_copy_on_write ops minimum a h = Inr (a', h')"
  shows "ok (h_alloc h')" "writable_array ops block h' a'" "minimum \<le> get_capacity_from_header (h_mem h') (m_ref a')"
    "m_size a' = m_size a" "m_width a' = m_width a" "same_payload (h_mem h) a (h_mem h') a'"
    "kept ops block h h' (m_ref a) (m_ref a')"
proof -
  let ?n = "calc_byte_size wtype_Bits (m_size a) (m_width a)"
  define c where "c = (max ?n minimum + 7) div 8 * 8 + 64"
  have aok: "get_wtype_from_header (h_mem h) (m_ref a) = wtype_Bits" "get_width_from_header (h_mem h) (m_ref a) = m_width a"
    using at by (simp_all add: array_at_def arr_ok_def)
  note c = copy_size [OF small, folded c_def]
  obtain ref s where al: "op_alloc ops c (h_alloc h) = Inr (ref, s)"
    using run by (auto simp: do_copy_on_write_def Let_def aok c_def bind_result_eq_Inr)
  define m1 where "m1 = write_mem (h_mem h) ref (read_mem (h_mem h) (m_ref a) ?n)"
  define m2 where "m2 = set_capacity_in_header c m1 ref"
  have "8 \<le> c" by (simp add: c_def)
  then have out: "m2 x = h_mem h x" if "x < ref \<or> ref + c \<le> x" for x
    using that c(4) by (auto simp: m2_def m1_def setters_frame write_mem_def)
  obtain s' where s': "op_free ops (m_ref a) (node_len ops h (m_ref a)) s = Inr s'"
      "free_node ops (m_ref a) \<lparr>h_mem = m2, h_alloc = s\<rparr> = Inr \<lparr>h_mem = m2, h_alloc = s'\<rparr>"
    by (rule free_old [OF okh at al c(1-3) out])
  have res: "a' = a\<lparr>m_ref := ref, m_missing_parent_update := True\<rparr>" "h' = \<lparr>h_mem = m2, h_alloc = s'\<rparr>"
    using run al s'(2) by (auto simp: do_copy_on_write_def Let_def aok c_def [symmetric] m1_def [symmetric] m2_def [symmetric] update_parent_def)
  note mv = move_node [OF okh at al c(1-3) order_refl byte_size_le_node_len [OF at] c(4) m1_def m2_def s'(1)]
  show "ok (h_alloc h')" "writable_array ops block h' a'" "minimum \<le> get_capacity_from_header (h_mem h') (m_ref a')"
    "m_size a' = m_size a" "m_width a' = m_width a" "same_payload (h_mem h) a (h_mem h') a'"
    "kept ops block h h' (m_ref a) (m_ref a')"
    using mv c(5) by (simp_all add: res)
qed

lemma same_payload_trans:
  "same_payload m a m1 a1 \<Longrightarrow> m_size a1 = m_size a \<Longrightarrow> m_width a1 = m_width a \<Longrightarrow>
   same_payload m1 a1 m2 a2 \<Longrightarrow> same_payload m a m2 a2"
  by (simp add: same_payload_def)

lemma copy_on_write_cases:
  assumes "copy_on_write_min ops minimum a h = Inr (a', h')" "array_at ops block h a"
  obtains "do_copy_on_write ops minimum a h = Inr (a', h')"
    | "a' = a" "h' = h" "writable_array ops block h a"
proof (cases "op_is_read_only ops (h_alloc h) (m_ref a)")
  case True
  then show ?thesis using assms(1) by (intro that(1)) (simp add: copy_on_write_min_def)
next
  case False
  then show ?thesis using assms by (intro that(2)) (simp_all add: copy_on_write_min_def writable_array_def)
qed

lemma copy_on_write_ok:
  assumes okh: "ok (h_alloc h)" and at: "array_at ops block h a"
    and small: "calc_byte_len (m_size a) (m_width a) \<le> 2 ^ 26 - 100" "minimum \<le> 2 ^ 26 - 100"
    and run: "copy_on_write_min ops minimum a h = Inr (a', h')"
  shows "ok (h_alloc h')" "writable_array ops block h' a'" "m_size a' = m_size a" "m_width a' = m_width a"
    "same_payload (h_mem h) a (h_mem h') a'" "kept ops block h h' (m_ref a) (m_ref a')"
proof -
  have "ok (h_alloc h') \<and> writable_array ops block h' a' \<and> m_size a' = m_size a \<and> m_width a' = m_width a \<and>
      same_payload (h_mem h) a (h_mem h') a' \<and> kept ops block h h' (m_ref a) (m_ref a')"
    using run at
  proof (cases rule: copy_on_write_cases)
    case 1
    show ?thesis using do_copy_on_write_ok [OF okh at small 1] by simp
  next
    case 2
    then show ?thesis using okh by (simp add: same_payload_def kept_refl)
  qed
  then show "ok (h_alloc h')" "writable_array ops block h' a'" "m_size a' = m_size a" "m_width a' = m_width a"
    "same_payload (h_mem h) a (h_mem h') a'" "kept ops block h h' (m_ref a) (m_ref a')"
    by simp_all
qed

text \<open>Growing a writable node in place of \<^verbatim>\<open>realloc\<close>.\<close>

lemma grow_ok:
  assumes okh: "ok (h_alloc h)" and wr: "writable_array ops block h a"
    and small: "needed \<le> 2 ^ 25 - 100"
    and less: "get_capacity_from_header (h_mem h) (m_ref a) < needed"
    and c: "c = grow_capacity (get_capacity_from_header (h_mem h) (m_ref a)) needed"
    and run: "realloc ops (m_ref a) (get_capacity_from_header (h_mem h) (m_ref a)) c h = Inr (ref, h1)"
    and h': "h' = h1\<lparr>h_mem := set_capacity_in_header c (h_mem h1) ref\<rparr>"
    and a': "a' = update_parent (a\<lparr>m_ref := ref\<rparr>)"
  shows "ok (h_alloc h')" "writable_array ops block h' a'" "m_size a' = m_size a" "m_width a' = m_width a"
    "needed \<le> get_capacity_from_header (h_mem h') (m_ref a')"
    "same_payload (h_mem h) a (h_mem h') a'" "kept ops block h h' (m_ref a) (m_ref a')"
proof -
  let ?cap = "get_capacity_from_header (h_mem h) (m_ref a)"
  have at: "array_at ops block h a" and len: "node_len ops h (m_ref a) = ?cap"
    using wr by (simp_all add: writable_array_def node_len_def)
  note g = grow_capacity_ok [OF less capacity_dvd small, folded c]
  have c0: "0 < c" using g(1) less by simp
  obtain s where al: "op_alloc ops c (h_alloc h) = Inr (ref, s)"
    using run by (auto simp: realloc_def Let_def bind_result_eq_Inr)
  define m1 where "m1 = write_mem (h_mem h) ref (read_mem (h_mem h) (m_ref a) ?cap)"
  have out: "m1 x = h_mem h x" if "x < ref \<or> ref + c \<le> x" for x
    using that g(2) by (auto simp: m1_def write_mem_def)
  obtain s' where s': "op_free ops (m_ref a) (node_len ops h (m_ref a)) s = Inr s'"
      "free_node ops (m_ref a) \<lparr>h_mem = m1, h_alloc = s\<rparr> = Inr \<lparr>h_mem = m1, h_alloc = s'\<rparr>"
    by (rule free_old [OF okh at al c0 g(3,4) out])
  have res: "a' = a\<lparr>m_ref := ref, m_missing_parent_update := True\<rparr>"
      "h' = \<lparr>h_mem = set_capacity_in_header c m1 ref, h_alloc = s'\<rparr>"
    using run al s'(2) by (auto simp: realloc_def Let_def m1_def [symmetric] h' a' update_parent_def)
  have n: "calc_byte_size wtype_Bits (m_size a) (m_width a) \<le> ?cap"
    using byte_size_le_node_len [OF at] len by simp
  note mv = move_node [OF okh at al c0 g(3,4) n _ g(2) m1_def refl s'(1), unfolded len, OF order_refl]
  show "ok (h_alloc h')" "writable_array ops block h' a'" "m_size a' = m_size a" "m_width a' = m_width a"
    "needed \<le> get_capacity_from_header (h_mem h') (m_ref a')"
    "same_payload (h_mem h) a (h_mem h') a'" "kept ops block h h' (m_ref a) (m_ref a')"
    using mv g(1) by (simp_all add: res)
qed

text \<open>Both ways of moving a node fail only when the allocator cannot provide the new block.\<close>

lemma do_copy_on_write_error:
  assumes okh: "ok (h_alloc h)" and at: "array_at ops block h a"
    and small: "calc_byte_len (m_size a) (m_width a) \<le> 2 ^ 26 - 100" "minimum \<le> 2 ^ 26 - 100"
    and run: "do_copy_on_write ops minimum a h = Inl e"
  shows "e = MaximumFileSizeExceeded"
proof -
  let ?n = "calc_byte_size wtype_Bits (m_size a) (m_width a)"
  define c where "c = (max ?n minimum + 7) div 8 * 8 + 64"
  have aok: "get_wtype_from_header (h_mem h) (m_ref a) = wtype_Bits" "get_width_from_header (h_mem h) (m_ref a) = m_width a"
    using at by (simp_all add: array_at_def arr_ok_def)
  note c = copy_size [OF small, folded c_def]
  show ?thesis
  proof (cases "op_alloc ops c (h_alloc h)")
    case (Inl e')
    then have "e' = e" using run by (simp add: do_copy_on_write_def Let_def aok c_def)
    then show ?thesis using alloc_error [OF okh c(1-3) Inl] by simp
  next
    case (Inr p)
    obtain ref s where p: "p = (ref, s)" by (cases p)
    define m2 where "m2 = set_capacity_in_header c (write_mem (h_mem h) ref (read_mem (h_mem h) (m_ref a) ?n)) ref"
    have "8 \<le> c" by (simp add: c_def)
    then have out: "m2 x = h_mem h x" if "x < ref \<or> ref + c \<le> x" for x
      using that c(4) by (auto simp: m2_def setters_frame write_mem_def)
    obtain s' where "free_node ops (m_ref a) \<lparr>h_mem = m2, h_alloc = s\<rparr> = Inr \<lparr>h_mem = m2, h_alloc = s'\<rparr>"
      by (rule free_old [OF okh at Inr [unfolded p] c(1-3) out])
    then show ?thesis using run Inr
      by (simp add: do_copy_on_write_def Let_def aok c_def [symmetric] m2_def [symmetric] p)
  qed
qed

lemma node_grow_error:
  assumes okh: "ok (h_alloc h)" and wr: "writable_array ops block h a" and small: "needed \<le> 2 ^ 25 - 100"
    and run: "node_grow ops needed a h = Inl e"
  shows "e = MaximumFileSizeExceeded"
proof -
  let ?cap = "get_capacity_from_header (h_mem h) (m_ref a)"
  define c where "c = grow_capacity ?cap needed"
  have at: "array_at ops block h a" using wr by (simp add: writable_array_def)
  have less: "?cap < needed" using run by (auto simp: node_grow_def Let_def split: if_splits)
  have re: "realloc ops (m_ref a) ?cap c h = Inl e"
    using run less by (cases "realloc ops (m_ref a) ?cap c h") (auto simp: node_grow_def Let_def c_def)
  note g = grow_capacity_ok [OF less capacity_dvd small, folded c_def]
  have c0: "0 < c" using g(1) less by simp
  show ?thesis
  proof (cases "op_alloc ops c (h_alloc h)")
    case (Inl e')
    then show ?thesis using re alloc_error [OF okh c0 g(3,4) Inl] by (simp add: realloc_def)
  next
    case (Inr p)
    obtain ref s where p: "p = (ref, s)" by (cases p)
    define m1 where "m1 = write_mem (h_mem h) ref (read_mem (h_mem h) (m_ref a) ?cap)"
    have out: "m1 x = h_mem h x" if "x < ref \<or> ref + c \<le> x" for x
      using that g(2) by (auto simp: m1_def write_mem_def)
    obtain s' where "free_node ops (m_ref a) \<lparr>h_mem = m1, h_alloc = s\<rparr> = Inr \<lparr>h_mem = m1, h_alloc = s'\<rparr>"
      by (rule free_old [OF okh at Inr [unfolded p] c0 g(3,4) out])
    then show ?thesis using re Inr by (simp add: realloc_def Let_def p m1_def [symmetric])
  qed
qed

text \<open>Changes inside a writable node: the header keeps its capacity, the payload may change.\<close>

lemma inside_update:
  assumes okh: "ok (h_alloc h)" and wr: "writable_array ops block h a" and ref: "m_ref a' = m_ref a"
    and out: "\<And>x. x < m_ref a \<or> m_ref a + get_capacity_from_header (h_mem h) (m_ref a) \<le> x \<Longrightarrow> m' x = h_mem h x"
    and cap: "get_capacity_from_header m' (m_ref a) = get_capacity_from_header (h_mem h) (m_ref a)"
    and aok: "arr_ok m' a'" "calc_byte_len (m_size a') (m_width a') \<le> get_capacity_from_header (h_mem h) (m_ref a)"
  shows "writable_array ops block (h\<lparr>h_mem := m'\<rparr>) a'" "kept ops block h (h\<lparr>h_mem := m'\<rparr>) (m_ref a) (m_ref a)"
proof -
  let ?cap = "get_capacity_from_header (h_mem h) (m_ref a)"
  have blk: "block (h_alloc h) (m_ref a) ?cap" using wr by (simp add: writable_array_iff)
  show "writable_array ops block (h\<lparr>h_mem := m'\<rparr>) a'"
    using wr aok ref cap by (simp add: writable_array_iff)
  show "kept ops block h (h\<lparr>h_mem := m'\<rparr>) (m_ref a) (m_ref a)"
    unfolding kept_def
  proof (intro allI impI)
    fix r k assume rk: "block (h_alloc h) r k \<and> r \<noteq> m_ref a"
    then have "r + k \<le> m_ref a \<or> m_ref a + ?cap \<le> r" using block_disjoint [OF okh _ blk] by blast
    then have "m' x = h_mem h x" if "r \<le> x" "x < r + k" for x using that by (intro out) auto
    with rk show "block (h_alloc (h\<lparr>h_mem := m'\<rparr>)) r k \<and> r \<noteq> m_ref a \<and>
        op_is_read_only ops (h_alloc (h\<lparr>h_mem := m'\<rparr>)) r = op_is_read_only ops (h_alloc h) r \<and>
        (\<forall>x. r \<le> x \<and> x < r + k \<longrightarrow> h_mem (h\<lparr>h_mem := m'\<rparr>) x = h_mem h x)"
      by simp
  qed
qed

lemma node_grow_ok:
  assumes okh: "ok (h_alloc h)" and wr: "writable_array ops block h a" and small: "needed \<le> 2 ^ 25 - 100"
    and run: "node_grow ops needed a h = Inr (a', h')"
  shows "ok (h_alloc h') \<and> writable_array ops block h' a' \<and> m_size a' = m_size a \<and> m_width a' = m_width a \<and>
    needed \<le> get_capacity_from_header (h_mem h') (m_ref a') \<and> same_payload (h_mem h) a (h_mem h') a' \<and>
    kept ops block h h' (m_ref a) (m_ref a')"
proof (cases "get_capacity_from_header (h_mem h) (m_ref a) < needed")
  case True
  let ?cap = "get_capacity_from_header (h_mem h) (m_ref a)"
  obtain ref h1 where r: "realloc ops (m_ref a) ?cap (grow_capacity ?cap needed) h = Inr (ref, h1)"
      "a' = update_parent (a\<lparr>m_ref := ref\<rparr>)"
      "h' = h1\<lparr>h_mem := set_capacity_in_header (grow_capacity ?cap needed) (h_mem h1) ref\<rparr>"
    using run True by (auto simp: node_grow_def Let_def bind_result_eq_Inr)
  show ?thesis using grow_ok [OF okh wr small True refl r(1,3,2)] by simp
next
  case False
  then show ?thesis using run okh wr by (simp add: node_grow_def same_payload_def kept_refl)
qed

lemma array_alloc_ok:
  assumes okh: "ok (h_alloc h)" and at: "array_at ops block h a" and w: "valid_width w"
    and small: "calc_byte_len (m_size a) (m_width a) \<le> 2 ^ 25 - 100" "calc_byte_len n w \<le> 2 ^ 25 - 100"
    and run: "array_alloc ops n w a h = Inr (a', h')"
  shows "ok (h_alloc h')" "writable_array ops block h' a'" "m_size a' = n" "m_width a' = w"
    "same_payload (h_mem h) a (h_mem h') a'" "kept ops block h h' (m_ref a) (m_ref a')"
proof -
  let ?needed = "calc_byte_len n w"
  have n: "n \<le> max_array_size" using run by (auto simp: array_alloc_def node_alloc_def Let_def split: if_splits)
  obtain a1 h1 where cow: "copy_on_write_min ops ?needed a h = Inr (a1, h1)"
    using run n by (auto simp: array_alloc_def node_alloc_def Let_def bind_result_eq_Inr)
  have "calc_byte_len (m_size a) (m_width a) \<le> 2 ^ 26 - 100" "?needed \<le> 2 ^ 26 - 100" using small by simp_all
  note one = copy_on_write_ok [OF okh at this cow]
  obtain a2 h2 where grow: "node_grow ops ?needed a1 h1 = Inr (a2, h2)"
    using run n cow by (auto simp: array_alloc_def node_alloc_def Let_def bind_result_eq_Inr)
  have two: "ok (h_alloc h2)" "writable_array ops block h2 a2" "m_size a2 = m_size a" "m_width a2 = m_width a"
    "?needed \<le> get_capacity_from_header (h_mem h2) (m_ref a2)" "same_payload (h_mem h) a (h_mem h2) a2"
    "kept ops block h h2 (m_ref a) (m_ref a2)"
    using node_grow_ok [OF one(1,2) small(2) grow] one(3-6) by (auto intro: same_payload_trans kept_trans)
  have w2: "get_width_from_header (h_mem h1) (m_ref a1) = m_width a" "get_width_from_header (h_mem h2) (m_ref a2) = m_width a"
    using one(2,4) two(2,4) by (simp_all add: writable_array_iff arr_ok_def)
  define m' where "m' = set_size_in_header n (if w \<noteq> m_width a then set_width_in_header w (h_mem h2) (m_ref a2) else h_mem h2) (m_ref a2)"
  have h': "h' = h2\<lparr>h_mem := m'\<rparr>" and a'0: "a' = update_width_cache_from_header m' (a2\<lparr>m_size := n\<rparr>)"
    using run n cow grow by (auto simp: array_alloc_def node_alloc_def Let_def m'_def w2)
  have hd: "get_size_from_header m' (m_ref a2) = n" "get_width_from_header m' (m_ref a2) = w"
    "get_wtype_from_header m' (m_ref a2) = wtype_Bits"
    "get_capacity_from_header m' (m_ref a2) = get_capacity_from_header (h_mem h2) (m_ref a2)"
    using n w w2 two(2) by (auto simp: m'_def header_simps writable_array_iff arr_ok_def)
  have same: "m' x = h_mem h2 x" if "x < m_ref a2 \<or> m_ref a2 + 8 \<le> x" for x
    using that by (simp add: m'_def setters_frame)
  have a': "m_ref a' = m_ref a2" "m_size a' = n" "m_width a' = w"
      "m_lbound a' = lbound_for_width w" "m_ubound a' = ubound_for_width w"
    using hd by (simp_all add: a'0 update_width_cache_from_header_def Let_def)
  have aok: "arr_ok m' a'" using a' hd w by (simp add: arr_ok_def)
  have "8 \<le> get_capacity_from_header (h_mem h2) (m_ref a2)" using two(5) by (simp add: calc_byte_len_payload)
  then have "writable_array ops block h' a'" "kept ops block h2 h' (m_ref a2) (m_ref a2)"
    unfolding h' using two(5) a'
    by (auto intro!: inside_update [OF two(1,2) a'(1) _ hd(4) aok] same)
  moreover have "same_payload (h_mem h) a m' a'"
    using two(6) a'(1) by (simp add: same_payload_def m_data_eq same)
  ultimately show "ok (h_alloc h')" "writable_array ops block h' a'" "m_size a' = n" "m_width a' = w"
    "same_payload (h_mem h) a (h_mem h') a'" "kept ops block h h' (m_ref a) (m_ref a')"
    using two(1,7) a' h' by (auto intro: kept_trans)
qed

lemma copy_on_write_error:
  assumes "ok (h_alloc h)" "array_at ops block h a" "calc_byte_len (m_size a) (m_width a) \<le> 2 ^ 26 - 100"
    "minimum \<le> 2 ^ 26 - 100" "copy_on_write_min ops minimum a h = Inl e"
  shows "e = MaximumFileSizeExceeded"
  using assms(5) do_copy_on_write_error [OF assms(1-4)] by (auto simp: copy_on_write_min_def split: if_splits)

lemma array_alloc_error:
  assumes okh: "ok (h_alloc h)" and at: "array_at ops block h a"
    and small: "calc_byte_len (m_size a) (m_width a) \<le> 2 ^ 25 - 100" "calc_byte_len n w \<le> 2 ^ 25 - 100"
    and n: "n \<le> max_array_size" and run: "array_alloc ops n w a h = Inl e"
  shows "e = MaximumFileSizeExceeded"
proof (cases "copy_on_write_min ops (calc_byte_len n w) a h")
  case (Inl e')
  then have "e' = e" using run n by (simp add: array_alloc_def node_alloc_def Let_def)
  moreover have "e' = MaximumFileSizeExceeded" using small by (intro copy_on_write_error [OF okh at _ _ Inl]) simp_all
  ultimately show ?thesis by simp
next
  case (Inr p)
  obtain a1 h1 where p: "p = (a1, h1)" by (cases p)
  have "calc_byte_len (m_size a) (m_width a) \<le> 2 ^ 26 - 100" "calc_byte_len n w \<le> 2 ^ 26 - 100" using small by simp_all
  note one = copy_on_write_ok [OF okh at this Inr [unfolded p]]
  have "node_grow ops (calc_byte_len n w) a1 h1 = Inl e"
    using run n Inr p by (cases "node_grow ops (calc_byte_len n w) a1 h1")
      (auto simp: array_alloc_def node_alloc_def Let_def)
  then show ?thesis by (rule node_grow_error [OF one(1,2) small(2)])
qed

end

end
