(* ===== verification/Slab_Alloc.thy ===== *)
theory Slab_Alloc
  imports Array_Spec
begin

text \<open>
  The slab allocator (\<^verbatim>\<open>src/llbt/alloc_slab.cpp\<close>, \<^verbatim>\<open>alloc_slab.hpp\<close>).
  A slab is a contiguous piece of the ref space above the file. Blocks lie side by side in it,
  free or allocated, with a \<^verbatim>\<open>BetweenBlocks\<close> of 8 bytes on each side that holds the sizes
  of its two neighbours, negated when the neighbour is in use. Refs and addresses are identified,
  so that a block is its ref and \<^verbatim>\<open>FreeBlock::ref\<close> is the block itself. The two sizes of
  the \<^verbatim>\<open>BetweenBlocks\<close> at an address are two functions of the state; the doubly linked
  circular lists of free blocks of one size are lists, beginning with the block that
  \<^verbatim>\<open>m_block_map\<close> points to; the ordered maps are association lists with ascending keys.
\<close>

subsection \<open>The code: the state\<close>

datatype free_space_state = free_space_Clean | free_space_Dirty | free_space_Invalid

record slab =
  ref_end :: nat
  slab_size :: nat

record slab_alloc =
  m_is_read_only :: bool
  m_baseline :: nat
  block_before_size :: "nat \<Rightarrow> int"
  block_after_size :: "nat \<Rightarrow> int"
  m_block_map :: "(int \<times> nat list) list"
  m_slabs :: "slab list"
  m_free_space_state :: free_space_state
  m_free_read_only :: "(nat \<times> nat) list"
  m_commit_size :: u64

definition section_size :: nat where "section_size = 2 ^ 26"

definition minimal_alloc :: nat where "minimal_alloc = 128 * 1024"

definition maximal_alloc :: nat where "maximal_alloc = 2 ^ 26"

definition sizeof_FreeBlock :: nat where "sizeof_FreeBlock = 24"

definition sizeof_BetweenBlocks :: nat where "sizeof_BetweenBlocks = 8"

definition get_section_index :: "nat \<Rightarrow> nat" where
  "get_section_index pos = pos div 2 ^ 26"

definition get_section_base :: "nat \<Rightarrow> nat" where
  "get_section_base index = index * 2 ^ 26"

definition get_lower_section_boundary :: "nat \<Rightarrow> nat" where
  "get_lower_section_boundary start_pos = get_section_base (get_section_index start_pos)"

definition get_upper_section_boundary :: "nat \<Rightarrow> nat" where
  "get_upper_section_boundary start_pos = get_section_base (1 + get_section_index start_pos)"

definition matches_section_boundary :: "nat \<Rightarrow> bool" where
  "matches_section_boundary pos \<longleftrightarrow> pos = get_lower_section_boundary pos"

definition align_size_to_section_boundary :: "nat \<Rightarrow> nat" where
  "align_size_to_section_boundary sz =
     (if matches_section_boundary sz then sz else get_upper_section_boundary sz)"

definition is_read_only :: "slab_alloc \<Rightarrow> nat \<Rightarrow> bool" where
  "is_read_only s ref \<longleftrightarrow> ref < m_baseline s"

definition get_total_size :: "slab_alloc \<Rightarrow> nat" where
  "get_total_size s = (if m_slabs s = [] then m_baseline s else ref_end (last (m_slabs s)))"

definition get_allocated_size :: "slab_alloc \<Rightarrow> nat" where
  "get_allocated_size s = sum_list (map slab_size (m_slabs s))"

subsection \<open>The code: blocks and what lies between them\<close>

definition bb_before :: "nat \<Rightarrow> nat" where
  "bb_before entry = entry - sizeof_BetweenBlocks"

definition bb_after :: "slab_alloc \<Rightarrow> nat \<Rightarrow> nat" where
  "bb_after s entry = nat (int entry + block_after_size s (bb_before entry))"

definition block_before :: "slab_alloc \<Rightarrow> nat \<Rightarrow> nat option" where
  "block_before s bb =
     (if block_before_size s bb = 0 then None else Some (nat (int bb - block_before_size s bb)))"

definition block_after :: "slab_alloc \<Rightarrow> nat \<Rightarrow> nat option" where
  "block_after s bb = (if block_after_size s bb \<le> 0 then None else Some (bb + sizeof_BetweenBlocks))"

definition size_from_block :: "slab_alloc \<Rightarrow> nat \<Rightarrow> int" where
  "size_from_block s entry = block_after_size s (bb_before entry)"

definition set_before :: "nat \<Rightarrow> int \<Rightarrow> slab_alloc \<Rightarrow> slab_alloc" where
  "set_before bb v s = s\<lparr>block_before_size := (block_before_size s)(bb := v)\<rparr>"

definition set_after :: "nat \<Rightarrow> int \<Rightarrow> slab_alloc \<Rightarrow> slab_alloc" where
  "set_after bb v s = s\<lparr>block_after_size := (block_after_size s)(bb := v)\<rparr>"

definition get_prev_block_if_mergeable :: "slab_alloc \<Rightarrow> nat \<Rightarrow> nat option" where
  "get_prev_block_if_mergeable s entry =
     (let bb = bb_before entry
      in if block_before_size s bb \<le> 0 then None else block_before s bb)"

definition get_next_block_if_mergeable :: "slab_alloc \<Rightarrow> nat \<Rightarrow> nat option" where
  "get_next_block_if_mergeable s entry =
     (let bb = bb_after s entry
      in if block_after_size s bb \<le> 0 then None else block_after s bb)"

definition mark_freed :: "nat \<Rightarrow> nat \<Rightarrow> slab_alloc \<Rightarrow> slab_alloc" where
  "mark_freed entry sz s =
     (let bb = bb_before entry;
          alloc_size = - block_after_size s bb;
          s = set_after bb alloc_size s;
          bb = bb_after s entry
      in set_before bb alloc_size s)"

definition mark_allocated :: "nat \<Rightarrow> slab_alloc \<Rightarrow> slab_alloc" where
  "mark_allocated entry s =
     (let bb = bb_before entry;
          bb2 = bb_after s entry;
          s = set_after bb (0 - block_after_size s bb) s
      in set_before bb2 (0 - block_before_size s bb2) s)"

definition break_block :: "nat \<Rightarrow> nat \<Rightarrow> slab_alloc \<Rightarrow> nat option \<times> slab_alloc" where
  "break_block block new_size s =
     (let sz = size_from_block s block;
          remaining_size = sz - int (new_size + sizeof_BetweenBlocks)
      in if remaining_size < int sizeof_FreeBlock then (None, s)
         else let s = set_before (bb_after s block) remaining_size s;
                  s = set_after (bb_before block) (int new_size) s;
                  bb_between = bb_after s block;
                  s = set_before bb_between (int new_size) s;
                  s = set_after bb_between remaining_size s
              in (block_after s bb_between, s))"

definition merge_blocks :: "nat \<Rightarrow> nat \<Rightarrow> slab_alloc \<Rightarrow> nat \<times> slab_alloc" where
  "merge_blocks first last_block s =
     (let size_first = size_from_block s first;
          size_last = size_from_block s last_block;
          new_size = size_first + size_last + int sizeof_BetweenBlocks;
          s = set_after (bb_before first) new_size s
      in (first, set_before (bb_after s last_block) new_size s))"

subsection \<open>The code: the free lists\<close>

text \<open>
  A \<^verbatim>\<open>FreeList\<close> is a size and an iterator into \<^verbatim>\<open>m_block_map\<close>; the iterator is
  the part of the map from its position on.
\<close>

type_synonym block_map = "(int \<times> nat list) list"

definition find_freelist :: "slab_alloc \<Rightarrow> nat \<Rightarrow> int \<times> block_map" where
  "find_freelist s sz =
     (let it = dropWhile (\<lambda>e. fst e < int sz) (m_block_map s)
      in case it of [] \<Rightarrow> (0, it) | e # _ \<Rightarrow> (fst e, it))"

definition find_larger :: "int \<times> block_map \<Rightarrow> nat \<Rightarrow> int \<times> block_map" where
  "find_larger hint sz =
     (let needed_size = int (sz + sizeof_BetweenBlocks + sizeof_FreeBlock);
          it = dropWhile (\<lambda>e. fst e < needed_size) (snd hint)
      in if it = [] then (0, it) else (fst hint, it))"

fun map_erase :: "int \<Rightarrow> block_map \<Rightarrow> block_map" where
  "map_erase k [] = []"
| "map_erase k ((k', v) # bm) = (if k = k' then bm else (k', v) # map_erase k bm)"

fun map_insert :: "int \<Rightarrow> nat list \<Rightarrow> block_map \<Rightarrow> block_map" where
  "map_insert k v [] = [(k, v)]"
| "map_insert k v ((k', v') # bm) =
     (if k < k' then (k, v) # (k', v') # bm else if k = k' then (k, v) # bm else (k', v') # map_insert k v bm)"

definition pop_freelist_entry :: "int \<times> block_map \<Rightarrow> slab_alloc \<Rightarrow> nat \<times> slab_alloc" where
  "pop_freelist_entry list s =
     (let (k, entries) = hd (snd list); retval = hd entries; rest = tl entries
      in if rest = [] then (retval, s\<lparr>m_block_map := map_erase k (m_block_map s)\<rparr>)
         else (retval, s\<lparr>m_block_map := map_insert k rest (m_block_map s)\<rparr>))"

definition remove_freelist_entry :: "nat \<Rightarrow> slab_alloc \<Rightarrow> slab_alloc" where
  "remove_freelist_entry entry s =
     (let sz = block_after_size s (bb_before entry)
      in case map_of (m_block_map s) sz of
           None \<Rightarrow> s
         | Some entries \<Rightarrow>
             let rest = remove1 entry entries
             in if rest = [] then s\<lparr>m_block_map := map_erase sz (m_block_map s)\<rparr>
                else s\<lparr>m_block_map := map_insert sz rest (m_block_map s)\<rparr>)"

definition push_freelist_entry :: "nat \<Rightarrow> slab_alloc \<Rightarrow> slab_alloc" where
  "push_freelist_entry entry s =
     (let sz = block_after_size s (bb_before entry)
      in case map_of (m_block_map s) sz of
           Some entries \<Rightarrow> s\<lparr>m_block_map := map_insert sz (entry # entries) (m_block_map s)\<rparr>
         | None \<Rightarrow> s\<lparr>m_block_map := map_insert sz [entry] (m_block_map s)\<rparr>)"

subsection \<open>The code: slabs\<close>

definition slab_to_entry :: "slab \<Rightarrow> nat \<Rightarrow> slab_alloc \<Rightarrow> nat \<times> slab_alloc" where
  "slab_to_entry sl ref_start s =
     (let bb = ref_start;
          s = set_before bb 0 s;
          block_size = int (ref_end sl) - int ref_start - 2 * int sizeof_BetweenBlocks;
          s = set_after bb block_size s;
          entry = ref_start + sizeof_BetweenBlocks;
          bb = bb_after s entry;
          s = set_before bb block_size s;
          s = set_after bb 0 s
      in (entry, s))"

definition clear_freelists :: "slab_alloc \<Rightarrow> slab_alloc" where
  "clear_freelists s = s\<lparr>m_block_map := []\<rparr>"

fun rebuild_loop :: "slab list \<Rightarrow> nat \<Rightarrow> slab_alloc \<Rightarrow> slab_alloc" where
  "rebuild_loop [] ref_start s = s"
| "rebuild_loop (e # es) ref_start s =
     (let (entry, s) = slab_to_entry e ref_start s;
          s = push_freelist_entry entry s
      in rebuild_loop es (align_size_to_section_boundary (ref_end e)) s)"

definition rebuild_freelists_from_slab :: "slab_alloc \<Rightarrow> slab_alloc" where
  "rebuild_freelists_from_slab s =
     (let s = clear_freelists s
      in rebuild_loop (m_slabs s) (align_size_to_section_boundary (m_baseline s)) s)"

function grow_size :: "nat \<Rightarrow> nat \<Rightarrow> nat" where
  "grow_size new_size sz = (if new_size < sz then grow_size (new_size + minimal_alloc) sz else new_size)"
  by auto
termination
  by (relation "measure (\<lambda>(new_size, sz). sz - new_size)") (simp_all add: minimal_alloc_def)

declare grow_size.simps [simp del]

definition grow_slab :: "nat \<Rightarrow> slab_alloc \<Rightarrow> (nat \<times> slab_alloc) result" where
  "grow_slab sz s =
     (let sz = sz + 2 * sizeof_BetweenBlocks;
          new_size = grow_size minimal_alloc sz;
          already_allocated = get_allocated_size s;
          new_size = (if new_size < already_allocated then already_allocated else new_size);
          new_size = (if new_size > maximal_alloc then maximal_alloc else new_size);
          ref = (if m_slabs s = [] then m_baseline s else ref_end (last (m_slabs s)));
          ref = align_size_to_section_boundary ref
      in if ref + new_size \<ge> 2 ^ 64 then Inl MaximumFileSizeExceeded
         else let sl = \<lparr>ref_end = ref + new_size, slab_size = new_size\<rparr>;
                  s = s\<lparr>m_slabs := m_slabs s @ [sl]\<rparr>
              in Inr (slab_to_entry sl ref s))"

subsection \<open>The code: allocating and freeing\<close>

definition allocate_block :: "nat \<Rightarrow> slab_alloc \<Rightarrow> (nat \<times> slab_alloc) result" where
  "allocate_block sz s =
     (let list = find_freelist s sz
      in if fst list = int sz then Inr (pop_freelist_entry list s)
         else let list = find_larger list sz
              in bind_result (if fst list \<noteq> 0 then Inr (pop_freelist_entry list s) else grow_slab sz s) (\<lambda>(block, s).
                   let (remaining, s) = break_block block sz s
                   in case remaining of
                        Some r \<Rightarrow> Inr (block, push_freelist_entry r s)
                      | None \<Rightarrow> Inr (block, s)))"

definition do_alloc :: "nat \<Rightarrow> slab_alloc \<Rightarrow> (nat \<times> slab_alloc) result" where
  "do_alloc sz s =
     (if \<not> sz < section_size then Inl (AssertionFailed ''size < (1 << section_shift)'')
      else if m_free_space_state s = free_space_Invalid then Inl InvalidFreeSpace
      else let s = s\<lparr>m_free_space_state := free_space_Dirty, m_commit_size := m_commit_size s + of_nat sz\<rparr>;
               sz = (if sz < sizeof_FreeBlock then sizeof_FreeBlock else sz);
               sz = (if sz mod 8 \<noteq> 0 then (sz + 7) div 8 * 8 else sz)
           in bind_result (allocate_block sz s) (\<lambda>(entry, s). Inr (entry, mark_allocated entry s)))"

definition alloc :: "nat \<Rightarrow> slab_alloc \<Rightarrow> (nat \<times> slab_alloc) result" where
  "alloc sz s =
     (if m_is_read_only s then Inl (LogicError ''Trying to modify database while in read transaction'')
      else do_alloc sz s)"

definition free_block :: "nat \<Rightarrow> slab_alloc \<Rightarrow> slab_alloc" where
  "free_block block s =
     (let (block, s) =
            (case get_prev_block_if_mergeable s block of
               Some prev \<Rightarrow> merge_blocks prev block (remove_freelist_entry prev s)
             | None \<Rightarrow> (block, s));
          (block, s) =
            (case get_next_block_if_mergeable s block of
               Some next \<Rightarrow> merge_blocks block next (remove_freelist_entry next s)
             | None \<Rightarrow> (block, s))
      in push_freelist_entry block s)"

text \<open>
  The read-only part of \<^verbatim>\<open>do_free\<close>: \<open>next\<close> is the first chunk at or above \<open>ref\<close>, the
  chunks below it are \<open>before\<close>.
\<close>

definition free_read_only :: "nat \<Rightarrow> nat \<Rightarrow> (nat \<times> nat) list \<Rightarrow> (nat \<times> nat) list result" where
  "free_read_only ref sz chunks =
     (if ref = 0 then Inl (AssertionFailed ''ref != 0'')
      else if ref mod 8 \<noteq> 0 then Inl (AssertionFailed ''!(ref & 7)'')
      else let before = takeWhile (\<lambda>e. fst e < ref) chunks; next = dropWhile (\<lambda>e. fst e < ref) chunks
           in bind_result
             (case next of
                [] \<Rightarrow> Inr (sz, next)
              | (r, n) # rest \<Rightarrow>
                  if \<not> ref + sz \<le> r then Inl (AssertionFailed ''ref + size <= next->first'')
                  else if ref + sz = r then Inr (sz + n, rest) else Inr (sz, next)) (\<lambda>(sz, next).
             if before \<noteq> [] then
               (let (r, n) = last before
                in if \<not> r + n \<le> ref then Inl (AssertionFailed ''prev->first + prev->second <= ref'')
                   else if r + n = ref then Inr (butlast before @ (r, n + sz) # next)
                   else Inr (before @ (ref, sz) # next))
             else Inr ((ref, sz) # next)))"

definition do_free :: "nat \<Rightarrow> nat \<Rightarrow> slab_alloc \<Rightarrow> slab_alloc result" where
  "do_free ref sz s =
     (if m_free_space_state s = free_space_Invalid then Inr s
      else let read_only = is_read_only s ref; s = s\<lparr>m_free_space_state := free_space_Dirty\<rparr>
           in if read_only
              then bind_result (free_read_only ref sz (m_free_read_only s)) (\<lambda>chunks.
                     Inr (s\<lparr>m_free_read_only := chunks\<rparr>))
              else let s = s\<lparr>m_commit_size := m_commit_size s - of_nat sz\<rparr>;
                       sz = (if sz < sizeof_FreeBlock then sizeof_FreeBlock else sz);
                       sz = (if sz mod 8 \<noteq> 0 then (sz + 7) div 8 * 8 else sz)
                   in if \<not> sz < 2 * 1024 * 1024 * 1024
                      then Inl (AssertionFailed ''size < 2UL * 1024 * 1024 * 1024'')
                      else Inr (free_block ref (mark_freed ref sz s)))"

definition consolidate_free_read_only :: "slab_alloc \<Rightarrow> nat result" where
  "consolidate_free_read_only s =
     (if m_free_space_state s = free_space_Invalid then Inl InvalidFreeSpace
      else Inr (length (m_free_read_only s)))"

definition slab_ops :: "slab_alloc allocator_ops" where
  "slab_ops = \<lparr>op_alloc = alloc, op_free = do_free, op_is_read_only = is_read_only\<rparr>"

subsection \<open>The code: the end of a transaction\<close>

function release_slabs :: "slab list \<Rightarrow> slab list" where
  "release_slabs sls =
     (if length sls > 1 \<or> (length sls = 1 \<and> slab_size (sls ! 0) > minimal_alloc)
      then release_slabs (butlast sls) else sls)"
  by auto
termination
  by (relation "measure length") auto

declare release_slabs.simps [simp del]

definition reset_free_space_tracking :: "slab_alloc \<Rightarrow> slab_alloc" where
  "reset_free_space_tracking s =
     (if m_free_space_state s = free_space_Clean then s
      else let s = s\<lparr>m_free_read_only := []\<rparr>;
               s = s\<lparr>m_slabs := release_slabs (m_slabs s)\<rparr>;
               s = rebuild_freelists_from_slab s
           in s\<lparr>m_free_space_state := free_space_Clean, m_commit_size := 0\<rparr>)"

text \<open>
  The part of \<^verbatim>\<open>update_reader_view\<close> that concerns the slabs: the file has grown, the
  slabs move up with the end of the file.
\<close>

definition rebase_slabs :: "nat \<Rightarrow> slab_alloc \<Rightarrow> slab_alloc" where
  "rebase_slabs file_size s =
     (let old_baseline = m_baseline s
      in if file_size \<le> old_baseline then s
         else let old_slab_base = align_size_to_section_boundary old_baseline;
                  s = s\<lparr>m_baseline := file_size\<rparr>;
                  ref_start = align_size_to_section_boundary file_size;
                  ref_displacement = ref_start - old_slab_base;
                  s = (if ref_displacement > 0
                       then s\<lparr>m_slabs := map (\<lambda>e. e\<lparr>ref_end := ref_end e + ref_displacement\<rparr>) (m_slabs s)\<rparr>
                       else s)
              in rebuild_freelists_from_slab s)"

end
