(* ===== verification/Slab_Blocks.thy ===== *)
theory Slab_Blocks
  imports Slab_Alloc
begin

text \<open>
  The block structure of the slabs. \<open>blocks_ok\<close> says of the two size functions that the set
  \<open>B\<close> of block starts is a tiling: neighbours agree on the size between them, blocks are
  aligned, disjoint, within the ref range and within a section, and no two free blocks are
  neighbours except where \<open>Z\<close> allows it. \<open>lists_ok\<close> says that the free lists hold the free
  blocks, each once and under its size, except those of \<open>X\<close>. Marking, breaking, merging and
  growing keep them.
\<close>

subsection \<open>The tiling\<close>

definition bsize :: "(nat \<Rightarrow> int) \<Rightarrow> nat \<Rightarrow> nat" where
  "bsize a r = nat \<bar>a (r - 8)\<bar>"

definition blocks_ok ::
  "(nat \<Rightarrow> int) \<Rightarrow> (nat \<Rightarrow> int) \<Rightarrow> nat set \<Rightarrow> nat \<Rightarrow> nat \<Rightarrow> nat set \<Rightarrow> nat set \<Rightarrow> bool" where
  "blocks_ok b a S lo hi B Z \<longleftrightarrow>
     (\<forall>x\<in>S. x + 8 \<in> B \<and> b x = 0) \<and>
     (\<forall>r\<in>B. lo + 8 \<le> r \<and> 8 dvd r \<and> 24 \<le> bsize a r \<and> 8 dvd bsize a r \<and> r + bsize a r + 8 \<le> hi \<and>
        (r - 8) div 2 ^ 26 = (r + bsize a r) div 2 ^ 26 \<and> b (r + bsize a r) = a (r - 8)) \<and>
     (\<forall>r\<in>B. r + bsize a r + 8 \<in> B \<or> a (r + bsize a r) = 0) \<and>
     (\<forall>r\<in>B. r - 8 \<in> S \<or> (\<exists>p\<in>B. p + bsize a p + 8 = r)) \<and>
     (\<forall>r\<in>B. \<forall>q\<in>B. r < q \<longrightarrow> r + bsize a r + 8 \<le> q) \<and>
     (\<forall>r\<in>B. r \<notin> Z \<longrightarrow> 0 < a (r - 8) \<longrightarrow> a (r + bsize a r) \<le> 0)"

lemma blocks_okD:
  assumes "blocks_ok b a S lo hi B Z" "r \<in> B"
  shows "lo + 8 \<le> r" "8 dvd r" "24 \<le> bsize a r" "8 dvd bsize a r" "r + bsize a r + 8 \<le> hi"
    "(r - 8) div 2 ^ 26 = (r + bsize a r) div 2 ^ 26" "b (r + bsize a r) = a (r - 8)"
    "r + bsize a r + 8 \<in> B \<or> a (r + bsize a r) = 0"
    "r - 8 \<in> S \<or> (\<exists>p\<in>B. p + bsize a p + 8 = r)"
    "q \<in> B \<Longrightarrow> r < q \<Longrightarrow> r + bsize a r + 8 \<le> q"
    "r \<notin> Z \<Longrightarrow> 0 < a (r - 8) \<Longrightarrow> a (r + bsize a r) \<le> 0"
  using assms unfolding blocks_ok_def by blast+

lemma blocks_okI:
  assumes "\<And>x. x \<in> S \<Longrightarrow> x + 8 \<in> B \<and> b x = 0"
    and "\<And>r. r \<in> B \<Longrightarrow> lo + 8 \<le> r \<and> 8 dvd r \<and> 24 \<le> bsize a r \<and> 8 dvd bsize a r \<and> r + bsize a r + 8 \<le> hi \<and>
        (r - 8) div 2 ^ 26 = (r + bsize a r) div 2 ^ 26 \<and> b (r + bsize a r) = a (r - 8)"
    and "\<And>r. r \<in> B \<Longrightarrow> r + bsize a r + 8 \<in> B \<or> a (r + bsize a r) = 0"
    and "\<And>r. r \<in> B \<Longrightarrow> r - 8 \<in> S \<or> (\<exists>p\<in>B. p + bsize a p + 8 = r)"
    and "\<And>r q. r \<in> B \<Longrightarrow> q \<in> B \<Longrightarrow> r < q \<Longrightarrow> r + bsize a r + 8 \<le> q"
    and "\<And>r. r \<in> B \<Longrightarrow> r \<notin> Z \<Longrightarrow> 0 < a (r - 8) \<Longrightarrow> a (r + bsize a r) \<le> 0"
  shows "blocks_ok b a S lo hi B Z"
  using assms unfolding blocks_ok_def by blast

lemma blocks_start: "blocks_ok b a S lo hi B Z \<Longrightarrow> x \<in> S \<Longrightarrow> x + 8 \<in> B \<and> b x = 0"
  unfolding blocks_ok_def by blast

lemma blocks_mono:
  assumes ok: "blocks_ok b a S lo hi B Z" and Z: "Z \<subseteq> Z'" and hi: "hi \<le> hi'"
  shows "blocks_ok b a S lo hi' B Z'"
proof (rule blocks_okI)
  fix r assume r: "r \<in> B"
  show "lo + 8 \<le> r \<and> 8 dvd r \<and> 24 \<le> bsize a r \<and> 8 dvd bsize a r \<and> r + bsize a r + 8 \<le> hi' \<and>
      (r - 8) div 2 ^ 26 = (r + bsize a r) div 2 ^ 26 \<and> b (r + bsize a r) = a (r - 8)"
    using blocks_okD(1-7) [OF ok r] hi by simp
  show "a (r + bsize a r) \<le> 0" if "r \<notin> Z'" "0 < a (r - 8)" using blocks_okD(11) [OF ok r] Z that by auto
qed (rule blocks_start [OF ok] blocks_okD(8,9,10) [OF ok]; assumption)+

text \<open>Two blocks are equal, or one ends at least 8 bytes before the other.\<close>

lemma blocks_apart:
  assumes "blocks_ok b a S lo hi B Z" "r \<in> B" "q \<in> B" "r \<noteq> q"
  shows "r + bsize a r + 8 \<le> q \<or> q + bsize a q + 8 \<le> r" "r - 8 \<noteq> q - 8" "r + bsize a r \<noteq> q + bsize a q"
proof -
  show 1: "r + bsize a r + 8 \<le> q \<or> q + bsize a q + 8 \<le> r"
    using blocks_okD(10) [OF assms(1,2,3)] blocks_okD(10) [OF assms(1,3,2)] assms(4) by linarith
  show "r - 8 \<noteq> q - 8" using blocks_okD(1) [OF assms(1,2)] blocks_okD(1) [OF assms(1,3)] assms(4) by linarith
  show "r + bsize a r \<noteq> q + bsize a q" using 1 blocks_okD(3) [OF assms(1,2)] blocks_okD(3) [OF assms(1,3)] by linarith
qed

text \<open>The tiling is determined by the sizes: a block is the first of a slab, or it follows one.\<close>

lemma blocks_subset:
  assumes b1: "blocks_ok b a S lo hi B Z" and b2: "blocks_ok b a S lo' hi' B' Z'"
  shows "r \<in> B \<Longrightarrow> r \<in> B'"
proof (induction r rule: less_induct)
  case (less r)
  show ?case using blocks_okD(9) [OF b1 less.prems]
  proof (elim disjE conjE bexE)
    assume "r - 8 \<in> S"
    then show ?thesis using b2 blocks_okD(1) [OF b1 less.prems] unfolding blocks_ok_def by force
  next
    fix p assume p: "p \<in> B" "p + bsize a p + 8 = r"
    then have "p \<in> B'" using less.IH by simp
    then have "p + bsize a p + 8 \<in> B' \<or> a (p + bsize a p) = 0" by (rule blocks_okD(8) [OF b2])
    moreover have "a (p + bsize a p) \<noteq> 0" using blocks_okD(3) [OF b1 less.prems] p(2) by (auto simp: bsize_def)
    ultimately show ?thesis using p(2) by simp
  qed
qed

lemma blocks_unique:
  "blocks_ok b a S lo hi B Z \<Longrightarrow> blocks_ok b a S lo' hi' B' Z' \<Longrightarrow> B = B'"
  using blocks_subset by blast

text \<open>Marking a block: its size changes sign on both of its sides.\<close>

lemma blocks_mark:
  assumes ok: "blocks_ok b a S lo hi B Z" and r: "r \<in> B" and v: "\<bar>v\<bar> = \<bar>a (r - 8)\<bar>"
    and Z': "0 < v \<Longrightarrow> r \<in> Z' \<and> (\<forall>p\<in>B. p + bsize a p + 8 = r \<longrightarrow> p \<in> Z' \<or> a (p - 8) \<le> 0)" "Z - {r} \<subseteq> Z'"
  shows "blocks_ok (b(r + bsize a r := v)) (a(r - 8 := v)) S lo hi B Z'"
proof -
  let ?a = "a(r - 8 := v)"
  have sz: "bsize ?a q = bsize a q" if "q \<in> B" for q
    using that v blocks_apart(2) [OF ok r] by (cases "q = r") (auto simp: bsize_def)
  have nz: "v \<noteq> 0" using v blocks_okD(3) [OF ok r] by (auto simp: bsize_def)
  show ?thesis
  proof (rule blocks_okI)
    show "x + 8 \<in> B \<and> (b(r + bsize a r := v)) x = 0" if "x \<in> S" for x
      using blocks_start [OF ok that] blocks_okD(7) [OF ok r] nz v by auto
  next
    fix q assume q: "q \<in> B"
    have "(b(r + bsize a r := v)) (q + bsize a q) = ?a (q - 8)"
      using blocks_okD(7) [OF ok q] blocks_apart(2,3) [OF ok q r] by (cases "q = r") auto
    then show "lo + 8 \<le> q \<and> 8 dvd q \<and> 24 \<le> bsize ?a q \<and> 8 dvd bsize ?a q \<and> q + bsize ?a q + 8 \<le> hi \<and>
        (q - 8) div 2 ^ 26 = (q + bsize ?a q) div 2 ^ 26 \<and> (b(r + bsize a r := v)) (q + bsize ?a q) = ?a (q - 8)"
      using blocks_okD(1-6) [OF ok q] by (simp add: sz [OF q])
  next
    fix q assume q: "q \<in> B"
    show "q + bsize ?a q + 8 \<in> B \<or> ?a (q + bsize ?a q) = 0"
      using blocks_okD(8) [OF ok q] r blocks_okD(1) [OF ok r] by (auto simp: sz [OF q])
  next
    fix q assume q: "q \<in> B"
    show "q - 8 \<in> S \<or> (\<exists>p\<in>B. p + bsize ?a p + 8 = q)"
      using blocks_okD(9) [OF ok q] by (auto simp: sz)
  next
    show "q + bsize ?a q + 8 \<le> q'" if "q \<in> B" "q' \<in> B" "q < q'" for q q'
      using blocks_okD(10) [OF ok that] by (simp add: sz [OF that(1)])
  next
    fix q assume q: "q \<in> B" "q \<notin> Z'" "0 < ?a (q - 8)"
    have qr: "q \<noteq> r" using q Z' by auto
    then have a: "0 < a (q - 8)" "q \<notin> Z" using q Z'(2) blocks_apart(2) [OF ok q(1) r] by auto
    have "v \<le> 0" if "q + bsize a q = r - 8"
      using that Z'(1) q(1,2) a blocks_okD(1) [OF ok r] by force
    then show "?a (q + bsize ?a q) \<le> 0"
      using blocks_okD(11) [OF ok q(1) a(2,1)] by (auto simp: sz [OF q(1)])
  qed
qed

text \<open>Breaking a free block in two.\<close>

lemma div_between: "(x :: nat) \<le> y \<Longrightarrow> y \<le> z \<Longrightarrow> x div k = z div k \<Longrightarrow> y div k = z div k"
  by (metis div_le_mono le_antisym)

lemma blocks_break:
  assumes ok: "blocks_ok b a S lo hi B Z" and r: "r \<in> B" and pos: "0 < a (r - 8)"
    and n: "24 \<le> n" "8 dvd n" "24 \<le> m" and sum: "bsize a r = n + 8 + m"
  shows "blocks_ok (b(r + n := int n, r + n + 8 + m := int m)) (a(r - 8 := int n, r + n := int m)) S lo hi
           (insert (r + n + 8) B) (insert r (if r \<in> Z then insert (r + n + 8) Z else Z))"
proof -
  let ?q = "r + n + 8" and ?a = "a(r - 8 := int n, r + n := int m)" and ?b = "b(r + n := int n, r + n + 8 + m := int m)"
  let ?B = "insert ?q B"
  note R = blocks_okD [OF ok r]
  have m: "8 dvd m" using R(4) n(2) sum by (metis dvd_add_left_iff dvd_add_right_iff dvd_refl)
  have new: "?q \<notin> B" using R(10) [of ?q] sum n by auto
  have rq: "r - 8 \<noteq> r + n" using n by simp
  have apart: "p + bsize a p + 8 \<le> r \<or> r + n + 8 + m + 8 \<le> p" if "p \<in> B" "p \<noteq> r" for p
    using blocks_apart(1) [OF ok that(1) r that(2)] sum by auto
  have szr: "bsize ?a r = n" and szq: "bsize ?a ?q = m" using rq by (simp_all add: bsize_def)
  have keep: "?a (p - 8) = a (p - 8)" if "p \<in> B" "p \<noteq> r" for p
    using apart [OF that] blocks_apart(2) [OF ok that(1) r that(2)] blocks_okD(1,3) [OF ok that(1)] R(1) n by auto
  have sz: "bsize ?a p = bsize a p" if "p \<in> B" "p \<noteq> r" for p using keep [OF that] by (simp add: bsize_def)
  have bk: "?b (p + bsize a p) = b (p + bsize a p)" if "p \<in> B" "p \<noteq> r" for p
    using apart [OF that] blocks_okD(3) [OF ok that(1)] n by auto
  have ak: "?a (p + bsize a p) = a (p + bsize a p) \<or> p + bsize a p = r - 8" if "p \<in> B" "p \<noteq> r" for p
    using apart [OF that] blocks_okD(3) [OF ok that(1)] n by auto
  have secs: "(r + n) div 2 ^ 26 = (r + n + 8 + m) div 2 ^ 26" using R(6) sum by (intro trans [OF div_between [of "r - 8" "r + n" "r + bsize a r"]]) auto
  show ?thesis
  proof (rule blocks_okI)
    fix x assume x: "x \<in> S"
    have "b (r + n + 8 + m) \<noteq> 0" using R(7) sum pos by (simp add: add.assoc)
    then show "x + 8 \<in> ?B \<and> ?b x = 0" using blocks_start [OF ok x] new by auto
  next
    fix p assume "p \<in> ?B"
    then consider "p = ?q" | "p = r" | "p \<in> B" "p \<noteq> r" by blast
    then show "lo + 8 \<le> p \<and> 8 dvd p \<and> 24 \<le> bsize ?a p \<and> 8 dvd bsize ?a p \<and> p + bsize ?a p + 8 \<le> hi \<and>
        (p - 8) div 2 ^ 26 = (p + bsize ?a p) div 2 ^ 26 \<and> ?b (p + bsize ?a p) = ?a (p - 8)"
    proof cases
      case 1
      then show ?thesis unfolding 1 szq using R(1,2,5) n m secs rq sum by (simp add: add.commute add.left_commute)
    next
      case 2
      have "(r - 8) div 2 ^ 26 = (r + n) div 2 ^ 26" using R(6) secs sum by (simp add: add.assoc)
      then show ?thesis unfolding 2 szr using R(1,2,5) n rq sum by simp
    next
      case 3
      then show ?thesis using blocks_okD(1-7) [OF ok 3(1)] keep [OF 3] bk [OF 3] by (simp add: sz [OF 3])
    qed
  next
    fix p assume "p \<in> ?B"
    then consider "p = ?q" | "p = r" | "p \<in> B" "p \<noteq> r" by blast
    then show "p + bsize ?a p + 8 \<in> ?B \<or> ?a (p + bsize ?a p) = 0"
    proof cases
      case 1
      then show ?thesis unfolding 1 szq using R(8) sum n by (auto simp: add.assoc)
    next
      case 2
      then show ?thesis by (simp add: szr)
    next
      case 3
      then show ?thesis using blocks_okD(8) [OF ok 3(1)] ak [OF 3] r R(1) by (auto simp: sz [OF 3])
    qed
  next
    fix p assume "p \<in> ?B"
    then consider "p = ?q" | "p \<in> B" by blast
    then show "p - 8 \<in> S \<or> (\<exists>p'\<in>?B. p' + bsize ?a p' + 8 = p)"
    proof cases
      case 1
      then have "r + bsize ?a r + 8 = p" by (simp add: szr)
      then show ?thesis using r by blast
    next
      case 2
      have "\<exists>p'\<in>?B. p' + bsize ?a p' + 8 = p" if "p' \<in> B" "p' + bsize a p' + 8 = p" for p'
      proof (cases "p' = r")
        case True
        then have "?q + bsize ?a ?q + 8 = p" using that sum by (simp add: szq)
        then show ?thesis by blast
      next
        case False
        then have "p' + bsize ?a p' + 8 = p" using that sz by simp
        then show ?thesis using that by blast
      qed
      then show ?thesis using blocks_okD(9) [OF ok 2] by metis
    qed
  next
    fix p p' assume "p \<in> ?B" "p' \<in> ?B" "p < p'"
    then show "p + bsize ?a p + 8 \<le> p'"
      using apart [of p] apart [of p'] blocks_okD(10) [OF ok, of p p'] sum
      by (cases "p = ?q"; cases "p = r"; cases "p' = ?q"; cases "p' = r") (auto simp: sz szr szq)
  next
    fix p assume p: "p \<in> ?B" "p \<notin> insert r (if r \<in> Z then insert ?q Z else Z)" "0 < ?a (p - 8)"
    then consider "p = ?q" "r \<notin> Z" | "p \<in> B" "p \<noteq> r" "p \<notin> Z" by (auto split: if_splits)
    then show "?a (p + bsize ?a p) \<le> 0"
    proof cases
      case 1
      have "a (r + bsize a r) \<le> 0" by (rule R(11) [OF 1(2) pos])
      moreover have "p + bsize ?a p = r + bsize a r" unfolding 1 szq using sum by simp
      ultimately show ?thesis using sum n by auto
    next
      case 2
      have a: "0 < a (p - 8)" using p(3) keep [OF 2(1,2)] by simp
      have le: "a (p + bsize a p) \<le> 0" by (rule blocks_okD(11) [OF ok 2(1,3) a])
      then have "p + bsize a p \<noteq> r - 8" using pos by auto
      then show ?thesis using ak [OF 2(1,2)] le by (auto simp: sz [OF 2(1,2)])
    qed
  qed
qed

text \<open>Merging two free neighbours.\<close>

lemma blocks_merge:
  assumes ok: "blocks_ok b a S lo hi B Z" and p: "p \<in> B" and r: "r \<in> B" and nx: "r = p + bsize a p + 8"
    and pos: "0 < a (p - 8)" "0 < a (r - 8)" and n: "n = bsize a p + bsize a r + 8"
    and Z': "Z - {p, r} \<subseteq> Z'" "r \<in> Z \<Longrightarrow> p \<in> Z'"
  shows "blocks_ok (b(p + n := int n)) (a(p - 8 := int n)) S lo hi (B - {r}) Z'"
proof -
  let ?a = "a(p - 8 := int n)" and ?b = "b(p + n := int n)" and ?B = "B - {r}"
  note P = blocks_okD [OF ok p]
  note R = blocks_okD [OF ok r]
  have end_eq: "p + n = r + bsize a r" using n nx by simp
  have apart: "q + bsize a q + 8 \<le> p \<or> r + bsize a r + 8 \<le> q" if "q \<in> B" "q \<noteq> p" "q \<noteq> r" for q
    using blocks_apart(1) [OF ok that(1) p that(2)] blocks_apart(1) [OF ok that(1) r that(3)] P(3) blocks_okD(3) [OF ok that(1)] nx
    by linarith
  have szp: "bsize ?a p = n" by (simp add: bsize_def)
  have keep: "?a (q - 8) = a (q - 8)" if "q \<in> B" "q \<noteq> p" for q
    using blocks_apart(2) [OF ok that(1) p that(2)] by simp
  have sz: "bsize ?a q = bsize a q" if "q \<in> B" "q \<noteq> p" for q using keep [OF that] by (simp add: bsize_def)
  have bk: "?b (q + bsize a q) = b (q + bsize a q)" if "q \<in> B" "q \<noteq> r" for q
    using blocks_apart(3) [OF ok that(1) r that(2)] end_eq by simp
  have rp: "r \<noteq> p" using nx by simp
  show ?thesis
  proof (rule blocks_okI)
    fix x assume x: "x \<in> S"
    have "b (p + bsize a p) \<noteq> 0" "b (p + n) \<noteq> 0" using P(7) R(7) pos end_eq by auto
    then show "x + 8 \<in> ?B \<and> ?b x = 0" using blocks_start [OF ok x] nx by auto
  next
    fix q assume "q \<in> ?B"
    then consider "q = p" | "q \<in> B" "q \<noteq> p" "q \<noteq> r" by blast
    then show "lo + 8 \<le> q \<and> 8 dvd q \<and> 24 \<le> bsize ?a q \<and> 8 dvd bsize ?a q \<and> q + bsize ?a q + 8 \<le> hi \<and>
        (q - 8) div 2 ^ 26 = (q + bsize ?a q) div 2 ^ 26 \<and> ?b (q + bsize ?a q) = ?a (q - 8)"
    proof cases
      case 1
      have "(p - 8) div 2 ^ 26 = (p + n) div 2 ^ 26" using P(6) R(6) end_eq nx by simp
      then show ?thesis unfolding 1 szp using P(1-5) R(4,5) n end_eq by (simp add: dvd_add)
    next
      case 2
      then show ?thesis
        using blocks_okD(1-7) [OF ok 2(1)] keep [OF 2(1,2)] bk [OF 2(1,3)] by (simp add: sz [OF 2(1,2)])
    qed
  next
    fix q assume q: "q \<in> ?B"
    show "q + bsize ?a q + 8 \<in> ?B \<or> ?a (q + bsize ?a q) = 0"
    proof (cases "q = p")
      case True
      have "r + bsize a r \<noteq> p - 8" "r + bsize a r + 8 \<noteq> r" using nx by simp_all
      then show ?thesis unfolding True szp using R(8) end_eq by auto
    next
      case False
      have "q + bsize a q + 8 \<noteq> r" using q nx blocks_apart(3) [OF ok _ p False] by auto
      then show ?thesis using blocks_okD(8) [OF ok, of q] q p P(1) False rp by (auto simp: sz)
    qed
  next
    fix q assume q: "q \<in> ?B"
    have "\<exists>p'\<in>?B. p' + bsize ?a p' + 8 = q" if p': "p' \<in> B" "p' + bsize a p' + 8 = q" for p'
    proof (cases "p' = r")
      case True
      then have "p + bsize ?a p + 8 = q" using p' end_eq by (simp add: szp)
      then show ?thesis using p rp by blast
    next
      case False
      have "p' \<noteq> p" using p'(2) q nx by auto
      then have "p' + bsize ?a p' + 8 = q" using p' sz by simp
      then show ?thesis using p' False by blast
    qed
    then show "q - 8 \<in> S \<or> (\<exists>p'\<in>?B. p' + bsize ?a p' + 8 = q)"
      using blocks_okD(9) [OF ok, of q] q by blast
  next
    fix q q' assume q: "q \<in> ?B" "q' \<in> ?B" "q < q'"
    show "q + bsize ?a q + 8 \<le> q'"
    proof (cases "q = p")
      case True
      then show ?thesis using apart [of q'] q end_eq by (simp add: szp)
    next
      case False
      then show ?thesis using blocks_okD(10) [OF ok, of q q'] q by (simp add: sz)
    qed
  next
    fix q assume q: "q \<in> ?B" "q \<notin> Z'" "0 < ?a (q - 8)"
    show "?a (q + bsize ?a q) \<le> 0"
    proof (cases "q = p")
      case True
      then have "r \<notin> Z" using q(2) Z'(2) by auto
      then have "a (r + bsize a r) \<le> 0" by (rule R(11)) (rule pos(2))
      moreover have "r + bsize a r \<noteq> p - 8" using nx by simp
      ultimately show ?thesis unfolding True szp end_eq by simp
    next
      case False
      have a: "0 < a (q - 8)" "q \<notin> Z" using q Z'(1) keep False by auto
      have le: "a (q + bsize a q) \<le> 0" using q(1) by (intro blocks_okD(11) [OF ok _ a(2,1)]) simp
      then have "q + bsize a q \<noteq> p - 8" using pos by auto
      then show ?thesis using le q(1) False by (auto simp: sz)
    qed
  qed
qed

text \<open>A new slab with one free block.\<close>

lemma blocks_grow:
  assumes ok: "blocks_ok b a S lo hi B Z" and st: "hi \<le> st" "lo \<le> st" "8 dvd st" "st mod 2 ^ 26 = 0"
    and n: "24 \<le> n" "8 dvd n" "n + 16 \<le> 2 ^ 26"
  shows "blocks_ok (b(st := 0, st + 8 + n := int n)) (a(st := int n, st + 8 + n := 0)) (insert st S) lo (st + n + 16)
           (insert (st + 8) B) Z"
proof -
  let ?q = "st + 8" and ?a = "a(st := int n, st + 8 + n := 0)" and ?b = "b(st := 0, st + 8 + n := int n)"
  let ?B = "insert ?q B"
  have below: "p + bsize a p + 8 \<le> st" if "p \<in> B" for p using blocks_okD(5) [OF ok that] st by simp
  have szq: "bsize ?a ?q = n" using n by (simp add: bsize_def)
  have keep: "?a (p - 8) = a (p - 8)" "?a (p + bsize a p) = a (p + bsize a p)" "?b (p + bsize a p) = b (p + bsize a p)"
    if "p \<in> B" for p using below [OF that] by auto
  have sz: "bsize ?a p = bsize a p" if "p \<in> B" for p using keep(1) [OF that] by (simp add: bsize_def)
  have secs: "st div 2 ^ 26 = (st + 8 + n) div 2 ^ 26"
  proof -
    obtain k where k: "st = 2 ^ 26 * k" using st(4) by (metis mod_0_imp_dvd dvdE)
    have "(2 ^ 26 * k + (8 + n)) div 2 ^ 26 = k + (8 + n) div 2 ^ 26" by (rule div_mult_self4) simp
    moreover have "(8 + n) div 2 ^ 26 = 0" using n(3) by (intro div_less) simp
    ultimately show ?thesis by (simp add: k add.assoc)
  qed
  show ?thesis
  proof (rule blocks_okI)
    fix x assume x: "x \<in> insert st S"
    have "x + 8 \<in> B \<and> b x = 0 \<and> x + 8 \<le> st" if "x \<in> S" using blocks_start [OF ok that] below [of "x + 8"] by simp
    then show "x + 8 \<in> ?B \<and> ?b x = 0" using x by auto
  next
    fix p assume "p \<in> ?B"
    then consider "p = ?q" | "p \<in> B" by blast
    then show "lo + 8 \<le> p \<and> 8 dvd p \<and> 24 \<le> bsize ?a p \<and> 8 dvd bsize ?a p \<and> p + bsize ?a p + 8 \<le> st + n + 16 \<and>
        (p - 8) div 2 ^ 26 = (p + bsize ?a p) div 2 ^ 26 \<and> ?b (p + bsize ?a p) = ?a (p - 8)"
    proof cases
      case 1
      then show ?thesis unfolding 1 szq using st n secs by simp
    next
      case 2
      then show ?thesis using blocks_okD(1-7) [OF ok 2] below [OF 2] keep [OF 2] by (simp add: sz [OF 2])
    qed
  next
    fix p assume "p \<in> ?B"
    then consider "p = ?q" | "p \<in> B" by blast
    then show "p + bsize ?a p + 8 \<in> ?B \<or> ?a (p + bsize ?a p) = 0"
    proof cases
      case 1
      then show ?thesis unfolding 1 szq by simp
    next
      case 2
      then show ?thesis using blocks_okD(8) [OF ok 2] keep(2) [OF 2] by (simp add: sz [OF 2])
    qed
  next
    fix p assume p: "p \<in> ?B"
    have "\<exists>p'\<in>?B. p' + bsize ?a p' + 8 = p" if "p' \<in> B" "p' + bsize a p' + 8 = p" for p'
      using that by (intro bexI [of _ p']) (simp_all add: sz)
    then show "p - 8 \<in> insert st S \<or> (\<exists>p'\<in>?B. p' + bsize ?a p' + 8 = p)"
      using p blocks_okD(9) [OF ok, of p] by auto
  next
    fix p p' assume p: "p \<in> ?B" "p' \<in> ?B" "p < p'"
    then have pB: "p \<in> B" using below [of p'] by auto
    then have "p + bsize a p + 8 \<le> p'" using p blocks_okD(10) [OF ok pB, of p'] below [OF pB] by auto
    then show "p + bsize ?a p + 8 \<le> p'" by (simp add: sz [OF pB])
  next
    fix p assume p: "p \<in> ?B" "p \<notin> Z" "0 < ?a (p - 8)"
    show "?a (p + bsize ?a p) \<le> 0"
    proof (cases "p = ?q")
      case True
      then show ?thesis unfolding True szq by simp
    next
      case False
      then have pB: "p \<in> B" using p(1) by simp
      then show ?thesis using blocks_okD(11) [OF ok pB p(2)] p(3) keep(1,2) [OF pB] by (simp add: sz [OF pB])
    qed
  qed
qed

subsection \<open>The free lists\<close>

definition flist :: "block_map \<Rightarrow> int \<Rightarrow> nat list" where
  "flist m k = (case map_of m k of None \<Rightarrow> [] | Some l \<Rightarrow> l)"

definition map_ok :: "block_map \<Rightarrow> bool" where
  "map_ok m \<longleftrightarrow> sorted_wrt (<) (map fst m) \<and> (\<forall>e\<in>set m. snd e \<noteq> [])"

lemma flist_simps [simp]:
  "flist [] k = []" "flist ((k', l) # m) k = (if k = k' then l else flist m k)"
  by (auto simp: flist_def)

lemma map_ok_simps [simp]:
  "map_ok []" "map_ok ((k, l) # m) \<longleftrightarrow> l \<noteq> [] \<and> (\<forall>e\<in>set m. k < fst e) \<and> map_ok m"
  by (auto simp: map_ok_def)

lemma flist_above: "\<forall>e\<in>set m. k < fst e \<Longrightarrow> k' \<le> k \<Longrightarrow> flist m k' = []"
  by (induction m) auto

lemma set_map_insert: "e \<in> set (map_insert k l m) \<Longrightarrow> e = (k, l) \<or> e \<in> set m"
  by (induction k l m rule: map_insert.induct) (auto split: if_splits)

lemma map_insert_ok:
  "map_ok m \<Longrightarrow> l \<noteq> [] \<Longrightarrow> map_ok (map_insert k l m) \<and> flist (map_insert k l m) = (flist m)(k := l)"
proof (induction k l m rule: map_insert.induct)
  case (2 k v k' v' bm)
  then show ?case using flist_above [of bm k' k] by (auto simp: fun_eq_iff dest!: set_map_insert)
qed (simp add: fun_eq_iff)

lemma set_map_erase: "e \<in> set (map_erase k m) \<Longrightarrow> e \<in> set m"
  by (induction k m rule: map_erase.induct) (auto split: if_splits)

lemma map_erase_ok: "map_ok m \<Longrightarrow> map_ok (map_erase k m) \<and> flist (map_erase k m) = (flist m)(k := [])"
proof (induction k m rule: map_erase.induct)
  case (2 k k' v bm)
  then show ?case using flist_above [of bm k' k] by (auto simp: fun_eq_iff dest!: set_map_erase)
qed (simp add: fun_eq_iff)

definition lists_ok :: "(nat \<Rightarrow> int) \<Rightarrow> block_map \<Rightarrow> nat set \<Rightarrow> nat set \<Rightarrow> bool" where
  "lists_ok a m B X \<longleftrightarrow> map_ok m \<and>
     (\<forall>k. distinct (flist m k) \<and> set (flist m k) = {r \<in> B. r \<notin> X \<and> 0 < k \<and> a (r - 8) = k})"

lemma lists_okD:
  assumes "lists_ok a m B X"
  shows "map_ok m" "distinct (flist m k)" "set (flist m k) = {r \<in> B. r \<notin> X \<and> 0 < k \<and> a (r - 8) = k}"
  using assms unfolding lists_ok_def by blast+

lemma push_lists:
  assumes ok: "lists_ok a m B X" and r: "r \<in> B" "r \<in> X" "0 < a (r - 8)"
    and m': "map_ok m'" "flist m' = (flist m)(a (r - 8) := r # flist m (a (r - 8)))"
  shows "lists_ok a m' B (X - {r})"
  unfolding lists_ok_def
proof (intro conjI allI)
  note L = lists_okD [OF ok]
  show "map_ok m'" by (rule m'(1))
  fix k
  show "distinct (flist m' k)" using L(2) r(2) by (simp add: m'(2) L(3))
  show "set (flist m' k) = {q \<in> B. q \<notin> X - {r} \<and> 0 < k \<and> a (q - 8) = k}"
    using r by (auto simp: m'(2) L(3))
qed

lemma drop_lists:
  assumes ok: "lists_ok a m B X" and r: "r \<in> B" "0 < a (r - 8)"
    and m': "map_ok m'" "flist m' = (flist m)(a (r - 8) := remove1 r (flist m (a (r - 8))))"
  shows "lists_ok a m' B (insert r X)"
  unfolding lists_ok_def
proof (intro conjI allI)
  note L = lists_okD [OF ok]
  show "map_ok m'" by (rule m'(1))
  fix k
  show "distinct (flist m' k)" using L(2) by (simp add: m'(2))
  show "set (flist m' k) = {q \<in> B. q \<notin> insert r X \<and> 0 < k \<and> a (q - 8) = k}"
    using r L(2) by (auto simp: m'(2) L(3))
qed

text \<open>The sizes of blocks that are not in a list may change, and such blocks may come and go.\<close>

lemma lists_change:
  assumes ok: "lists_ok a m B X"
    and same: "\<And>r. r \<in> B \<Longrightarrow> r \<notin> X \<Longrightarrow> 0 < a (r - 8) \<Longrightarrow> r \<in> B' \<and> r \<notin> X' \<and> a' (r - 8) = a (r - 8)"
    and conv: "\<And>r. r \<in> B' \<Longrightarrow> r \<notin> X' \<Longrightarrow> 0 < a' (r - 8) \<Longrightarrow> r \<in> B \<and> r \<notin> X \<and> 0 < a (r - 8)"
  shows "lists_ok a' m B' X'"
  unfolding lists_ok_def
proof (intro conjI allI)
  note L = lists_okD [OF ok]
  show "map_ok m" by (rule L(1))
  fix k
  show "distinct (flist m k)" by (rule L(2))
  show "set (flist m k) = {r \<in> B'. r \<notin> X' \<and> 0 < k \<and> a' (r - 8) = k}"
  proof (intro set_eqI)
    fix r
    show "r \<in> set (flist m k) \<longleftrightarrow> r \<in> {r \<in> B'. r \<notin> X' \<and> 0 < k \<and> a' (r - 8) = k}"
      using same [of r] conv [of r] by (auto simp: L(3))
  qed
qed

end
