(* ===== verification/Slab_Invariant.thy ===== *)
theory Slab_Invariant
  imports Slab_Blocks
begin

text \<open>
  The invariant of the slab allocator and its preservation by the operations: every reachable
  state is a tiling of the slabs by blocks whose free lists are exact and coalesced, an
  allocation adds one used block of at least the requested size, and a free removes it.
\<close>

subsection \<open>The invariant\<close>

fun slab_chain :: "nat \<Rightarrow> slab list \<Rightarrow> bool" where
  "slab_chain ref_start [] \<longleftrightarrow> True"
| "slab_chain ref_start (e # es) \<longleftrightarrow>
     40 \<le> slab_size e \<and> slab_size e \<le> 2 ^ 26 \<and> 8 dvd slab_size e \<and> ref_end e = ref_start + slab_size e \<and>
     slab_chain (align_size_to_section_boundary (ref_end e)) es"

definition slab_starts :: "slab list \<Rightarrow> nat set" where
  "slab_starts sls = (\<lambda>e. ref_end e - slab_size e) ` set sls"

definition slab_inv :: "slab_alloc \<Rightarrow> nat set \<Rightarrow> nat set \<Rightarrow> nat set \<Rightarrow> bool" where
  "slab_inv s B Z X \<longleftrightarrow>
     blocks_ok (block_before_size s) (block_after_size s) (slab_starts (m_slabs s)) (m_baseline s) (get_total_size s) B Z \<and>
     lists_ok (block_after_size s) (m_block_map s) B X \<and>
     slab_chain (align_size_to_section_boundary (m_baseline s)) (m_slabs s)"

text \<open>The blocks in use, with their sizes.\<close>

definition used :: "(nat \<Rightarrow> int) \<Rightarrow> nat set \<Rightarrow> (nat \<times> nat) set" where
  "used a B = {(r, n). r \<in> B \<and> 0 < n \<and> a (r - 8) = - int n}"

text \<open>Everything of the state but the blocks.\<close>

definition same_frame :: "slab_alloc \<Rightarrow> slab_alloc \<Rightarrow> bool" where
  "same_frame s s' \<longleftrightarrow> m_is_read_only s' = m_is_read_only s \<and> m_baseline s' = m_baseline s \<and>
     m_free_space_state s' = m_free_space_state s \<and> m_free_read_only s' = m_free_read_only s \<and>
     m_commit_size s' = m_commit_size s"

lemma same_frame_refl [simp]: "same_frame s s"
  by (simp add: same_frame_def)

lemma same_frame_trans: "same_frame s s1 \<Longrightarrow> same_frame s1 s2 \<Longrightarrow> same_frame s s2"
  by (simp add: same_frame_def)

lemma set_before_simps [simp]:
  "block_before_size (set_before x v s) = (block_before_size s)(x := v)"
  "block_after_size (set_before x v s) = block_after_size s"
  "m_block_map (set_before x v s) = m_block_map s" "m_slabs (set_before x v s) = m_slabs s"
  "m_baseline (set_before x v s) = m_baseline s" "get_total_size (set_before x v s) = get_total_size s"
  "same_frame s0 (set_before x v s) = same_frame s0 s"
  by (simp_all add: set_before_def get_total_size_def same_frame_def)

lemma set_after_simps [simp]:
  "block_after_size (set_after x v s) = (block_after_size s)(x := v)"
  "block_before_size (set_after x v s) = block_before_size s"
  "m_block_map (set_after x v s) = m_block_map s" "m_slabs (set_after x v s) = m_slabs s"
  "m_baseline (set_after x v s) = m_baseline s" "get_total_size (set_after x v s) = get_total_size s"
  "same_frame s0 (set_after x v s) = same_frame s0 s"
  by (simp_all add: set_after_def get_total_size_def same_frame_def)

lemma set_map_simps [simp]:
  "block_after_size (s\<lparr>m_block_map := bm\<rparr>) = block_after_size s"
  "block_before_size (s\<lparr>m_block_map := bm\<rparr>) = block_before_size s"
  "get_total_size (s\<lparr>m_block_map := bm\<rparr>) = get_total_size s"
  "same_frame s0 (s\<lparr>m_block_map := bm\<rparr>) = same_frame s0 s"
  by (simp_all add: get_total_size_def same_frame_def)

lemma slab_inv_frame:
  assumes "slab_inv s B Z X" "block_before_size s' = block_before_size s" "block_after_size s' = block_after_size s"
    "m_slabs s' = m_slabs s" "m_block_map s' = m_block_map s" "m_baseline s' = m_baseline s"
  shows "slab_inv s' B Z X"
  using assms(1) unfolding slab_inv_def get_total_size_def assms(2-6) .

lemma bb_before_eq: "bb_before r = r - 8"
  by (simp add: bb_before_def sizeof_BetweenBlocks_def)

lemma bb_after_eq: "0 < block_after_size s (r - 8) \<Longrightarrow> bb_after s r = r + bsize (block_after_size s) r"
  by (simp add: bb_after_def bb_before_eq bsize_def nat_add_distrib)

subsection \<open>Sections\<close>

lemma align_section:
  "x \<le> align_size_to_section_boundary x" "align_size_to_section_boundary x mod 2 ^ 26 = 0"
  "8 dvd align_size_to_section_boundary x" "align_size_to_section_boundary x < x + 2 ^ 26"
proof -
  let ?k = "2 ^ 26 :: nat"
  have eq: "align_size_to_section_boundary x = (if x mod ?k = 0 then x else (1 + x div ?k) * ?k)"
    by (auto simp: align_size_to_section_boundary_def matches_section_boundary_def get_lower_section_boundary_def
        get_upper_section_boundary_def get_section_base_def get_section_index_def minus_mod_eq_div_mult [symmetric])
  have x: "x = x div ?k * ?k + x mod ?k" "x mod ?k < ?k" by simp_all
  have "x div ?k * ?k = x - x mod ?k" by (rule minus_mod_eq_div_mult [symmetric])
  then have up: "(1 + x div ?k) * ?k = x + (?k - x mod ?k)"
    using x(2) mod_less_eq_dividend [of x ?k] by (simp add: add_mult_distrib)
  show "x \<le> align_size_to_section_boundary x" "align_size_to_section_boundary x < x + ?k"
    using x(2) unfolding eq up by (auto intro: diff_less)
  show z: "align_size_to_section_boundary x mod ?k = 0" unfolding eq by simp
  then show "8 dvd align_size_to_section_boundary x"
    using dvd_trans [of 8 ?k] by (auto simp: dvd_eq_mod_eq_0 [symmetric])
qed

lemma slab_chain_append:
  "slab_chain r (sls @ [e]) \<longleftrightarrow> slab_chain r sls \<and>
     slab_chain (if sls = [] then r else align_size_to_section_boundary (ref_end (last sls))) [e]"
  by (induction r sls rule: slab_chain.induct) auto

subsection \<open>The free lists\<close>

lemma push_lists_state:
  assumes L: "lists_ok (block_after_size s) (m_block_map s) B X" and r: "r \<in> B" "r \<in> X" "0 < block_after_size s (r - 8)"
  shows "lists_ok (block_after_size s) (m_block_map (push_freelist_entry r s)) B (X - {r})"
    "same_frame s (push_freelist_entry r s)" "block_after_size (push_freelist_entry r s) = block_after_size s"
    "block_before_size (push_freelist_entry r s) = block_before_size s" "m_slabs (push_freelist_entry r s) = m_slabs s"
    "m_baseline (push_freelist_entry r s) = m_baseline s"
proof -
  let ?k = "block_after_size s (r - 8)" and ?m = "m_block_map s"
  have eq: "push_freelist_entry r s = s\<lparr>m_block_map := map_insert ?k (r # flist ?m ?k) ?m\<rparr>"
    by (simp add: push_freelist_entry_def bb_before_eq flist_def Let_def split: option.splits)
  have "lists_ok (block_after_size s) (map_insert ?k (r # flist ?m ?k) ?m) B (X - {r})"
    using map_insert_ok [OF lists_okD(1) [OF L], of "r # flist ?m ?k" ?k] by (intro push_lists [OF L r]) auto
  then show "lists_ok (block_after_size s) (m_block_map (push_freelist_entry r s)) B (X - {r})" by (simp add: eq)
  show "same_frame s (push_freelist_entry r s)" "block_after_size (push_freelist_entry r s) = block_after_size s"
    "block_before_size (push_freelist_entry r s) = block_before_size s" "m_slabs (push_freelist_entry r s) = m_slabs s"
    "m_baseline (push_freelist_entry r s) = m_baseline s" by (simp_all add: eq)
qed

lemma push_inv:
  assumes inv: "slab_inv s B Z X" and r: "r \<in> B" "r \<in> X" "0 < block_after_size s (r - 8)"
  shows "slab_inv (push_freelist_entry r s) B Z (X - {r})" "same_frame s (push_freelist_entry r s)"
    "block_after_size (push_freelist_entry r s) = block_after_size s"
    "block_before_size (push_freelist_entry r s) = block_before_size s"
proof -
  have "lists_ok (block_after_size s) (m_block_map s) B X" using inv by (simp add: slab_inv_def)
  note P = push_lists_state [OF this r]
  show "slab_inv (push_freelist_entry r s) B Z (X - {r})" 
    using inv P(1) unfolding slab_inv_def get_total_size_def P(3-6) by blast
  show "same_frame s (push_freelist_entry r s)" "block_after_size (push_freelist_entry r s) = block_after_size s"
    "block_before_size (push_freelist_entry r s) = block_before_size s" by (rule P)+
qed

lemma remove_inv:
  assumes inv: "slab_inv s B Z X" and r: "r \<in> B" "r \<notin> X" "0 < block_after_size s (r - 8)"
  shows "slab_inv (remove_freelist_entry r s) B Z (insert r X)" "same_frame s (remove_freelist_entry r s)"
    "block_after_size (remove_freelist_entry r s) = block_after_size s"
    "block_before_size (remove_freelist_entry r s) = block_before_size s"
proof -
  let ?k = "block_after_size s (r - 8)" and ?m = "m_block_map s"
  have L: "lists_ok (block_after_size s) ?m B X" using inv by (simp add: slab_inv_def)
  have "r \<in> set (flist ?m ?k)" using lists_okD(3) [OF L, of ?k] r by auto
  then have eq: "remove_freelist_entry r s =
      s\<lparr>m_block_map := (if remove1 r (flist ?m ?k) = [] then map_erase ?k ?m else map_insert ?k (remove1 r (flist ?m ?k)) ?m)\<rparr>"
    by (auto simp: remove_freelist_entry_def bb_before_eq flist_def Let_def split: option.splits)
  have "lists_ok (block_after_size s) (if remove1 r (flist ?m ?k) = [] then map_erase ?k ?m
      else map_insert ?k (remove1 r (flist ?m ?k)) ?m) B (insert r X)"
    using map_insert_ok [OF lists_okD(1) [OF L], of "remove1 r (flist ?m ?k)" ?k] map_erase_ok [OF lists_okD(1) [OF L], of ?k]
    by (intro drop_lists [OF L r(1,3)]) auto
  then show "slab_inv (remove_freelist_entry r s) B Z (insert r X)" using inv by (simp add: slab_inv_def eq)
  show "same_frame s (remove_freelist_entry r s)" "block_after_size (remove_freelist_entry r s) = block_after_size s"
    "block_before_size (remove_freelist_entry r s) = block_before_size s" by (simp_all add: eq)
qed

text \<open>Taking the first block of a list that an iterator points to.\<close>

lemma map_of_mem: "map_ok m \<Longrightarrow> (k, l) \<in> set m \<Longrightarrow> flist m k = l \<and> l \<noteq> []"
  by (induction m) fastforce+

lemma pop_inv:
  assumes inv: "slab_inv s B Z X" and it: "snd list \<noteq> []" "hd (snd list) \<in> set (m_block_map s)"
    and run: "pop_freelist_entry list s = (r, s')"
  shows "slab_inv s' B Z (insert r X)" "r \<in> B" "r \<notin> X" "block_after_size s (r - 8) = fst (hd (snd list))"
    "0 < fst (hd (snd list))" "same_frame s s'" "block_after_size s' = block_after_size s"
    "block_before_size s' = block_before_size s"
proof -
  let ?m = "m_block_map s"
  obtain k l where hd: "hd (snd list) = (k, l)" by (cases "hd (snd list)")
  have L: "lists_ok (block_after_size s) ?m B X" using inv by (simp add: slab_inv_def)
  have l: "flist ?m k = l" "l \<noteq> []" using map_of_mem [OF lists_okD(1) [OF L], of k l] it(2) hd by simp_all
  have r: "r = hd l" using run by (auto simp: pop_freelist_entry_def hd Let_def split: if_splits)
  have eq: "s' = s\<lparr>m_block_map := (if tl l = [] then map_erase k ?m else map_insert k (tl l) ?m)\<rparr>"
    using run by (auto simp: pop_freelist_entry_def hd Let_def split: if_splits)
  have "r \<in> set (flist ?m k)" using l r by simp
  then have R: "r \<in> B" "r \<notin> X" "0 < k" "block_after_size s (r - 8) = k" using lists_okD(3) [OF L, of k] by auto
  have tl: "tl l = remove1 r l" using l(2) r by (cases l) simp_all
  have "lists_ok (block_after_size s) (if tl l = [] then map_erase k ?m else map_insert k (tl l) ?m) B (insert r X)"
    using map_insert_ok [OF lists_okD(1) [OF L], of "tl l" k] map_erase_ok [OF lists_okD(1) [OF L], of k] R l(1) tl
    by (intro drop_lists [OF L R(1)]) auto
  then show "slab_inv s' B Z (insert r X)" using inv by (simp add: slab_inv_def eq)
  show "r \<in> B" "r \<notin> X" "block_after_size s (r - 8) = fst (hd (snd list))" "0 < fst (hd (snd list))"
    using R by (simp_all add: hd)
  show "same_frame s s'" "block_after_size s' = block_after_size s" "block_before_size s' = block_before_size s"
    by (simp_all add: eq)
qed

lemma find_hd:
  assumes "snd (find_freelist s n) \<noteq> []"
  shows "hd (snd (find_freelist s n)) \<in> set (m_block_map s)" "int n \<le> fst (hd (snd (find_freelist s n)))"
    "fst (find_freelist s n) = fst (hd (snd (find_freelist s n)))"
proof -
  let ?P = "\<lambda>e. fst e < int n"
  have it: "snd (find_freelist s n) = dropWhile ?P (m_block_map s)" by (simp add: find_freelist_def Let_def split: list.splits)
  then have ne: "dropWhile ?P (m_block_map s) \<noteq> []" using assms by simp
  show "hd (snd (find_freelist s n)) \<in> set (m_block_map s)" using hd_in_set [OF ne] set_dropWhileD it by fastforce
  show "int n \<le> fst (hd (snd (find_freelist s n)))" using hd_dropWhile [OF ne] it by simp
  show "fst (find_freelist s n) = fst (hd (snd (find_freelist s n)))" using ne by (auto simp: find_freelist_def Let_def split: list.splits)
qed

lemma find_none: "snd (find_freelist s n) = [] \<Longrightarrow> fst (find_freelist s n) = 0"
  unfolding find_freelist_def Let_def by (cases "dropWhile (\<lambda>e. fst e < int n) (m_block_map s)") (auto simp del: dropWhile_eq_Nil_conv)

lemma find_larger_hd:
  assumes "fst (find_larger (find_freelist s n) n) \<noteq> 0"
  shows "snd (find_larger (find_freelist s n) n) \<noteq> []"
    "hd (snd (find_larger (find_freelist s n) n)) \<in> set (m_block_map s)" "int (n + 32) \<le> fst (hd (snd (find_larger (find_freelist s n) n)))"
proof -
  let ?P = "\<lambda>e. fst e < int (n + 32)"
  have it: "snd (find_larger (find_freelist s n) n) = dropWhile ?P (snd (find_freelist s n))"
    by (simp add: find_larger_def Let_def sizeof_BetweenBlocks_def sizeof_FreeBlock_def add.commute)
  show ne: "snd (find_larger (find_freelist s n) n) \<noteq> []" using assms by (auto simp: find_larger_def Let_def split: if_splits)
  have "snd (find_freelist s n) = dropWhile (\<lambda>e. fst e < int n) (m_block_map s)" by (simp add: find_freelist_def Let_def split: list.splits)
  then have "set (snd (find_freelist s n)) \<subseteq> set (m_block_map s)" by (auto dest: set_dropWhileD)
  moreover have "hd (snd (find_larger (find_freelist s n) n)) \<in> set (snd (find_freelist s n))"
    using hd_in_set [OF ne] unfolding it by (rule set_dropWhileD)
  ultimately show "hd (snd (find_larger (find_freelist s n) n)) \<in> set (m_block_map s)" by blast
  show "int (n + 32) \<le> fst (hd (snd (find_larger (find_freelist s n) n)))" using hd_dropWhile [of ?P "snd (find_freelist s n)"] ne it by simp
qed

subsection \<open>Breaking, marking and growing\<close>

lemma bsize_pos: "0 < a (r - 8) \<Longrightarrow> int (bsize a r) = a (r - 8)"
  by (simp add: bsize_def)

lemma used_change:
  assumes "\<And>r. r \<in> B \<Longrightarrow> a (r - 8) < 0 \<Longrightarrow> r \<in> B' \<and> a' (r - 8) = a (r - 8)"
    and "\<And>r. r \<in> B' \<Longrightarrow> a' (r - 8) < 0 \<Longrightarrow> r \<in> B \<and> a (r - 8) < 0"
  shows "used a' B' = used a B"
proof (intro set_eqI)
  fix x :: "nat \<times> nat"
  obtain q k where x: "x = (q, k)" by (cases x)
  show "x \<in> used a' B' \<longleftrightarrow> x \<in> used a B" using assms(1) [of q] assms(2) [of q] by (auto simp: x used_def)
qed

lemma break_block_eq:
  assumes "block_after_size s (r - 8) = int (n + 8 + m)" "24 \<le> m"
  shows "break_block r n s = (Some (r + n + 8), set_after (r + n) (int m) (set_before (r + n) (int n)
           (set_after (r - 8) (int n) (set_before (r + n + 8 + m) (int m) s))))"
proof -
  have "bb_after s r = r + n + 8 + m" using assms(1) by (simp add: bb_after_def bb_before_eq nat_int_add)
  moreover have "bb_after (set_after (r - 8) (int n) s1) r = r + n" for s1 by (simp add: bb_after_def bb_before_eq nat_int_add)
  ultimately show ?thesis using assms
    by (simp add: break_block_def size_from_block_def bb_before_eq sizeof_FreeBlock_def sizeof_BetweenBlocks_def Let_def
        block_after_def)
qed

lemma break_inv:
  assumes inv: "slab_inv s B {} {r}" and r: "r \<in> B" "0 < block_after_size s (r - 8)"
    and n: "24 \<le> n" "8 dvd n" "n \<le> bsize (block_after_size s) r" and run: "break_block r n s = (rem, s1)"
    and s': "s' = (case rem of Some q \<Rightarrow> push_freelist_entry q s1 | None \<Rightarrow> s1)"
  obtains B' where "slab_inv s' B' {r} {r}" "r \<in> B'" "0 < block_after_size s' (r - 8)"
    "n \<le> bsize (block_after_size s') r" "bsize (block_after_size s') r < n + 32"
    "used (block_after_size s') B' = used (block_after_size s) B" "same_frame s s'" "m_slabs s' = m_slabs s"
proof -
  let ?b = "block_before_size s" and ?a = "block_after_size s"
  have B: "blocks_ok ?b ?a (slab_starts (m_slabs s)) (m_baseline s) (get_total_size s) B {}"
    and L: "lists_ok ?a (m_block_map s) B {r}" using inv by (simp_all add: slab_inv_def)
  show thesis
  proof (cases "bsize ?a r < n + 32")
    case True
    then have "break_block r n s = (None, s)"
      using bsize_pos [of ?a r] r(2)
      by (simp add: break_block_def size_from_block_def bb_before_eq sizeof_FreeBlock_def sizeof_BetweenBlocks_def Let_def)
    then have "s' = s" using run s' by simp
    moreover have "slab_inv s B {r} {r}" using inv blocks_mono [OF B, of "{r}"] by (simp add: slab_inv_def)
    ultimately show ?thesis using that [of B] True r n by simp
  next
    case False
    define m where "m = bsize ?a r - (n + 8)"
    have sum: "bsize ?a r = n + 8 + m" and m: "24 \<le> m" using False by (simp_all add: m_def)
    let ?q = "r + n + 8" and ?a' = "?a(r - 8 := int n, r + n := int m)" and ?b' = "?b(r + n := int n, r + n + 8 + m := int m)"
    have rq: "r - 8 \<noteq> r + n" using n by simp
    have "block_after_size s (r - 8) = int (n + 8 + m)" using bsize_pos [of ?a r] r(2) sum by simp
    note eq0 = break_block_eq [OF this m, unfolded run]
    then have eq: "rem = Some ?q" "block_before_size s1 = ?b'" "block_after_size s1 = ?a'" "m_block_map s1 = m_block_map s"
        "m_slabs s1 = m_slabs s" "get_total_size s1 = get_total_size s" "m_baseline s1 = m_baseline s" "same_frame s s1"
      using m by (simp_all add: fun_upd_twist)
    have qB: "?q \<notin> B" using blocks_okD(10) [OF B r(1), of ?q] sum n by auto
    note B1 = blocks_break [OF B r n(1,2) m sum, simplified]
    have keep: "?a' (p - 8) = ?a (p - 8)" if "p \<in> B" "p \<noteq> r" for p
      using blocks_apart [OF B that(1) r(1) that(2)] blocks_okD(1,3) [OF B that(1)] sum n by auto
    have "lists_ok ?a' (m_block_map s) (insert ?q B) {r, ?q}"
      by (rule lists_change [OF L]) (use keep qB in auto)
    then have I1: "slab_inv s1 (insert ?q B) {r} {r, ?q}" using B1 inv by (simp add: slab_inv_def eq)
    have s'': "s' = push_freelist_entry ?q s1" by (simp add: s' eq)
    have "0 < block_after_size s1 (?q - 8)" using m by (simp add: eq)
    note P = push_inv [OF I1 _ _ this, folded s'', simplified]
    have "{r, ?q} - {?q} = {r}" by auto
    then have "slab_inv s' (insert ?q B) {r} {r}" using P(1) by simp
    moreover have sz: "bsize (block_after_size s') r = n" "0 < block_after_size s' (r - 8)"
      using P(3) n(1) rq by (simp_all add: eq bsize_def)
    moreover have "used (block_after_size s') (insert ?q B) = used ?a B"
      unfolding P(3) eq(3)
    proof (rule used_change)
      show "p \<in> insert ?q B \<and> ?a' (p - 8) = ?a (p - 8)" if "p \<in> B" "?a (p - 8) < 0" for p
        using that keep [of p] r(2) by (cases "p = r") (auto simp del: fun_upd_apply)
      fix p assume p: "p \<in> insert ?q B" "?a' (p - 8) < 0"
      then have "p \<noteq> ?q" "p \<noteq> r" using m n rq by auto
      then show "p \<in> B \<and> ?a (p - 8) < 0" using p keep [of p] by (simp del: fun_upd_apply)
    qed
    moreover have "m_slabs s' = m_slabs s" by (simp add: s'' push_freelist_entry_def Let_def eq split: option.splits)
    ultimately show ?thesis
      using that [of "insert ?q B"] r(1) same_frame_trans [OF eq(8) P(2)] by simp
  qed
qed

lemma mark_allocated_inv:
  assumes inv: "slab_inv s B {r} {r}" and r: "r \<in> B" "0 < block_after_size s (r - 8)"
  shows "slab_inv (mark_allocated r s) B {} {}" "same_frame s (mark_allocated r s)"
    "used (block_after_size (mark_allocated r s)) B = insert (r, bsize (block_after_size s) r) (used (block_after_size s) B)"
proof -
  let ?b = "block_before_size s" and ?a = "block_after_size s" and ?n = "bsize (block_after_size s) r"
  have B: "blocks_ok ?b ?a (slab_starts (m_slabs s)) (m_baseline s) (get_total_size s) B {r}"
    and L: "lists_ok ?a (m_block_map s) B {r}" using inv by (simp_all add: slab_inv_def)
  let ?s = "mark_allocated r s" and ?v = "- ?a (r - 8)"
  have eq: "block_before_size ?s = ?b(r + ?n := ?v)" "block_after_size ?s = ?a(r - 8 := ?v)"
    "m_block_map ?s = m_block_map s" "m_slabs ?s = m_slabs s" "get_total_size ?s = get_total_size s"
    "m_baseline ?s = m_baseline s" "same_frame s ?s"
    using bb_after_eq [of s r] r blocks_okD(7) [OF B r(1)] by (simp_all add: mark_allocated_def Let_def bb_before_eq)
  have apart: "q - 8 \<noteq> r - 8" if "q \<in> B" "q \<noteq> r" for q using blocks_apart(2) [OF B that(1) r(1) that(2)] .
  have "blocks_ok (?b(r + ?n := ?v)) (?a(r - 8 := ?v)) (slab_starts (m_slabs s)) (m_baseline s) (get_total_size s) B {}"
    using r by (intro blocks_mark [OF B r(1)]) simp_all
  moreover have "lists_ok (?a(r - 8 := ?v)) (m_block_map s) B {}"
    by (rule lists_change [OF L]) (use apart r in \<open>auto split: if_splits\<close>)
  ultimately show "slab_inv ?s B {} {}" using inv by (simp add: slab_inv_def eq)
  show "same_frame s ?s" by (rule eq(7))
  have n: "?a (r - 8) = int ?n" "0 < ?n" using bsize_pos [of ?a r] r by simp_all
  show "used (block_after_size ?s) B = insert (r, ?n) (used ?a B)"
  proof (intro set_eqI)
    fix x :: "nat \<times> nat"
    obtain q k where x: "x = (q, k)" by (cases x)
    show "x \<in> used (block_after_size ?s) B \<longleftrightarrow> x \<in> insert (r, ?n) (used ?a B)"
      using apart [of q] r n by (cases "q = r") (auto simp: x used_def eq)
  qed
qed

lemma slab_chain_last:
  "slab_chain st sls \<Longrightarrow> sls \<noteq> [] \<Longrightarrow> st \<le> ref_end (last sls)"
proof (induction st sls rule: slab_chain.induct)
  case (2 st e es)
  then show ?case using align_section(1) [of "ref_end e"] by (cases "es = []") auto
qed simp

lemma grow_size_bounds:
  "sz \<le> grow_size n sz" "n \<le> grow_size n sz" "8 dvd n \<Longrightarrow> 8 dvd grow_size n sz"
proof (induction n sz rule: grow_size.induct)
  case (1 n sz)
  have eq: "grow_size n sz = (if n < sz then grow_size (n + minimal_alloc) sz else n)" by (rule grow_size.simps)
  { case 1 show ?case using "1.IH"(1) eq by auto }
  { case 2 show ?case using "1.IH"(2) eq by auto }
  { case 3 show ?case using "1.IH"(3) 3 eq by (auto simp: minimal_alloc_def) }
qed

lemma allocated_size_dvd: "slab_chain st sls \<Longrightarrow> 8 dvd sum_list (map slab_size sls)"
  by (induction st sls rule: slab_chain.induct) auto

lemma slab_to_entry_eq:
  assumes "ref_end sl = st + n + 16" "0 < n"
  shows "slab_to_entry sl st s = (st + 8, set_after (st + 8 + n) 0 (set_before (st + 8 + n) (int n)
           (set_after st (int n) (set_before st 0 s))))"
proof -
  have "bb_after (set_after st (int n) s1) (st + 8) = st + 8 + n" for s1 by (simp add: bb_after_def bb_before_eq nat_int_add)
  then show ?thesis using assms by (simp add: slab_to_entry_def sizeof_BetweenBlocks_def Let_def)
qed

lemma grow_inv:
  assumes inv: "slab_inv s B {} {}" and n: "24 \<le> n" "n \<le> 2 ^ 26 - 16" and run: "grow_slab n s = Inr (r, s')"
  shows "slab_inv s' (insert r B) {} {r}" "0 < block_after_size s' (r - 8)" "n \<le> bsize (block_after_size s') r"
    "used (block_after_size s') (insert r B) = used (block_after_size s) B" "same_frame s s'"
proof -
  let ?b = "block_before_size s" and ?a = "block_after_size s"
  have B: "blocks_ok ?b ?a (slab_starts (m_slabs s)) (m_baseline s) (get_total_size s) B {}"
    and L: "lists_ok ?a (m_block_map s) B {}"
    and C: "slab_chain (align_size_to_section_boundary (m_baseline s)) (m_slabs s)" using inv by (simp_all add: slab_inv_def)
  define z0 where "z0 = (let z = grow_size minimal_alloc (n + 16) in if z < get_allocated_size s then get_allocated_size s else z)"
  define z where "z = (if z0 > maximal_alloc then maximal_alloc else z0)"
  define st where "st = align_size_to_section_boundary (get_total_size s)"
  have z0: "n + 16 \<le> z0" "8 dvd z0"
    using grow_size_bounds [where n = minimal_alloc and sz = "n + 16"] allocated_size_dvd [OF C]
    by (auto simp: z0_def Let_def get_allocated_size_def minimal_alloc_def)
  have z: "n + 16 \<le> z" "z \<le> 2 ^ 26" "8 dvd z" using z0 n by (auto simp: z_def maximal_alloc_def)
  define k where "k = z - 16"
  have k: "n \<le> k" "z = k + 16" "8 dvd k" "24 \<le> k" using z n by (auto simp: k_def intro: dvd_diff_nat)
  let ?sl = "\<lparr>ref_end = st + z, slab_size = z\<rparr>"
  have "Inr (r, s') = (Inr (slab_to_entry ?sl st (s\<lparr>m_slabs := m_slabs s @ [?sl]\<rparr>)) :: (nat \<times> slab_alloc) result)"
    using run unfolding grow_slab_def Let_def sizeof_BetweenBlocks_def
    by (auto simp: z_def z0_def Let_def st_def get_total_size_def split: if_splits)
  then have "(r, s') = slab_to_entry ?sl st (s\<lparr>m_slabs := m_slabs s @ [?sl]\<rparr>)" by simp
  also have "\<dots> = (st + 8, set_after (st + 8 + k) 0 (set_before (st + 8 + k) (int k)
           (set_after st (int k) (set_before st 0 (s\<lparr>m_slabs := m_slabs s @ [?sl]\<rparr>)))))"
    using k by (intro slab_to_entry_eq) simp_all
  finally have r: "r = st + 8" and s': "s' = set_after (st + 8 + k) 0 (set_before (st + 8 + k) (int k)
           (set_after st (int k) (set_before st 0 (s\<lparr>m_slabs := m_slabs s @ [?sl]\<rparr>))))" by simp_all
  have eq: "block_before_size s' = ?b(st := 0, st + 8 + k := int k)" "block_after_size s' = ?a(st := int k, st + 8 + k := 0)"
    "m_block_map s' = m_block_map s" "m_slabs s' = m_slabs s @ [?sl]" "get_total_size s' = st + k + 16" "m_baseline s' = m_baseline s"
    using k(2) by (simp_all add: s' get_total_size_def)
  have total: "m_baseline s \<le> get_total_size s"
    using slab_chain_last [OF C] align_section(1) [of "m_baseline s"] by (auto simp: get_total_size_def)
  have hi: "get_total_size s \<le> st" by (simp add: st_def align_section)
  note B1 = blocks_grow [OF B hi order_trans [OF total hi] _ _ k(4,3), unfolded st_def, OF align_section(3,2), folded st_def]
  have "slab_starts (m_slabs s @ [?sl]) = insert st (slab_starts (m_slabs s))" by (simp add: slab_starts_def)
  then have B2: "blocks_ok (block_before_size s') (block_after_size s') (slab_starts (m_slabs s')) (m_baseline s')
      (get_total_size s') (insert r B) {}"
    using B1 z k by (simp add: eq r)
  have keep: "block_after_size s' (p - 8) = ?a (p - 8)" "p \<noteq> r" if "p \<in> B" for p
    using blocks_okD(5) [OF B that] hi by (auto simp: eq r)
  have szr: "block_after_size s' (r - 8) = int k" by (simp add: eq r)
  have L2: "lists_ok (block_after_size s') (m_block_map s') (insert r B) {r}"
    unfolding eq(3) by (rule lists_change [OF L]) (use keep in auto)
  have "slab_chain (align_size_to_section_boundary (m_baseline s')) (m_slabs s')"
    using C z k by (auto simp: eq slab_chain_append st_def get_total_size_def)
  with B2 L2 show "slab_inv s' (insert r B) {} {r}" by (simp add: slab_inv_def)
  show "0 < block_after_size s' (r - 8)" "n \<le> bsize (block_after_size s') r" using szr k by (simp_all add: bsize_def)
  show "used (block_after_size s') (insert r B) = used ?a B"
    using keep szr by (intro used_change) auto
  show "same_frame s s'" by (simp add: s') (simp add: same_frame_def)
qed

subsection \<open>Allocation\<close>

lemma grow_error: "grow_slab n s = Inl e \<Longrightarrow> e = MaximumFileSizeExceeded"
  by (auto simp: grow_slab_def Let_def split: if_splits)

lemma allocate_block_inv:
  assumes inv: "slab_inv s B {} {}" and n: "24 \<le> n" "8 dvd n" "n \<le> 2 ^ 26 - 16" and run: "allocate_block n s = Inr (r, s')"
  obtains B' where "slab_inv s' B' {r} {r}" "r \<in> B'" "0 < block_after_size s' (r - 8)"
    "n \<le> bsize (block_after_size s') r" "bsize (block_after_size s') r < n + 32"
    "used (block_after_size s') B' = used (block_after_size s) B" "same_frame s s'"
proof (cases "fst (find_freelist s n) = int n")
  case True
  then have ne: "snd (find_freelist s n) \<noteq> []" using n find_none [of s n] by auto
  have pop: "pop_freelist_entry (find_freelist s n) s = (r, s')" using run True by (simp add: allocate_block_def Let_def)
  note P = pop_inv [OF inv ne find_hd(1) [OF ne] pop]
  have "slab_inv s' B {r} {r}" using P(1) blocks_mono [of _ _ _ _ _ B "{}" "{r}"] by (auto simp: slab_inv_def)
  moreover have "block_after_size s (r - 8) = int n" using P(4) find_hd(3) [OF ne] True by simp
  ultimately show ?thesis using that [of B] P n by (simp add: bsize_def)
next
  case False
  let ?l = "find_larger (find_freelist s n) n"
  obtain r1 s1 where one: "(if fst ?l \<noteq> 0 then Inr (pop_freelist_entry ?l s) else grow_slab n s) = Inr (r1, s1)"
    using run False by (auto simp: allocate_block_def Let_def bind_result_eq_Inr)
  obtain rem s2 where br: "break_block r1 n s1 = (rem, s2)" by (cases "break_block r1 n s1")
  have fin: "r = r1" "s' = (case rem of Some q \<Rightarrow> push_freelist_entry q s2 | None \<Rightarrow> s2)"
    using run False one br by (auto simp: allocate_block_def Let_def split: option.splits)
  obtain B1 where B1: "slab_inv s1 B1 {} {r1}" "r1 \<in> B1" "0 < block_after_size s1 (r1 - 8)"
      "n \<le> bsize (block_after_size s1) r1" "used (block_after_size s1) B1 = used (block_after_size s) B" "same_frame s s1"
  proof (cases "fst ?l \<noteq> 0")
    case True
    note h = find_larger_hd [OF True]
    have "pop_freelist_entry ?l s = (r1, s1)" using one True by simp
    note P = pop_inv [OF inv h(1,2) this]
    have "n \<le> bsize (block_after_size s) r1" using P(4) h(3) by (simp add: bsize_def)
    then show ?thesis using that [of B] P by simp
  next
    case False
    then have "grow_slab n s = Inr (r1, s1)" using one by simp
    note G = grow_inv [OF inv n(1,3) this]
    show ?thesis using that [of "insert r1 B"] G by simp
  qed
  show ?thesis
    by (rule break_inv [OF B1(1-3) n(1,2) B1(4) br fin(2)], rule that)
      (auto simp: fin(1) B1(5) intro: same_frame_trans [OF B1(6)])
qed

lemma allocate_block_error: "allocate_block n s = Inl e \<Longrightarrow> e = MaximumFileSizeExceeded"
  by (cases "grow_slab n s") (auto simp: allocate_block_def Let_def split: if_splits prod.splits option.splits dest: grow_error)

text \<open>The size a request is rounded up to.\<close>

definition request_size :: "nat \<Rightarrow> nat" where
  "request_size n = (if n < 24 then 24 else n)"

lemma do_alloc_eq:
  assumes "8 dvd n" "n < 2 ^ 26" "m_free_space_state s \<noteq> free_space_Invalid"
  shows "do_alloc n s = bind_result (allocate_block (request_size n)
      (s\<lparr>m_free_space_state := free_space_Dirty, m_commit_size := m_commit_size s + of_nat n\<rparr>))
      (\<lambda>(entry, s). Inr (entry, mark_allocated entry s))"
  using assms by (auto simp: do_alloc_def section_size_def Let_def sizeof_FreeBlock_def request_size_def)

lemma do_alloc_inv:
  assumes inv: "slab_inv s B {} {}" and n: "0 < n" "8 dvd n" "n \<le> 2 ^ 26 - 16"
    and st: "m_free_space_state s \<noteq> free_space_Invalid" and run: "do_alloc n s = Inr (r, s')"
  obtains B' k where "slab_inv s' B' {} {}" "n \<le> k" "k < request_size n + 32" "r \<in> B'"
    "used (block_after_size s') B' = insert (r, k) (used (block_after_size s) B)" "(r, k) \<notin> used (block_after_size s) B"
    "same_frame (s\<lparr>m_free_space_state := free_space_Dirty, m_commit_size := m_commit_size s + of_nat n\<rparr>) s'"
proof -
  let ?s = "s\<lparr>m_free_space_state := free_space_Dirty, m_commit_size := m_commit_size s + of_nat n\<rparr>"
  have inv1: "slab_inv ?s B {} {}" using inv by (rule slab_inv_frame) simp_all
  have q: "24 \<le> request_size n" "8 dvd request_size n" "request_size n \<le> 2 ^ 26 - 16" "n \<le> request_size n"
    using n by (auto simp: request_size_def)
  have "n < 2 ^ 26" using n(3) by simp
  then obtain s1 where al: "allocate_block (request_size n) ?s = Inr (r, s1)" and s': "s' = mark_allocated r s1"
    using run unfolding do_alloc_eq [OF n(2) \<open>n < 2 ^ 26\<close> st] by (auto simp: bind_result_eq_Inr)
  obtain B' where B': "slab_inv s1 B' {r} {r}" "r \<in> B'" "0 < block_after_size s1 (r - 8)"
    "request_size n \<le> bsize (block_after_size s1) r" "bsize (block_after_size s1) r < request_size n + 32"
    "used (block_after_size s1) B' = used (block_after_size ?s) B" "same_frame ?s s1"
    by (rule allocate_block_inv [OF inv1 q(1-3) al])
  note M = mark_allocated_inv [OF B'(1-3), folded s']
  have "(r, bsize (block_after_size s1) r) \<notin> used (block_after_size s1) B'" using B'(3) by (auto simp: used_def)
  then show thesis
    using that [of B' "bsize (block_after_size s1) r"] M B' q(4) same_frame_trans [OF B'(7) M(2)] by simp
qed

subsection \<open>Freeing\<close>

lemma get_prev_eq:
  assumes B: "blocks_ok b a S lo hi B Z" and s: "block_before_size s = b" "block_after_size s = a" and r: "r \<in> B"
  shows "get_prev_block_if_mergeable s r = Some p \<Longrightarrow> p \<in> B \<and> p + bsize a p + 8 = r \<and> 0 < a (p - 8)"
    "get_prev_block_if_mergeable s r = None \<Longrightarrow> p \<in> B \<Longrightarrow> p + bsize a p + 8 = r \<Longrightarrow> a (p - 8) \<le> 0"
proof -
  have nb: "b (r - 8) = a (q - 8)" if "q \<in> B" "q + bsize a q + 8 = r" for q
    using blocks_okD(7) [OF B that(1)] that(2) by auto
  show "get_prev_block_if_mergeable s r = None \<Longrightarrow> p \<in> B \<Longrightarrow> p + bsize a p + 8 = r \<Longrightarrow> a (p - 8) \<le> 0"
    using nb [of p] by (auto simp: get_prev_block_if_mergeable_def Let_def bb_before_eq s block_before_def split: if_splits)
  assume "get_prev_block_if_mergeable s r = Some p"
  then have p: "0 < b (r - 8)" "p = nat (int (r - 8) - b (r - 8))"
    by (auto simp: get_prev_block_if_mergeable_def Let_def bb_before_eq s block_before_def split: if_splits)
  have "r - 8 \<notin> S" using blocks_start [OF B, of "r - 8"] p(1) by auto
  then obtain q where q: "q \<in> B" "q + bsize a q + 8 = r" using blocks_okD(9) [OF B r] by blast
  have "int (bsize a q) = a (q - 8)" using nb [OF q] p(1) by (simp add: bsize_def)
  then have "p = q" using p nb [OF q] q(2) by linarith
  then show "p \<in> B \<and> p + bsize a p + 8 = r \<and> 0 < a (p - 8)" using q nb [OF q] p(1) by simp
qed

lemma get_next_eq:
  assumes B: "blocks_ok b a S lo hi B Z" and s: "block_after_size s = a" and r: "r \<in> B" "0 < a (r - 8)"
  shows "get_next_block_if_mergeable s r = Some q \<Longrightarrow> q \<in> B \<and> q = r + bsize a r + 8 \<and> 0 < a (q - 8)"
    "get_next_block_if_mergeable s r = None \<Longrightarrow> a (r + bsize a r) \<le> 0"
  using blocks_okD(8) [OF B r(1)] bb_after_eq [of s r] r(2)
  by (auto simp: get_next_block_if_mergeable_def Let_def s block_after_def sizeof_BetweenBlocks_def split: if_splits)

text \<open>One merge step: the second block leaves its list and the first grows over it.\<close>

lemma merge_inv:
  assumes inv: "slab_inv s B Z X" and p: "p \<in> B" "0 < block_after_size s (p - 8)"
    and r: "r \<in> B" "0 < block_after_size s (r - 8)" "r = p + bsize (block_after_size s) p + 8"
    and X: "p \<in> X" "r \<in> X" and Z': "Z - {p, r} \<subseteq> Z'" "r \<in> Z \<Longrightarrow> p \<in> Z'"
  shows "slab_inv (snd (merge_blocks p r s)) (B - {r}) Z' (X - {r})" "fst (merge_blocks p r s) = p"
    "used (block_after_size (snd (merge_blocks p r s))) (B - {r}) = used (block_after_size s) B"
    "0 < block_after_size (snd (merge_blocks p r s)) (p - 8)" "same_frame s (snd (merge_blocks p r s))"
proof -
  let ?b = "block_before_size s" and ?a = "block_after_size s" and ?s = "snd (merge_blocks p r s)"
  have B: "blocks_ok ?b ?a (slab_starts (m_slabs s)) (m_baseline s) (get_total_size s) B Z"
    and L: "lists_ok ?a (m_block_map s) B X" using inv by (simp_all add: slab_inv_def)
  define n where "n = bsize ?a p + bsize ?a r + 8"
  have pr: "p \<noteq> r" "p - 8 \<noteq> r - 8" using r(3) blocks_apart(2) [OF B p(1) r(1)] by auto
  have n: "?a (p - 8) + ?a (r - 8) + 8 = int n" using bsize_pos [of ?a p] bsize_pos [of ?a r] p(2) r(2) by (simp add: n_def)
  have "bb_after (set_after (p - 8) (int n) s) r = p + n"
    using bb_after_eq [of "set_after (p - 8) (int n) s" r] r(2) pr by (simp add: bsize_def) (simp add: n_def bsize_def r(3))
  then have eq: "block_before_size ?s = ?b(p + n := int n)" "block_after_size ?s = ?a(p - 8 := int n)"
    "m_block_map ?s = m_block_map s" "m_slabs ?s = m_slabs s" "get_total_size ?s = get_total_size s"
    "m_baseline ?s = m_baseline s" "same_frame s ?s" "fst (merge_blocks p r s) = p"
    using n by (simp_all add: merge_blocks_def size_from_block_def bb_before_eq sizeof_BetweenBlocks_def Let_def)
  note B1 = blocks_merge [OF B p(1) r(1,3) p(2) r(2) n_def Z']
  have keep: "(?a(p - 8 := int n)) (q - 8) = ?a (q - 8)" if "q \<in> B" "q \<noteq> p" for q
    using blocks_apart(2) [OF B that(1) p(1) that(2)] by simp
  have "lists_ok (?a(p - 8 := int n)) (m_block_map s) (B - {r}) (X - {r})"
  proof (rule lists_change [OF L])
    show "q \<in> B - {r} \<and> q \<notin> X - {r} \<and> (?a(p - 8 := int n)) (q - 8) = ?a (q - 8)"
      if "q \<in> B" "q \<notin> X" for q using that X keep [of q] by (auto simp del: fun_upd_apply)
    show "q \<in> B \<and> q \<notin> X \<and> 0 < ?a (q - 8)"
      if "q \<in> B - {r}" "q \<notin> X - {r}" "0 < (?a(p - 8 := int n)) (q - 8)" for q
      using that X pr keep [of q] by (cases "q = p") (auto simp del: fun_upd_apply)
  qed
  with B1 show "slab_inv ?s (B - {r}) Z' (X - {r})" using inv by (simp add: slab_inv_def eq)
  show "used (block_after_size ?s) (B - {r}) = used ?a B"
    unfolding eq(2)
  proof (rule used_change)
    show "q \<in> B - {r} \<and> (?a(p - 8 := int n)) (q - 8) = ?a (q - 8)" if "q \<in> B" "?a (q - 8) < 0" for q
      using that r(2) p(2) keep [of q] by (cases "q = p") auto
    show "q \<in> B \<and> ?a (q - 8) < 0" if "q \<in> B - {r}" "(?a(p - 8 := int n)) (q - 8) < 0" for q
      using that keep [of q] by (cases "q = p") auto
  qed
  have "0 < n" by (simp add: n_def)
  then show "0 < block_after_size ?s (p - 8)" by (simp add: eq)
qed (simp_all add: merge_blocks_def Let_def)

lemma merge_next_inv:
  assumes inv: "slab_inv s B {r} {r}" and r: "r \<in> B" "0 < block_after_size s (r - 8)"
  obtains s' B' where "(case get_next_block_if_mergeable s r of
        Some next \<Rightarrow> merge_blocks r next (remove_freelist_entry next s) | None \<Rightarrow> (r, s)) = (r, s')"
      "slab_inv s' B' {} {r}" "r \<in> B'" "0 < block_after_size s' (r - 8)" "same_frame s s'"
      "used (block_after_size s') B' = used (block_after_size s) B"
proof -
  let ?b = "block_before_size s" and ?a = "block_after_size s"
  have B: "blocks_ok ?b ?a (slab_starts (m_slabs s)) (m_baseline s) (get_total_size s) B {r}"
    using inv by (simp add: slab_inv_def)
  show thesis
  proof (cases "get_next_block_if_mergeable s r")
    case None
    have "blocks_ok ?b ?a (slab_starts (m_slabs s)) (m_baseline s) (get_total_size s) B {}"
    proof (rule blocks_okI)
      show "?a (q + bsize ?a q) \<le> 0" if q: "q \<in> B" "q \<notin> {}" "0 < ?a (q - 8)" for q
        using get_next_eq(2) [OF B refl r None] blocks_okD(11) [OF B q(1) _ q(3)] by (cases "q = r") simp_all
    qed (use blocks_start [OF B] blocks_okD(1-10) [OF B] in \<open>blast+\<close>)
    then have "slab_inv s B {} {r}" using inv by (simp add: slab_inv_def)
    then show ?thesis using that [of s B] None r by simp
  next
    case (Some q)
    note Q = get_next_eq(1) [OF B refl r Some]
    have rq: "q \<noteq> r" using Q by auto
    note R = remove_inv [OF inv, of q]
    let ?s = "remove_freelist_entry q s"
    have I: "slab_inv ?s B {r} {q, r}" "same_frame s ?s" "block_after_size ?s = ?a" using R Q rq by auto
    have q: "q \<in> B" "0 < block_after_size ?s (q - 8)" "q = r + bsize (block_after_size ?s) r + 8"
      unfolding I(3) using Q by blast+
    have r': "0 < block_after_size ?s (r - 8)" using r(2) I(3) by simp
    have M: "slab_inv (snd (merge_blocks r q ?s)) (B - {q}) {} ({q, r} - {q})" "fst (merge_blocks r q ?s) = r"
      "used (block_after_size (snd (merge_blocks r q ?s))) (B - {q}) = used (block_after_size ?s) B"
      "0 < block_after_size (snd (merge_blocks r q ?s)) (r - 8)" "same_frame ?s (snd (merge_blocks r q ?s))"
      by (rule merge_inv [OF I(1) r(1) r' q, of "{}"]; use rq in blast)+
    have "{q, r} - {q} = {r}" using rq by auto
    then show ?thesis
      using that [of "snd (merge_blocks r q ?s)" "B - {q}"] M Some r rq I(3) same_frame_trans [OF I(2) M(5)]
      by (simp add: prod_eq_iff)
  qed
qed

lemma mark_freed_inv:
  assumes inv: "slab_inv s B {} {}" and r: "r \<in> B" "block_after_size s (r - 8) < 0"
  shows "slab_inv (mark_freed r sz s) B (insert r {p \<in> B. p + bsize (block_after_size s) p + 8 = r}) {r}"
    "same_frame s (mark_freed r sz s)" "0 < block_after_size (mark_freed r sz s) (r - 8)"
    "used (block_after_size (mark_freed r sz s)) B = used (block_after_size s) B - {(r, bsize (block_after_size s) r)}"
    "\<And>q. q \<in> B \<Longrightarrow> bsize (block_after_size (mark_freed r sz s)) q = bsize (block_after_size s) q"
proof -
  let ?b = "block_before_size s" and ?a = "block_after_size s" and ?n = "bsize (block_after_size s) r"
  let ?Z = "insert r {p \<in> B. p + bsize ?a p + 8 = r}" and ?s = "mark_freed r sz s" and ?v = "- ?a (r - 8)"
  have B: "blocks_ok ?b ?a (slab_starts (m_slabs s)) (m_baseline s) (get_total_size s) B {}"
    and L: "lists_ok ?a (m_block_map s) B {}" using inv by (simp_all add: slab_inv_def)
  have "bb_after (set_after (r - 8) ?v s) r = r + ?n"
    using bb_after_eq [of "set_after (r - 8) ?v s" r] r(2) by (simp add: bsize_def)
  then have eq: "block_before_size ?s = ?b(r + ?n := ?v)" "block_after_size ?s = ?a(r - 8 := ?v)"
    "m_block_map ?s = m_block_map s" "m_slabs ?s = m_slabs s" "get_total_size ?s = get_total_size s"
    "m_baseline ?s = m_baseline s" "same_frame s ?s"
    by (simp_all add: mark_freed_def Let_def bb_before_eq)
  have keep: "(?a(r - 8 := ?v)) (q - 8) = ?a (q - 8)" if "q \<in> B" "q \<noteq> r" for q
    using blocks_apart(2) [OF B that(1) r(1) that(2)] by simp
  have "blocks_ok (?b(r + ?n := ?v)) (?a(r - 8 := ?v)) (slab_starts (m_slabs s)) (m_baseline s) (get_total_size s) B ?Z"
    by (rule blocks_mark [OF B r(1)]) auto
  moreover have "lists_ok (?a(r - 8 := ?v)) (m_block_map s) B {r}"
  proof (rule lists_change [OF L])
    show "q \<in> B \<and> q \<notin> {r} \<and> (?a(r - 8 := ?v)) (q - 8) = ?a (q - 8)" if "q \<in> B" "0 < ?a (q - 8)" for q
      using that r(2) keep [of q] by (cases "q = r") auto
    show "q \<in> B \<and> q \<notin> {} \<and> 0 < ?a (q - 8)" if "q \<in> B" "q \<notin> {r}" "0 < (?a(r - 8 := ?v)) (q - 8)" for q
      using that keep [of q] by (auto simp del: fun_upd_apply)
  qed
  ultimately show "slab_inv ?s B ?Z {r}" using inv by (simp add: slab_inv_def eq)
  show "same_frame s ?s" by (rule eq(7))
  show "0 < block_after_size ?s (r - 8)" using r(2) by (simp add: eq)
  have n: "?a (r - 8) = - int ?n" using r(2) by (simp add: bsize_def)
  show "used (block_after_size ?s) B = used ?a B - {(r, ?n)}"
  proof (intro set_eqI)
    fix x :: "nat \<times> nat"
    obtain q k where x: "x = (q, k)" by (cases x)
    show "x \<in> used (block_after_size ?s) B \<longleftrightarrow> x \<in> used ?a B - {(r, ?n)}"
      using keep [of q] n r(2) by (cases "q = r") (auto simp: x used_def eq simp del: fun_upd_apply, auto)
  qed
  show "bsize (block_after_size ?s) q = bsize ?a q" if "q \<in> B" for q
    using keep [OF that] by (cases "q = r") (auto simp: bsize_def eq simp del: fun_upd_apply, auto)
qed

lemma free_block_inv:
  assumes inv: "slab_inv s B (insert r {p \<in> B. p + bsize (block_after_size s) p + 8 = r}) {r}"
    and r: "r \<in> B" "0 < block_after_size s (r - 8)"
  obtains B' where "slab_inv (free_block r s) B' {} {}" "same_frame s (free_block r s)"
    "used (block_after_size (free_block r s)) B' = used (block_after_size s) B"
proof -
  let ?b = "block_before_size s" and ?a = "block_after_size s" and ?Z = "insert r {p \<in> B. p + bsize (block_after_size s) p + 8 = r}"
  have B: "blocks_ok ?b ?a (slab_starts (m_slabs s)) (m_baseline s) (get_total_size s) B ?Z"
    using inv by (simp add: slab_inv_def)
  obtain r1 s1 B1 where one: "(case get_prev_block_if_mergeable s r of
        Some prev \<Rightarrow> merge_blocks prev r (remove_freelist_entry prev s) | None \<Rightarrow> (r, s)) = (r1, s1)"
      "slab_inv s1 B1 {r1} {r1}" "r1 \<in> B1" "0 < block_after_size s1 (r1 - 8)" "same_frame s s1"
      "used (block_after_size s1) B1 = used ?a B"
  proof (cases "get_prev_block_if_mergeable s r")
    case None
    have "blocks_ok ?b ?a (slab_starts (m_slabs s)) (m_baseline s) (get_total_size s) B {r}"
    proof (rule blocks_okI)
      show "?a (q + bsize ?a q) \<le> 0" if q: "q \<in> B" "q \<notin> {r}" "0 < ?a (q - 8)" for q
      proof (cases "q + bsize ?a q + 8 = r")
        case True
        then show ?thesis using get_prev_eq(2) [OF B refl refl r(1) None q(1)] q(3) by simp
      next
        case False
        then show ?thesis using blocks_okD(11) [OF B q(1) _ q(3)] q(2) by simp
      qed
    qed (use blocks_start [OF B] blocks_okD(1-10) [OF B] in \<open>blast+\<close>)
    then have "slab_inv s B {r} {r}" using inv by (simp add: slab_inv_def)
    then show ?thesis using that [of r s B] None r by simp
  next
    case (Some p)
    note P = get_prev_eq(1) [OF B refl refl r(1) Some]
    have pr: "p \<noteq> r" using P by auto
    note R = remove_inv [OF inv _ _ , of p]
    let ?s = "remove_freelist_entry p s"
    have I: "slab_inv ?s B ?Z {p, r}" "same_frame s ?s" "block_after_size ?s = ?a" using R P pr by auto
    have p: "p \<in> B" "0 < block_after_size ?s (p - 8)" "r = p + bsize (block_after_size ?s) p + 8" using P I(3) by simp_all
    have r': "0 < block_after_size ?s (r - 8)" using r(2) I(3) by simp
    have Zsub: "q = p \<or> q = r" if "q \<in> ?Z" for q using that P blocks_apart(3) [OF B, of q p] by (cases "q = p") auto
    have M: "slab_inv (snd (merge_blocks p r ?s)) (B - {r}) {p} ({p, r} - {r})" "fst (merge_blocks p r ?s) = p"
      "used (block_after_size (snd (merge_blocks p r ?s))) (B - {r}) = used (block_after_size ?s) B"
      "0 < block_after_size (snd (merge_blocks p r ?s)) (p - 8)" "same_frame ?s (snd (merge_blocks p r ?s))"
      by (rule merge_inv [OF I(1) p(1,2) r(1) r' p(3), of "{p}"]; use Zsub in blast)+
    have "{p, r} - {r} = {p}" using pr by auto
    then show ?thesis
      using that [of p "snd (merge_blocks p r ?s)" "B - {r}"] M Some P pr I(3) same_frame_trans [OF I(2) M(5)]
      by (simp add: prod_eq_iff)
  qed
  have B1: "blocks_ok (block_before_size s1) (block_after_size s1) (slab_starts (m_slabs s1)) (m_baseline s1) (get_total_size s1) B1 {r1}"
    using one(2) by (simp add: slab_inv_def)
  obtain s2 B2 where two: "(case get_next_block_if_mergeable s1 r1 of
        Some next \<Rightarrow> merge_blocks r1 next (remove_freelist_entry next s1) | None \<Rightarrow> (r1, s1)) = (r1, s2)"
      "slab_inv s2 B2 {} {r1}" "r1 \<in> B2" "0 < block_after_size s2 (r1 - 8)" "same_frame s1 s2"
      "used (block_after_size s2) B2 = used (block_after_size s1) B1"
    by (rule merge_next_inv [OF one(2-4)])
  have fin: "free_block r s = push_freelist_entry r1 s2"
    using one(1) two(1) by (simp add: free_block_def)
  note P = push_inv [OF two(2,3) _ two(4), folded fin, simplified]
  show thesis
    using that [of B2] P two(6) one(6) same_frame_trans [OF one(5) same_frame_trans [OF two(5) P(2)]] by simp
qed

subsection \<open>The operations keep the invariant\<close>

lemma do_free_inv:
  assumes inv: "slab_inv s B {} {}" and st: "m_free_space_state s \<noteq> free_space_Invalid" and rw: "\<not> is_read_only s r"
    and r: "(r, k) \<in> used (block_after_size s) B" and n: "0 < n" "n \<le> 2 ^ 30"
  obtains s' B' where "do_free r n s = Inr s'" "slab_inv s' B' {} {}"
    "used (block_after_size s') B' = used (block_after_size s) B - {(r, k)}"
    "same_frame (s\<lparr>m_free_space_state := free_space_Dirty, m_commit_size := m_commit_size s - of_nat n\<rparr>) s'"
proof -
  let ?s = "s\<lparr>m_free_space_state := free_space_Dirty, m_commit_size := m_commit_size s - of_nat n\<rparr>"
  have inv1: "slab_inv ?s B {} {}" using inv by (rule slab_inv_frame) simp_all
  have rB: "r \<in> B" "block_after_size ?s (r - 8) < 0" "bsize (block_after_size s) r = k"
    using r by (auto simp: used_def bsize_def)
  define m where "m = (let sz = (if n < sizeof_FreeBlock then sizeof_FreeBlock else n)
      in if sz mod 8 \<noteq> 0 then (sz + 7) div 8 * 8 else sz)"
  have "m < 2 * 1024 * 1024 * 1024"
    using n round_up_8(2) [of n] by (auto simp: m_def Let_def sizeof_FreeBlock_def)
  then have run: "do_free r n s = Inr (free_block r (mark_freed r m ?s))"
    using st rw by (auto simp: do_free_def m_def Let_def)
  note M = mark_freed_inv [OF inv1 rB(1,2), where sz = m]
  have Z: "{p \<in> B. p + bsize (block_after_size (mark_freed r m ?s)) p + 8 = r} = {p \<in> B. p + bsize (block_after_size ?s) p + 8 = r}"
    using M(5) by auto
  obtain B' where F: "slab_inv (free_block r (mark_freed r m ?s)) B' {} {}"
      "same_frame (mark_freed r m ?s) (free_block r (mark_freed r m ?s))"
      "used (block_after_size (free_block r (mark_freed r m ?s))) B' = used (block_after_size (mark_freed r m ?s)) B"
    by (rule free_block_inv [OF _ rB(1) M(3)]) (use M(1) Z in simp)
  show thesis
    using that [OF run F(1)] F(3) M(4) rB(3) same_frame_trans [OF M(2) F(2)] by simp
qed

end
