(* ===== verification/Array_Lists.thy ===== *)
theory Array_Lists
  imports Array_Spec
begin

text \<open>
  The integer array as a list of integers. Under the laws of an allocator every operation of
  the array has the effect of the list operation of the same name on the elements, leaves the
  node well formed and writable, and changes no byte of any other block; an operation fails
  only when the allocator could not grow.
\<close>

context allocator
begin

lemma payload_update:
  assumes okh: "ok (h_alloc h)" and wr: "writable_array ops block h a"
    and out: "\<And>x. x < m_data a \<or> m_ref a + get_capacity_from_header (h_mem h) (m_ref a) \<le> x \<Longrightarrow> m' x = h_mem h x"
  shows "writable_array ops block (h\<lparr>h_mem := m'\<rparr>) a" "kept ops block h (h\<lparr>h_mem := m'\<rparr>) (m_ref a) (m_ref a)"
proof -
  let ?r = "m_ref a"
  have "m' (?r + i) = h_mem h (?r + i)" if "i < 8" for i using that by (intro out) (simp add: m_data_eq)
  note hd = header_eqI [of m' ?r "h_mem h" ?r, OF this]
  have aok: "arr_ok m' a" using wr by (simp add: writable_array_iff arr_ok_def hd(1-3) valid_width_from_header)
  have len: "calc_byte_len (m_size a) (m_width a) \<le> get_capacity_from_header (h_mem h) ?r"
    using wr by (simp add: writable_array_iff)
  have o: "m' x = h_mem h x" if "x < ?r \<or> ?r + get_capacity_from_header (h_mem h) ?r \<le> x" for x
    using that by (intro out) (auto simp: m_data_eq)
  show "writable_array ops block (h\<lparr>h_mem := m'\<rparr>) a" by (rule inside_update(1) [OF okh wr refl o hd(4) aok len])
  show "kept ops block h (h\<lparr>h_mem := m'\<rparr>) ?r ?r" by (rule inside_update(2) [OF okh wr refl o hd(4) aok len])
qed

lemma payload_room:
  assumes "writable_array ops block h a"
  obtains c where "get_capacity_from_header (h_mem h) (m_ref a) = 8 * c + 8" "payload_bytes (m_size a) (m_width a) \<le> 8 * c"
proof -
  let ?cap = "get_capacity_from_header (h_mem h) (m_ref a)"
  obtain d where d: "?cap = 8 * d" using capacity_dvd by (metis dvdE)
  have "payload_bytes (m_size a) (m_width a) + 8 \<le> 8 * d"
    using assms by (simp add: writable_array_iff calc_byte_len_payload d)
  then show ?thesis by (intro that [of "d - 1"]) (simp_all add: d)
qed

lemma insert_elements:
  assumes w: "valid_width (m_width a1)" "valid_width ow" "fits_width (m_width a1) value"
    and n: "length xs = n" "ndx \<le> n" "m_size a1 = n + 1"
    and old: "\<And>i. i < n \<Longrightarrow> get_direct ow (h_mem h1) (m_data a1) i = xs ! i"
    and wide: "do_expand \<Longrightarrow> ow \<le> m_width a1" and narrow: "\<not> do_expand \<Longrightarrow> ow = m_width a1"
    and h2: "h2 = (if do_expand then expand_loop ow a1 1 ndx n h1 else move_up a1 ow n ndx h1)"
    and h4: "h4 = (if do_expand then expand_loop ow a1 0 0 ndx (array_put a1 ndx value h2) else array_put a1 ndx value h2)"
  shows "contents (h_mem h4) a1 = insert_at ndx value xs"
proof (rule nth_equalityI)
  show "length (contents (h_mem h4) a1) = length (insert_at ndx value xs)" using n by (simp add: contents_def)
  fix k assume "k < length (contents (h_mem h4) a1)"
  then have k: "k \<le> n" using n by (simp add: contents_def)
  have "get_direct (m_width a1) (h_mem h4) (m_data a1) k = insert_at ndx value xs ! k"
  proof (cases do_expand)
    case True
    note e = wide [OF True]
    have "get_direct (m_width a1) (h_mem h4) (m_data a1) k =
        (if k < ndx then get_direct ow (h_mem h1) (m_data a1) k
         else if k = ndx then value else get_direct ow (h_mem h1) (m_data a1) (k - 1))"
      using True e w k by (simp add: h4 h2 get_expand_loop get_direct_below get_old_expand_loop get_set_direct)
    then show ?thesis using k n old by (auto simp: nth_insert_at)
  next
    case False
    have "get_direct (m_width a1) (h_mem h4) (m_data a1) k =
        (if k = ndx then value else get_direct ow (h_mem h1) (m_data a1) (if k < ndx then k else k - 1))"
      using False narrow [OF False] w k n(2) by (simp add: h4 h2 get_set_direct get_move_up)
    then show ?thesis using k n old by (auto simp: nth_insert_at)
  qed
  then show "contents (h_mem h4) a1 ! k = insert_at ndx value xs ! k"
    using k n by (simp add: contents_def)
qed

text \<open>The bound on the number of elements under which all requests stay below the allocator's limit.\<close>

lemma small_array:
  assumes "n \<le> 4000000" "valid_width w"
  shows "calc_byte_len n w \<le> 2 ^ 25 - 100" "calc_byte_len (n + 1) w \<le> 2 ^ 25 - 100"
proof -
  have "w \<le> 64" using assms(2) by (auto simp: valid_width_def)
  then have "(n + 1) * w \<le> 4000001 * 64" using assms(1) by (intro mult_le_mono) simp_all
  then have "payload_bytes (n + 1) w \<le> (4000001 * 64 + 7) div 8"
    unfolding payload_bytes_def by (intro div_le_mono add_right_mono)
  then have "payload_bytes (n + 1) w \<le> 32000008" by simp
  then show "calc_byte_len (n + 1) w \<le> 2 ^ 25 - 100" "calc_byte_len n w \<le> 2 ^ 25 - 100"
    using payload_bytes_mono [of n "n + 1" w] by (simp_all add: calc_byte_len_payload)
qed

lemma array_insert_ok:
  assumes okh: "ok (h_alloc h)" and at: "array_at ops block h a" and size: "m_size a \<le> 4000000"
    and v: "int64 value" and ndx: "ndx \<le> m_size a" and run: "array_insert ops ndx value a h = Inr (a', h')"
  shows "ok (h_alloc h')" "writable_array ops block h' a'"
    "contents (h_mem h') a' = insert_at ndx value (contents (h_mem h) a)" "kept ops block h h' (m_ref a) (m_ref a')"
proof -
  let ?n = "m_size a" and ?ow = "m_width a"
  have aok: "valid_width ?ow" "m_lbound a = lbound_for_width ?ow" "m_ubound a = ubound_for_width ?ow"
    using at unfolding array_at_def arr_ok_def by blast+
  define ex where "ex = (value < m_lbound a \<or> value > m_ubound a)"
  define w where "w = (if ex then bit_width value else ?ow)"
  have ex: "ex \<longleftrightarrow> \<not> fits_width ?ow value" by (auto simp: ex_def aok fits_width_def)
  have w: "valid_width w" "fits_width w value" using v aok ex by (auto simp: w_def bit_width_valid fits_bit_width)
  have wide: "ex \<Longrightarrow> ?ow \<le> w"
    using ex fits_width_mono [OF w(1) aok(1) _ w(2)] by (cases "w \<le> ?ow") auto
  obtain a1 h1 where al: "array_alloc ops (?n + 1) w a h = Inr (a1, h1)"
    and fin: "a' = a1" "h' = (let h2 = (if ex then expand_loop ?ow a1 1 ndx ?n h1 else move_up a1 ?ow ?n ndx h1);
        h3 = array_put a1 ndx value h2 in if ex then expand_loop ?ow a1 0 0 ndx h3 else h3)"
    using run by (auto simp: array_insert_def Let_def ex_def [symmetric] w_def bind_result_eq_Inr split: if_splits)
  note one = array_alloc_ok [OF okh at w(1) small_array(1) [OF size aok(1)] small_array(2) [OF size w(1)] al]
  define h2 where "h2 = (if ex then expand_loop ?ow a1 1 ndx ?n h1 else move_up a1 ?ow ?n ndx h1)"
  have h': "h' = (if ex then expand_loop ?ow a1 0 0 ndx (array_put a1 ndx value h2) else array_put a1 ndx value h2)"
    by (simp add: fin h2_def Let_def)
  have old: "get_direct ?ow (h_mem h1) (m_data a1) i = contents (h_mem h) a ! i" if "i < ?n" for i
    using same_payload_get [OF one(5) aok(1) that] that by (simp add: contents_def)
  show "contents (h_mem h') a' = insert_at ndx value (contents (h_mem h) a)"
    unfolding fin(1) using w aok(1) ndx one(3,4) old wide
    by (intro insert_elements [OF _ _ _ _ _ _ _ _ _ h2_def h']) (auto simp: contents_def w_def)
  obtain c where c: "get_capacity_from_header (h_mem h1) (m_ref a1) = 8 * c + 8" "payload_bytes (?n + 1) w \<le> 8 * c"
    using payload_room [OF one(2)] one(3,4) by metis
  have out: "h_mem h' x = h_mem h1 x" if x: "x < m_data a1 \<or> m_data a1 + 8 * c \<le> x" for x
  proof -
    have x': "x < m_data a1 \<or> m_data a1 + payload_bytes (?n + 1) w \<le> x"
      "x < m_data a1 \<or> m_data a1 + payload_bytes (ndx + 0) w \<le> x"
      using x c(2) payload_bytes_mono [of ndx "?n + 1" w] ndx by auto
    have "h_mem h2 x = h_mem h1 x"
      using x x' c(2) ndx w(1) one(4) by (auto simp: h2_def w_def expand_loop_outside move_up_outside split: if_splits)
    moreover have "set_direct w (h_mem h2) (m_data a1) ndx value x = h_mem h2 x"
      using ndx x' by (intro set_direct_outside [OF w(1), of _ "?n + 1"]) auto
    ultimately show ?thesis using x' w(1) one(4) by (simp add: h' expand_loop_outside)
  qed
  have alloc: "h' = h1\<lparr>h_mem := h_mem h'\<rparr>" by (simp add: h' h2_def)
  have o: "h_mem h' x = h_mem h1 x" if "x < m_data a1 \<or> m_ref a1 + get_capacity_from_header (h_mem h1) (m_ref a1) \<le> x" for x
    using that c(1) by (intro out) (auto simp: m_data_eq)
  note up = payload_update [OF one(1,2) o, folded alloc]
  show "ok (h_alloc h')" using one(1) alloc by (metis h_alloc_conv)
  show "writable_array ops block h' a'" using up(1) by (simp add: fin)
  show "kept ops block h h' (m_ref a) (m_ref a')" using kept_trans [OF one(6) up(2)] by (simp add: fin)
qed

lemma copy_on_write_eq: "copy_on_write ops a h = copy_on_write_min ops 0 a h"
  by (simp add: copy_on_write_def copy_on_write_min_def)

lemma contents_same_payload:
  "same_payload m a m' a' \<Longrightarrow> valid_width (m_width a) \<Longrightarrow> m_size a' = m_size a \<Longrightarrow> m_width a' = m_width a \<Longrightarrow>
   contents m' a' = contents m a"
  by (rule nth_equalityI) (simp_all add: contents_def same_payload_get)

lemma copy_contents:
  assumes "ok (h_alloc h)" "array_at ops block h a" "m_size a \<le> 4000000" "copy_on_write ops a h = Inr (a', h')"
  shows "ok (h_alloc h')" "writable_array ops block h' a'" "m_size a' = m_size a" "m_width a' = m_width a"
    "contents (h_mem h') a' = contents (h_mem h) a" "kept ops block h h' (m_ref a) (m_ref a')"
proof -
  have w: "valid_width (m_width a)" using assms(2) unfolding array_at_def arr_ok_def by blast
  have s: "calc_byte_len (m_size a) (m_width a) \<le> 2 ^ 26 - 100" using small_array(1) [OF assms(3) w] by simp
  note one = copy_on_write_ok [OF assms(1,2) s _ assms(4) [unfolded copy_on_write_eq], simplified]
  show "ok (h_alloc h')" "writable_array ops block h' a'" "m_size a' = m_size a" "m_width a' = m_width a"
    "contents (h_mem h') a' = contents (h_mem h) a" "kept ops block h h' (m_ref a) (m_ref a')"
    using one contents_same_payload [OF one(5) w one(3,4)] by simp_all
qed

lemma ensure_minimum_width_ok:
  assumes okh: "ok (h_alloc h)" and wr: "writable_array ops block h a" and size: "m_size a \<le> 4000000"
    and v: "int64 value" and run: "ensure_minimum_width ops value a h = Inr (a', h')"
  shows "ok (h_alloc h')" "writable_array ops block h' a'" "m_size a' = m_size a" "fits_width (m_width a') value"
    "contents (h_mem h') a' = contents (h_mem h) a" "kept ops block h h' (m_ref a) (m_ref a')"
proof -
  let ?n = "m_size a" and ?ow = "m_width a"
  have at: "array_at ops block h a" using wr by (simp add: writable_array_def)
  have aok: "valid_width ?ow" "m_lbound a = lbound_for_width ?ow" "m_ubound a = ubound_for_width ?ow"
    using at unfolding array_at_def arr_ok_def by blast+
  have "ok (h_alloc h') \<and> writable_array ops block h' a' \<and> m_size a' = ?n \<and> fits_width (m_width a') value \<and>
      contents (h_mem h') a' = contents (h_mem h) a \<and> kept ops block h h' (m_ref a) (m_ref a')"
  proof (cases "fits_width ?ow value")
    case True
    then show ?thesis using run okh wr by (simp add: ensure_minimum_width_def aok fits_width_def kept_refl)
  next
    case False
    let ?w = "bit_width value"
    have w: "valid_width ?w" "fits_width ?w value" using v by (simp_all add: bit_width_valid fits_bit_width)
    have wide: "?ow \<le> ?w" using False fits_width_mono [OF w(1) aok(1) _ w(2)] by (cases "?w \<le> ?ow") auto
    obtain h1 where al: "array_alloc ops ?n ?w a h = Inr (a', h1)" and fin: "h' = expand_loop ?ow a' 0 0 (m_size a') h1"
      using run False by (auto simp: ensure_minimum_width_def do_ensure_minimum_width_def Let_def aok fits_width_def
          bind_result_eq_Inr split: if_splits)
    note one = array_alloc_ok [OF okh at w(1) small_array(1) [OF size aok(1)] small_array(1) [OF size w(1)] al]
    have "get_direct ?w (h_mem h') (m_data a') k = get_direct ?ow (h_mem h) (m_data a) k" if "k < ?n" for k
      using that get_expand_loop [of a' ?ow 0 0 ?n h1 k] w aok(1) wide one(3,4) same_payload_get [OF one(5) aok(1) that]
      by (simp add: fin)
    then have "contents (h_mem h') a' = contents (h_mem h) a"
      using one(3,4) by (intro nth_equalityI) (simp_all add: contents_def)
    moreover obtain c where c: "get_capacity_from_header (h_mem h1) (m_ref a') = 8 * c + 8" "payload_bytes ?n ?w \<le> 8 * c"
      using payload_room [OF one(2)] one(3,4) by metis
    have o: "h_mem h' x = h_mem h1 x" if "x < m_data a' \<or> m_ref a' + get_capacity_from_header (h_mem h1) (m_ref a') \<le> x" for x
      unfolding fin using that c w(1) one(3,4) by (intro expand_loop_outside) (auto simp: m_data_eq)
    have alloc: "h' = h1\<lparr>h_mem := h_mem h'\<rparr>" by (simp add: fin)
    note up = payload_update [OF one(1,2) o, folded alloc]
    moreover have "ok (h_alloc h')" using one(1) alloc by (metis h_alloc_conv)
    ultimately show ?thesis using up one(3,4,6) w(2) by (auto intro: kept_trans)
  qed
  then show "ok (h_alloc h')" "writable_array ops block h' a'" "m_size a' = m_size a" "fits_width (m_width a') value"
    "contents (h_mem h') a' = contents (h_mem h) a" "kept ops block h h' (m_ref a) (m_ref a')"
    by simp_all
qed

lemma array_put_ok:
  assumes okh: "ok (h_alloc h)" and wr: "writable_array ops block h a" and i: "ndx < m_size a"
    and v: "fits_width (m_width a) value"
  shows "ok (h_alloc (array_put a ndx value h))" "writable_array ops block (array_put a ndx value h) a"
    "contents (h_mem (array_put a ndx value h)) a = (contents (h_mem h) a)[ndx := value]"
    "kept ops block h (array_put a ndx value h) (m_ref a) (m_ref a)"
proof -
  have w: "valid_width (m_width a)" using wr unfolding writable_array_iff arr_ok_def by blast
  show "ok (h_alloc (array_put a ndx value h))" using okh by simp
  show "contents (h_mem (array_put a ndx value h)) a = (contents (h_mem h) a)[ndx := value]"
    using elems_set_direct [OF w v i] by (simp add: contents_def)
  obtain c where c: "get_capacity_from_header (h_mem h) (m_ref a) = 8 * c + 8" "payload_bytes (m_size a) (m_width a) \<le> 8 * c"
    using payload_room [OF wr] by metis
  have out: "set_direct (m_width a) (h_mem h) (m_data a) ndx value x = h_mem h x"
    if "x < m_data a \<or> m_ref a + get_capacity_from_header (h_mem h) (m_ref a) \<le> x" for x
    using that c by (intro set_direct_outside [OF w i]) (auto simp: m_data_eq)
  note up = payload_update [OF okh wr out]
  show "writable_array ops block (array_put a ndx value h) a" "kept ops block h (array_put a ndx value h) (m_ref a) (m_ref a)"
    using up by (simp_all add: array_put_def)
qed

lemma array_set_ok:
  assumes okh: "ok (h_alloc h)" and at: "array_at ops block h a" and size: "m_size a \<le> 4000000"
    and v: "int64 value" and i: "ndx < m_size a" and run: "array_set ops ndx value a h = Inr (a', h')"
  shows "ok (h_alloc h')" "array_at ops block h' a'"
    "contents (h_mem h') a' = (contents (h_mem h) a)[ndx := value]" "kept ops block h h' (m_ref a) (m_ref a')"
proof -
  have "ok (h_alloc h') \<and> array_at ops block h' a' \<and> contents (h_mem h') a' = (contents (h_mem h) a)[ndx := value] \<and>
      kept ops block h h' (m_ref a) (m_ref a')"
  proof (cases "array_get (h_mem h) a ndx = value")
    case True
    then have "(contents (h_mem h) a)[ndx := value] = contents (h_mem h) a"
      using i by (intro nth_equalityI) (auto simp: contents_def array_get_def nth_list_update)
    with True show ?thesis using run okh at by (simp add: array_set_def kept_refl)
  next
    case False
    obtain a1 h1 h2 where st: "copy_on_write ops a h = Inr (a1, h1)" "ensure_minimum_width ops value a1 h1 = Inr (a', h2)"
        "h' = array_put a' ndx value h2"
      using run False by (auto simp: array_set_def bind_result_eq_Inr)
    note one = copy_contents [OF okh at size st(1)]
    have "m_size a1 \<le> 4000000" using one(3) size by simp
    note two = ensure_minimum_width_ok [OF one(1,2) this v st(2)]
    have "ndx < m_size a'" using two(3) one(3) i by simp
    note three = array_put_ok [OF two(1,2) this two(4), folded st(3)]
    show ?thesis
      using three one(5,6) two(5,6) by (auto simp: writable_array_def intro: kept_trans)
  qed
  then show "ok (h_alloc h')" "array_at ops block h' a'"
    "contents (h_mem h') a' = (contents (h_mem h) a)[ndx := value]" "kept ops block h h' (m_ref a) (m_ref a')"
    by simp_all
qed

text \<open>Shrinking: the elements are moved down, then the size in the header is lowered.\<close>

lemma set_size_ok:
  assumes okh: "ok (h_alloc h)" and wr: "writable_array ops block h a" and n: "n \<le> m_size a"
    and a': "a' = a\<lparr>m_size := n\<rparr>" and h': "h' = set_header_size a' n h"
  shows "ok (h_alloc h')" "writable_array ops block h' a'" "contents (h_mem h') a' = take n (contents (h_mem h) a)"
    "kept ops block h h' (m_ref a) (m_ref a')"
proof -
  let ?m = "set_size_in_header n (h_mem h) (m_ref a)"
  have eq: "h' = h\<lparr>h_mem := ?m\<rparr>" by (simp add: h' set_header_size_def a')
  have w: "arr_ok (h_mem h) a" "calc_byte_len (m_size a) (m_width a) \<le> get_capacity_from_header (h_mem h) (m_ref a)"
    using wr by (simp_all add: writable_array_iff)
  have "m_size a \<le> max_array_size"
  proof -
    have b: "unat (b :: byte) < 256" for b using unsigned_less [where ?'a = nat, of b] by simp
    have "get_size_from_header (h_mem h) (m_ref a) \<le> max_array_size"
      using b [of "h_mem h (m_ref a + 5)"] b [of "h_mem h (m_ref a + 6)"] b [of "h_mem h (m_ref a + 7)"]
      by (simp add: get_size_from_header_def push_bit_eq_mult max_array_size_def)
    then show ?thesis using w(1) by (simp add: arr_ok_def)
  qed
  then have "n \<le> max_array_size" using n by simp
  then have aok: "arr_ok ?m a'" using w(1) unfolding arr_ok_def a' by (auto simp: header_simps)
  have len: "calc_byte_len (m_size a') (m_width a') \<le> get_capacity_from_header (h_mem h) (m_ref a)"
    using w(2) payload_bytes_mono [OF n, of "m_width a"] by (simp add: a' calc_byte_len_payload)
  have cap8: "8 \<le> get_capacity_from_header (h_mem h) (m_ref a)" using w(2) by (simp add: calc_byte_len_payload)
  have out: "?m x = h_mem h x" if "x < m_ref a \<or> m_ref a + get_capacity_from_header (h_mem h) (m_ref a) \<le> x" for x
    using that cap8 by (intro setters_frame) auto
  note up = inside_update [OF okh wr _ out capacity_frame(1) aok len]
  show "ok (h_alloc h')" using okh by (simp add: eq)
  show "writable_array ops block h' a'" "kept ops block h h' (m_ref a) (m_ref a')" using up by (simp_all add: eq a')
  have "get_direct (m_width a) ?m (m_data a) i = get_direct (m_width a) (h_mem h) (m_data a) i" if "i < m_size a" for i
    using that w(1) by (intro get_direct_copy [of _ _ "m_size a"]) (auto simp: arr_ok_def m_data_eq setters_frame)
  then show "contents (h_mem h') a' = take n (contents (h_mem h) a)"
    using n by (intro nth_equalityI) (simp_all add: contents_def eq a' m_data_eq)
qed

lemma array_move_ok:
  assumes okh: "ok (h_alloc h)" and at: "array_at ops block h a" and size: "m_size a \<le> 4000000"
    and r: "to \<le> b" "b \<le> e" "e \<le> m_size a" and run: "array_move ops b e to a h = Inr (a', h')"
  shows "ok (h_alloc h')" "writable_array ops block h' a'" "m_size a' = m_size a"
    "\<And>k. k < m_size a \<Longrightarrow> contents (h_mem h') a' ! k =
       contents (h_mem h) a ! (if to \<le> k \<and> k < to + (e - b) then k - to + b else k)"
    "kept ops block h h' (m_ref a) (m_ref a')"
proof -
  obtain h1 where cow: "copy_on_write ops a h = Inr (a', h1)"
    using run by (auto simp: array_move_def Let_def bind_result_eq_Inr split: if_splits)
  note one = copy_contents [OF okh at size cow]
  let ?w = "m_width a'" and ?d = "m_data a'"
  have w: "valid_width ?w" and wt: "get_wtype_from_header (h_mem h1) (m_ref a') = wtype_Bits"
    using one(2) unfolding writable_array_iff arr_ok_def by blast+
  define B where "B = ?w div 8"
  have h': "h' = (if ?w < 8 then move_loop a' [b..<e] to h1
      else h1\<lparr>h_mem := write_mem (h_mem h1) (?d + to * B) (read_mem (h_mem h1) (?d + b * B) ((e - b) * B))\<rparr>)"
    using run cow r by (simp add: array_move_def Let_def wt B_def diff_mult_distrib split: if_splits)
  have B: "?w = 8 * B" "0 < B" if "\<not> ?w < 8" using that w by (auto simp: B_def valid_width_def)
  have get: "get_direct ?w (h_mem h') ?d k = get_direct ?w (h_mem h1) ?d (if to \<le> k \<and> k < to + (e - b) then k - to + b else k)" for k
  proof (cases "?w < 8")
    case True
    then show ?thesis using get_move_loop [OF w r(1), of e h1 k] by (simp add: h')
  next
    case False
    then show ?thesis using get_memmove [OF w B, of "h_mem h1" ?d to b "e - b" k] by (simp add: h')
  qed
  obtain c where c: "get_capacity_from_header (h_mem h1) (m_ref a') = 8 * c + 8" "payload_bytes (m_size a) ?w \<le> 8 * c"
    using payload_room [OF one(2)] one(3) by metis
  have top: "to + (e - b) \<le> m_size a" using r by simp
  have out: "h_mem h' x = h_mem h1 x" if "x < ?d \<or> m_ref a' + get_capacity_from_header (h_mem h1) (m_ref a') \<le> x" for x
  proof -
    have x: "x < ?d \<or> ?d + payload_bytes (to + (e - b)) ?w \<le> x"
      using that c payload_bytes_mono [OF top, of ?w] by (auto simp: m_data_eq)
    show ?thesis
    proof (cases "?w < 8")
      case True
      then show ?thesis using x by (simp add: h' move_loop_outside [OF w])
    next
      case False
      have "payload_bytes (to + (e - b)) ?w = (to + (e - b)) * B"
        using bytes_range(2) [of "to + (e - b)" B] B(1) [OF False] by (simp add: payload_bytes_def)
      with x False show ?thesis by (auto simp: h' write_mem_def add_mult_distrib)
    qed
  qed
  have alloc: "h' = h1\<lparr>h_mem := h_mem h'\<rparr>" by (simp add: h')
  note up = payload_update [OF one(1,2) out, folded alloc]
  show "ok (h_alloc h')" using one(1) alloc by (metis h_alloc_conv)
  show "writable_array ops block h' a'" "m_size a' = m_size a" "kept ops block h h' (m_ref a) (m_ref a')"
    using up one(3) kept_trans [OF one(6) up(2)] by simp_all
  show "contents (h_mem h') a' ! k = contents (h_mem h) a ! (if to \<le> k \<and> k < to + (e - b) then k - to + b else k)"
    if "k < m_size a" for k
    unfolding one(5) [symmetric] using that r one(3) by (auto simp: contents_def get)
qed

lemma array_erase_range_ok:
  assumes okh: "ok (h_alloc h)" and at: "array_at ops block h a" and size: "m_size a \<le> 4000000"
    and r: "b < e" "e \<le> m_size a"
    and run: "bind_result (array_move ops e (m_size a) b a h) (\<lambda>(a, h).
        let a = a\<lparr>m_size := m_size a - (e - b)\<rparr> in Inr (a, set_header_size a (m_size a) h)) = Inr (a', h')"
  shows "ok (h_alloc h')" "writable_array ops block h' a'"
    "contents (h_mem h') a' = erase_range b e (contents (h_mem h) a)" "kept ops block h h' (m_ref a) (m_ref a')"
proof -
  obtain a1 h1 where mv: "array_move ops e (m_size a) b a h = Inr (a1, h1)"
      and fin: "a' = a1\<lparr>m_size := m_size a1 - (e - b)\<rparr>" "h' = set_header_size a' (m_size a1 - (e - b)) h1"
    using run by (auto simp: Let_def bind_result_eq_Inr)
  note one = array_move_ok [OF okh at size less_imp_le [OF r(1)] r(2) order_refl mv]
  note two = set_size_ok [OF one(1,2) diff_le_self fin]
  have n: "length (contents (h_mem h) a) = m_size a" "length (contents (h_mem h1) a1) = m_size a"
    using one(3) by (simp_all add: contents_def)
  have "take (m_size a1 - (e - b)) (contents (h_mem h1) a1) = erase_range b e (contents (h_mem h) a)"
    using r n one(3) by (intro nth_equalityI) (auto simp: one(4) nth_erase_range)
  then show "contents (h_mem h') a' = erase_range b e (contents (h_mem h) a)" using two(3) by simp
  show "ok (h_alloc h')" "writable_array ops block h' a'" "kept ops block h h' (m_ref a) (m_ref a')"
    using two kept_trans [OF one(5) two(4)] by simp_all
qed

lemma array_truncate_ok:
  assumes okh: "ok (h_alloc h)" and at: "array_at ops block h a" and size: "m_size a \<le> 4000000"
    and n: "n \<le> m_size a" and run: "array_truncate ops n a h = Inr (a', h')"
  shows "ok (h_alloc h')" "array_at ops block h' a'" "contents (h_mem h') a' = take n (contents (h_mem h) a)"
    "kept ops block h h' (m_ref a) (m_ref a')"
proof -
  have "ok (h_alloc h') \<and> array_at ops block h' a' \<and> contents (h_mem h') a' = take n (contents (h_mem h) a) \<and>
      kept ops block h h' (m_ref a) (m_ref a')"
  proof (cases "n = m_size a")
    case True
    then show ?thesis using run okh at by (simp add: array_truncate_def kept_refl contents_def)
  next
    case False
    obtain a1 h1 where cow: "copy_on_write ops a h = Inr (a1, h1)"
      using run False by (auto simp: array_truncate_def Let_def bind_result_eq_Inr)
    note one = copy_contents [OF okh at size cow]
    define a2 where "a2 = a1\<lparr>m_size := n\<rparr>"
    define h2 where "h2 = set_header_size a2 n h1"
    have "n \<le> m_size a1" using n one(3) by simp
    note two = set_size_ok [OF one(1,2) this a2_def h2_def]
    show ?thesis
    proof (cases "n = 0")
      case False
      then have "a' = a2" "h' = h2" using run \<open>n \<noteq> m_size a\<close> cow by (auto simp: array_truncate_def Let_def a2_def h2_def)
      then show ?thesis using two one(5,6) by (auto simp: writable_array_def intro: kept_trans)
    next
      case True
      let ?m = "set_width_in_header 0 (h_mem h2) (m_ref a2)"
      have h': "h' = h2\<lparr>h_mem := ?m\<rparr>" and a': "a' = update_width_cache_from_header ?m a2"
        using run \<open>n \<noteq> m_size a\<close> cow True by (auto simp: array_truncate_def Let_def a2_def h2_def)
      have w0: "valid_width 0" by (simp add: valid_width_def)
      have hd: "get_width_from_header ?m (m_ref a2) = 0" "get_size_from_header ?m (m_ref a2) = 0"
          "get_wtype_from_header ?m (m_ref a2) = wtype_Bits"
        using two(2) w0 True by (auto simp: header_simps writable_array_iff arr_ok_def a2_def)
      have f: "m_ref a' = m_ref a2" "m_size a' = 0" "m_width a' = 0" "m_lbound a' = lbound_for_width 0" "m_ubound a' = ubound_for_width 0"
        using hd True by (simp_all add: a' update_width_cache_from_header_def Let_def a2_def)
      have aok: "arr_ok ?m a'" using hd f w0 by (simp add: arr_ok_def)
      have "8 \<le> get_capacity_from_header (h_mem h2) (m_ref a2)"
        using two(2) by (simp add: writable_array_iff calc_byte_len_payload)
      then have "writable_array ops block h' a' \<and> kept ops block h2 h' (m_ref a2) (m_ref a2)"
        unfolding h' by (auto intro!: inside_update [OF two(1,2) f(1) _ capacity_frame(2) aok] setters_frame
            simp: f calc_byte_len_payload payload_bytes_def)
      moreover have "ok (h_alloc h')" using two(1) by (simp add: h')
      ultimately show ?thesis
        using two(4) one(6) f True by (auto simp: writable_array_def contents_def elems_def intro: kept_trans)
    qed
  qed
  then show "ok (h_alloc h')" "array_at ops block h' a'" "contents (h_mem h') a' = take n (contents (h_mem h) a)"
    "kept ops block h h' (m_ref a) (m_ref a')" by simp_all
qed

lemma array_create_ok:
  assumes okh: "ok (h_alloc h)" and n: "n \<le> 4000000" and v: "int64 value"
    and run: "array_create ops type context_flag wtype_Bits n value h = Inr (ref, h')"
    and a: "a = init_from_ref (h_mem h') ref"
  shows "ok (h_alloc h')" "writable_array ops block h' a" "contents (h_mem h') a = replicate n value"
    "block (h_alloc h) r k \<Longrightarrow> block (h_alloc h') r k \<and> r \<noteq> ref \<and> (\<forall>x. r \<le> x \<and> x < r + k \<longrightarrow> h_mem h' x = h_mem h x)"
proof -
  define w where "w = (if value \<noteq> 0 then bit_width value else 0)"
  have w: "valid_width w" "fits_width w value"
    using v bit_width_valid fits_bit_width by (auto simp: w_def valid_width_def width_0)
  have pos: "0 < w" if "value \<noteq> 0" using that fits_bit_width [OF v] by (cases "w = 0") (auto simp: w_def width_0)
  define c where "c = max (calc_byte_size wtype_Bits n w) initial_capacity"
  have size: "(if value \<noteq> 0 then calc_aligned_byte_size n w else Inr header_size) = Inr (calc_byte_size wtype_Bits n w)"
    using calc_aligned_byte_size_ok [OF w(1) pos n]
    by (simp add: w_def calc_byte_size_bits payload_bytes_def header_size_def)
  have c: "0 < c" "8 dvd c" "c \<le> 2 ^ 26 - 16" "calc_byte_len n w \<le> c" "8 \<le> c"
    using small_array(1) [OF n w(1)] calc_byte_size_bounds [of n w] by (auto simp: c_def initial_capacity_def max_def)
  define m1 where "m1 s = init_header (h_mem h) s (type = type_InnerBptreeNode)
      (type = type_InnerBptreeNode \<or> type = type_HasRefs) context_flag wtype_Bits w n c" for s
  define m2 where "m2 s = (if value \<noteq> 0 then fill_direct w (m1 s) (get_data_from_header s) 0 n value else m1 s)" for s
  obtain s where al: "op_alloc ops c (h_alloc h) = Inr (ref, s)" and h': "h' = \<lparr>h_mem = m2 ref, h_alloc = s\<rparr>"
    using run unfolding array_create_def Let_def w_def [symmetric] size bind_result_simps c_def [symmetric]
    by (auto simp: m1_def m2_def bind_result_eq_Inr)
  note new = alloc_block [OF okh c(1-3) al]
  have data: "get_data_from_header ref = ref + 8" by (simp add: get_data_from_header_def header_size_def)
  have fill: "m2 ref x = m1 ref x" if "x < ref + 8 \<or> ref + 8 + payload_bytes n w \<le> x" for x
  proof -
    have "fold (\<lambda>i m. set_direct w m (ref + 8) i value) is m x = m x" if "set is \<subseteq> {..<n}" for "is" m
      using that \<open>x < ref + 8 \<or> ref + 8 + payload_bytes n w \<le> x\<close>
      by (induction "is" arbitrary: m) (auto simp: set_direct_outside [OF w(1), of _ n])
    from this [of "[0..<n]" "m1 ref"] show ?thesis by (simp add: m2_def fill_direct_def data atLeast0LessThan)
  qed
  have "m2 ref (ref + i) = m1 ref (ref + i)" if "i < 8" for i using that by (intro fill) simp
  note hd = header_eqI [of "m2 ref" ref "m1 ref" ref, OF this]
  have "n \<le> max_array_size" using n by (simp add: max_array_size_def)
  note f = init_header_fields [OF w(1) this c(2), of "h_mem h" ref "type = type_InnerBptreeNode"
      "type = type_InnerBptreeNode \<or> type = type_HasRefs" context_flag wtype_Bits, folded m1_def]
  have c': "c \<le> 0x7fffff8" using c(3) by simp
  have fields: "m_ref a = ref" "m_size a = n" "m_width a = w" "m_lbound a = lbound_for_width w" "m_ubound a = ubound_for_width w"
    using f(5,6) [OF c'] hd by (simp_all add: a h' init_from_ref_def init_from_mem_def update_width_cache_from_header_def Let_def)
  show "ok (h_alloc h')" using new by (simp add: h')
  show "writable_array ops block h' a"
    using new f(4-7) [OF c'] hd w c(4) unfolding writable_array_iff arr_ok_def fields by (simp add: h')
  show "contents (h_mem h') a = replicate n value"
    using w by (intro nth_equalityI) (auto simp: contents_def fields h' m2_def m_data_eq data get_fill_direct w_def width_0)
  show "block (h_alloc h') r k \<and> r \<noteq> ref \<and> (\<forall>x. r \<le> x \<and> x < r + k \<longrightarrow> h_mem h' x = h_mem h x)" if "block (h_alloc h) r k"
  proof -
    note o = alloc_other [OF okh al c(1-3) that]
    have "m2 ref x = h_mem h x" if "r \<le> x" "x < r + k" for x
    proof -
      have x: "x < ref \<or> ref + c \<le> x" using o(4) that by auto
      moreover have "8 + payload_bytes n w \<le> c" using c(4) by (simp add: calc_byte_len_payload)
      ultimately have "m2 ref x = m1 ref x" by (intro fill) auto
      also have "\<dots> = h_mem h x" unfolding m1_def using x c(5) by (intro init_header_frame) auto
      finally show ?thesis .
    qed
    with o show ?thesis by (simp add: h')
  qed
qed

text \<open>The only error of these operations is that of the allocator.\<close>

lemma array_insert_error:
  assumes okh: "ok (h_alloc h)" and at: "array_at ops block h a" and size: "m_size a \<le> 4000000"
    and v: "int64 value" and run: "array_insert ops ndx value a h = Inl e"
  shows "e = MaximumFileSizeExceeded"
proof -
  have w: "valid_width (m_width a)" using at unfolding array_at_def arr_ok_def by blast
  have n: "m_size a + 1 \<le> max_array_size" using size by (simp add: max_array_size_def)
  have "e = MaximumFileSizeExceeded" if "valid_width x" "array_alloc ops (m_size a + 1) x a h = Inl e" for x
    using that by (intro array_alloc_error [OF okh at small_array(1) [OF size w] small_array(2) [OF size] n])
  moreover obtain x where "valid_width x" "array_alloc ops (m_size a + 1) x a h = Inl e"
  proof (cases "value < m_lbound a \<or> value > m_ubound a")
    case True
    then have "array_alloc ops (m_size a + 1) (bit_width value) a h = Inl e"
      using run by (cases "array_alloc ops (m_size a + 1) (bit_width value) a h") (auto simp: array_insert_def Let_def)
    then show ?thesis by (rule that [OF bit_width_valid [OF v]])
  next
    case False
    then have "array_alloc ops (m_size a + 1) (m_width a) a h = Inl e"
      using run by (cases "array_alloc ops (m_size a + 1) (m_width a) a h") (auto simp: array_insert_def Let_def)
    then show ?thesis by (rule that [OF w])
  qed
  ultimately show ?thesis by blast
qed

lemma copy_error:
  assumes "ok (h_alloc h)" "array_at ops block h a" "m_size a \<le> 4000000" "copy_on_write ops a h = Inl e"
  shows "e = MaximumFileSizeExceeded"
proof -
  have w: "valid_width (m_width a)" using assms(2) unfolding array_at_def arr_ok_def by blast
  have "calc_byte_len (m_size a) (m_width a) \<le> 2 ^ 26 - 100" using small_array(1) [OF assms(3) w] by simp
  then show ?thesis by (rule copy_on_write_error [OF assms(1,2) _ _ assms(4) [unfolded copy_on_write_eq]]) simp
qed

lemma ensure_minimum_width_error:
  assumes okh: "ok (h_alloc h)" and at: "array_at ops block h a" and size: "m_size a \<le> 4000000"
    and v: "int64 value" and run: "ensure_minimum_width ops value a h = Inl e"
  shows "e = MaximumFileSizeExceeded"
proof -
  have w: "valid_width (m_width a)" using at unfolding array_at_def arr_ok_def by blast
  have n: "m_size a \<le> max_array_size" using size by (simp add: max_array_size_def)
  have "array_alloc ops (m_size a) (bit_width value) a h = Inl e"
    using run by (cases "array_alloc ops (m_size a) (bit_width value) a h")
      (auto simp: ensure_minimum_width_def do_ensure_minimum_width_def Let_def split: if_splits)
  then show ?thesis
    using bit_width_valid [OF v] by (intro array_alloc_error [OF okh at small_array(1) [OF size w] small_array(1) [OF size] n])
qed

lemma array_set_error:
  assumes okh: "ok (h_alloc h)" and at: "array_at ops block h a" and size: "m_size a \<le> 4000000"
    and v: "int64 value" and run: "array_set ops ndx value a h = Inl e"
  shows "e = MaximumFileSizeExceeded"
proof (cases "copy_on_write ops a h")
  case (Inl e')
  then have "e' = e" using run by (auto simp: array_set_def split: if_splits)
  then show ?thesis using copy_error [OF okh at size Inl] by simp
next
  case (Inr p)
  obtain a1 h1 where p: "p = (a1, h1)" by (cases p)
  note one = copy_contents [OF okh at size Inr [unfolded p]]
  have "ensure_minimum_width ops value a1 h1 = Inl e"
    using run Inr p by (cases "ensure_minimum_width ops value a1 h1") (auto simp: array_set_def split: if_splits)
  then show ?thesis using one size v by (intro ensure_minimum_width_error [OF one(1)]) (simp_all add: writable_array_def)
qed

lemma array_move_error:
  assumes "ok (h_alloc h)" "array_at ops block h a" "m_size a \<le> 4000000" "array_move ops b e to a h = Inl err"
  shows "err = MaximumFileSizeExceeded"
proof -
  have "copy_on_write ops a h = Inl err"
    using assms(4) by (cases "copy_on_write ops a h") (auto simp: array_move_def Let_def split: if_splits)
  then show ?thesis by (rule copy_error [OF assms(1-3)])
qed

lemma array_truncate_error:
  assumes "ok (h_alloc h)" "array_at ops block h a" "m_size a \<le> 4000000" "array_truncate ops n a h = Inl e"
  shows "e = MaximumFileSizeExceeded"
proof -
  have "copy_on_write ops a h = Inl e"
    using assms(4) by (cases "copy_on_write ops a h") (auto simp: array_truncate_def Let_def split: if_splits)
  then show ?thesis by (rule copy_error [OF assms(1-3)])
qed

lemma array_create_error:
  assumes okh: "ok (h_alloc h)" and n: "n \<le> 4000000" and v: "int64 value"
    and run: "array_create ops type context_flag wtype_Bits n value h = Inl e"
  shows "e = MaximumFileSizeExceeded"
proof -
  define w where "w = (if value \<noteq> 0 then bit_width value else 0)"
  have w: "valid_width w" using bit_width_valid [OF v] by (auto simp: w_def valid_width_def)
  have pos: "0 < w" if "value \<noteq> 0" using that fits_bit_width [OF v] by (cases "w = 0") (auto simp: w_def width_0)
  define c where "c = max (calc_byte_size wtype_Bits n w) initial_capacity"
  have size: "(if value \<noteq> 0 then calc_aligned_byte_size n w else Inr header_size) = Inr (calc_byte_size wtype_Bits n w)"
    using calc_aligned_byte_size_ok [OF w pos n]
    by (simp add: w_def calc_byte_size_bits payload_bytes_def header_size_def)
  have c: "0 < c" "8 dvd c" "c \<le> 2 ^ 26 - 16"
    using small_array(1) [OF n w] calc_byte_size_bounds [of n w] by (auto simp: c_def initial_capacity_def max_def)
  have "op_alloc ops c (h_alloc h) = Inl e"
    using run unfolding array_create_def Let_def w_def [symmetric] size bind_result_simps c_def [symmetric]
    by (cases "op_alloc ops c (h_alloc h)") auto
  then show ?thesis by (rule alloc_error [OF okh c])
qed

end

end
