(* ===== verification/Slab_Laws.thy ===== *)
theory Slab_Laws
  imports Slab_Invariant Array_Lists
begin

text \<open>
  The slab allocator keeps the laws that the arrays rely on. The states of the allocator during
  a write transaction are those reachable by allocations, frees, resets and file growth; they
  satisfy the invariant. \<open>slab_ok\<close> and \<open>slab_block\<close> instantiate the interface
  \<open>allocator\<close>: the blocks are the used blocks of the slabs and the nodes of the file that are
  not yet freed.
\<close>

subsection \<open>Freed parts of the file\<close>

definition chunks_ok :: "(nat \<times> nat) list \<Rightarrow> bool" where
  "chunks_ok cs \<longleftrightarrow> sorted_wrt (\<lambda>x y. fst x + snd x < fst y) cs \<and> (\<forall>x\<in>set cs. 0 < snd x)"

definition covered :: "(nat \<times> nat) list \<Rightarrow> nat set" where
  "covered cs = (\<Union>x\<in>set cs. {fst x..<fst x + snd x})"

lemma covered_simps [simp]:
  "covered [] = {}" "covered (x # cs) = {fst x..<fst x + snd x} \<union> covered cs" "covered (cs @ ds) = covered cs \<union> covered ds"
  by (auto simp: covered_def)

lemma chunks_ok_append:
  "chunks_ok (cs @ ds) \<longleftrightarrow> chunks_ok cs \<and> chunks_ok ds \<and> (\<forall>x\<in>set cs. \<forall>y\<in>set ds. fst x + snd x < fst y)"
  by (auto simp: chunks_ok_def sorted_wrt_append)

lemma chunks_ok_Cons:
  "chunks_ok (x # cs) \<longleftrightarrow> 0 < snd x \<and> chunks_ok cs \<and> (\<forall>y\<in>set cs. fst x + snd x < fst y)"
  by (auto simp: chunks_ok_def)

lemma chunks_dropWhile:
  "chunks_ok cs \<Longrightarrow> y \<in> set (dropWhile (\<lambda>e. fst e < ref) cs) \<Longrightarrow> ref \<le> fst y"
  by (induction cs) (auto simp: chunks_ok_Cons split: if_splits)

lemma covered_chunk: "x \<in> set cs \<Longrightarrow> fst x \<le> a \<Longrightarrow> a < fst x + snd x \<Longrightarrow> a \<in> covered cs"
  by (auto simp: covered_def)

lemma free_read_only_next:
  assumes ok: "chunks_ok nx" and n: "0 < n" and ge: "\<And>y. y \<in> set nx \<Longrightarrow> ref + n \<le> fst y"
  obtains n1 nx1 where "(case nx of [] \<Rightarrow> Inr (n, nx)
      | (r, m) # rest \<Rightarrow> if \<not> ref + n \<le> r then Inl (AssertionFailed ''ref + size <= next->first'')
          else if ref + n = r then Inr (n + m, rest) else Inr (n, nx)) = Inr (n1, nx1)"
    "chunks_ok ((ref, n1) # nx1)" "covered ((ref, n1) # nx1) = {ref..<ref + n} \<union> covered nx"
proof (cases nx)
  case Nil
  then show ?thesis using that [of n "[]"] n by (simp add: chunks_ok_Cons chunks_ok_def)
next
  case (Cons c rest)
  obtain r m where c: "c = (r, m)" by (cases c)
  have le: "ref + n \<le> r" using ge [of c] Cons c by simp
  have ok': "0 < m" "chunks_ok rest" "\<And>y. y \<in> set rest \<Longrightarrow> r + m < fst y" using ok Cons c by (auto simp: chunks_ok_Cons)
  show ?thesis
  proof (cases "ref + n = r")
    case True
    have "chunks_ok ((ref, n + m) # rest)" using ok' True by (simp add: chunks_ok_Cons add.assoc [symmetric])
    moreover have "{ref..<ref + (n + m)} = {ref..<ref + n} \<union> {r..<r + m}" using True by auto
    ultimately show ?thesis using that [of "n + m" rest] Cons c True by (simp add: Un_assoc)
  next
    case False
    have "chunks_ok ((ref, n) # nx)" using ok' ok le False n Cons c by (fastforce simp: chunks_ok_Cons)
    then show ?thesis using that [of n nx] Cons c False le by simp
  qed
qed

lemma free_read_only_ok:
  assumes ok: "chunks_ok cs" and ref: "ref \<noteq> 0" "8 dvd ref" and n: "0 < n" and new: "{ref..<ref + n} \<inter> covered cs = {}"
  obtains cs' where "free_read_only ref n cs = Inr cs'" "chunks_ok cs'" "covered cs' = covered cs \<union> {ref..<ref + n}"
proof -
  define bf where "bf = takeWhile (\<lambda>e. fst e < ref) cs"
  define nx where "nx = dropWhile (\<lambda>e. fst e < ref) cs"
  have cs: "cs = bf @ nx" by (simp add: bf_def nx_def)
  have okb: "chunks_ok bf" and okn: "chunks_ok nx" using ok unfolding cs chunks_ok_append by blast+
  have bf: "fst x + snd x \<le> ref" if "x \<in> set bf" for x
  proof (rule ccontr)
    assume "\<not> fst x + snd x \<le> ref"
    moreover have "fst x < ref" "x \<in> set cs" using that set_takeWhileD [of x _ cs] by (auto simp: bf_def)
    ultimately have "ref \<in> covered cs" by (intro covered_chunk [of x]) auto
    moreover have "ref \<in> {ref..<ref + n}" using n by simp
    ultimately show False using new by blast
  qed
  have nx: "ref + n \<le> fst y" if "y \<in> set nx" for y
  proof (rule ccontr)
    assume less: "\<not> ref + n \<le> fst y"
    have "ref \<le> fst y" using chunks_dropWhile [OF ok, of y ref] that by (simp add: nx_def)
    moreover have "fst y \<in> covered cs"
      using that okn cs by (intro covered_chunk [of y]) (auto simp: chunks_ok_def)
    moreover have "fst y \<in> {ref..<ref + n}" using less \<open>ref \<le> fst y\<close> by simp
    ultimately show False using new by blast
  qed
  obtain n1 nx1 where one: "(case nx of [] \<Rightarrow> Inr (n, nx)
      | (r, m) # rest \<Rightarrow> if \<not> ref + n \<le> r then Inl (AssertionFailed ''ref + size <= next->first'')
          else if ref + n = r then Inr (n + m, rest) else Inr (n, nx)) = (Inr (n1, nx1) :: (nat \<times> (nat \<times> nat) list) result)"
    "chunks_ok ((ref, n1) # nx1)" "covered ((ref, n1) # nx1) = {ref..<ref + n} \<union> covered nx"
    by (rule free_read_only_next [OF okn n nx])
  have run: "free_read_only ref n cs = (if bf \<noteq> [] then
       (let (r, m) = last bf
        in if \<not> r + m \<le> ref then Inl (AssertionFailed ''prev->first + prev->second <= ref'')
           else if r + m = ref then Inr (butlast bf @ (r, m + n1) # nx1) else Inr (bf @ (ref, n1) # nx1))
     else Inr ((ref, n1) # nx1))"
    using ref unfolding free_read_only_def Let_def bf_def [symmetric] nx_def [symmetric] one(1) by (auto simp: dvd_eq_mod_eq_0)
  show thesis
  proof (cases "bf = []")
    case True
    then show ?thesis using that [OF run [simplified True, simplified]] one(2,3) cs by auto
  next
    case False
    then obtain ys r m where bfs: "bf = ys @ [(r, m)]" by (metis rev_exhaust surj_pair)
    have rm: "r + m \<le> ref" using bf [of "(r, m)"] bfs by simp
    show ?thesis
    proof (cases "r + m = ref")
      case True
      have "chunks_ok (ys @ (r, m + n1) # nx1)"
        using okb one(2) True unfolding bfs by (fastforce simp: chunks_ok_append chunks_ok_Cons)
      moreover have "{r..<r + (m + n1)} = {r..<r + m} \<union> {ref..<ref + n1}" using True by auto
      ultimately show ?thesis
        using that [of "ys @ (r, m + n1) # nx1"] run True one(3) cs bfs by (auto simp: Un_assoc)
    next
      case False
      have "fst x + snd x < ref" if "x \<in> set bf" for x
        using that okb False rm unfolding bfs by (auto simp: chunks_ok_append chunks_ok_Cons)
      moreover have "ref \<le> fst y" if "y \<in> set ((ref, n1) # nx1)" for y
        using that one(2) by (cases "y = (ref, n1)") (auto simp: chunks_ok_Cons dest: bspec)
      ultimately have "chunks_ok (bf @ (ref, n1) # nx1)"
        using okb one(2) unfolding chunks_ok_append by (blast intro: order_less_le_trans)
      then show ?thesis
        using that [of "bf @ (ref, n1) # nx1"] run False rm one(3) cs bfs by auto
    qed
  qed
qed

subsection \<open>The blocks the allocator has handed out\<close>

text \<open>The file holds the nodes \<open>F\<close>, given by ref and size.\<close>

definition file_nodes :: "(nat \<times> nat) set \<Rightarrow> nat \<Rightarrow> bool" where
  "file_nodes F file_size \<longleftrightarrow>
     (\<forall>(r, k)\<in>F. 0 < r \<and> 8 dvd r \<and> 0 < k \<and> r + k \<le> file_size) \<and>
     (\<forall>(r, k)\<in>F. \<forall>(r', k')\<in>F. (r, k) \<noteq> (r', k') \<longrightarrow> r + k \<le> r' \<or> r' + k' \<le> r)"

definition slab_ok :: "(nat \<times> nat) set \<Rightarrow> slab_alloc \<Rightarrow> bool" where
  "slab_ok F s \<longleftrightarrow> (\<exists>B. slab_inv s B {} {}) \<and> chunks_ok (m_free_read_only s) \<and> file_nodes F (m_baseline s) \<and>
     m_free_space_state s \<noteq> free_space_Invalid \<and> \<not> m_is_read_only s"

definition slab_block :: "(nat \<times> nat) set \<Rightarrow> slab_alloc \<Rightarrow> nat \<Rightarrow> nat \<Rightarrow> bool" where
  "slab_block F s r k \<longleftrightarrow> 0 < k \<and>
     ((\<exists>B n. slab_inv s B {} {} \<and> (r, n) \<in> used (block_after_size s) B \<and> k \<le> n) \<or>
      ((r, k) \<in> F \<and> {r..<r + k} \<inter> covered (m_free_read_only s) = {}))"

lemma slab_inv_unique: "slab_inv s B Z X \<Longrightarrow> slab_inv s B' Z' X' \<Longrightarrow> B = B'"
  unfolding slab_inv_def using blocks_unique by blast

lemma used_block:
  assumes "slab_inv s B Z X" "(r, n) \<in> used (block_after_size s) B"
  shows "r \<in> B" "bsize (block_after_size s) r = n" "m_baseline s + 8 \<le> r" "0 < n" "n \<le> 2 ^ 26"
proof -
  have B: "blocks_ok (block_before_size s) (block_after_size s) (slab_starts (m_slabs s)) (m_baseline s) (get_total_size s) B Z"
    using assms(1) by (simp add: slab_inv_def)
  show r: "r \<in> B" and n: "bsize (block_after_size s) r = n" and "0 < n" using assms(2) by (auto simp: used_def bsize_def)
  show "m_baseline s + 8 \<le> r" by (rule blocks_okD(1) [OF B r])
  show "n \<le> 2 ^ 26"
  proof (rule ccontr)
    assume "\<not> n \<le> 2 ^ 26"
    then have "r - 8 + 2 ^ 26 \<le> r + n" by simp
    then have "(r - 8 + 2 ^ 26) div 2 ^ 26 \<le> (r + n) div 2 ^ 26" by (rule div_le_mono)
    moreover have "(r - 8 + 2 ^ 26) div 2 ^ 26 = (r - 8) div 2 ^ 26 + 1" by (rule div_add_self2) simp
    ultimately show False using blocks_okD(6) [OF B r] n by simp
  qed
qed

lemma used_disjoint:
  assumes "slab_inv s B Z X" "(r, n) \<in> used (block_after_size s) B" "(r', n') \<in> used (block_after_size s) B" "(r, n) \<noteq> (r', n')"
  shows "r + n + 8 \<le> r' \<or> r' + n' + 8 \<le> r"
proof -
  have B: "blocks_ok (block_before_size s) (block_after_size s) (slab_starts (m_slabs s)) (m_baseline s) (get_total_size s) B Z"
    using assms(1) by (simp add: slab_inv_def)
  note u = used_block(1,2) [OF assms(1,2)] used_block(1,2) [OF assms(1,3)]
  have "r \<noteq> r'" using u assms(4) by auto
  then show ?thesis using blocks_apart(1) [OF B u(1,3)] u(2,4) by simp
qed

lemma slab_block_cases:
  assumes "slab_ok F s" "slab_block F s r k"
  obtains B n where "slab_inv s B {} {}" "(r, n) \<in> used (block_after_size s) B" "k \<le> n" "0 < k" "\<not> is_read_only s r"
    | "(r, k) \<in> F" "{r..<r + k} \<inter> covered (m_free_read_only s) = {}" "0 < r" "8 dvd r" "0 < k" "r + k \<le> m_baseline s" "is_read_only s r"
proof -
  from assms(2) consider B n where "slab_inv s B {} {}" "(r, n) \<in> used (block_after_size s) B" "k \<le> n" "0 < k"
    | "(r, k) \<in> F" "{r..<r + k} \<inter> covered (m_free_read_only s) = {}" unfolding slab_block_def by blast
  then show thesis
  proof cases
    case 1
    then show ?thesis using that(1) used_block(3) [OF 1(1,2)] by (simp add: is_read_only_def)
  next
    case 2
    then have "0 < r \<and> 8 dvd r \<and> 0 < k \<and> r + k \<le> m_baseline s"
      using assms(1) by (auto simp: slab_ok_def file_nodes_def)
    then show ?thesis using that(2) 2 by (simp add: is_read_only_def)
  qed
qed

lemma slab_block_disjoint:
  assumes ok: "slab_ok F s" and b: "slab_block F s r k" and b': "slab_block F s r' k'" and ne: "r \<noteq> r'"
  shows "r + k \<le> r' \<or> r' + k' \<le> r"
  using ok b
proof (cases rule: slab_block_cases)
  case (1 B n)
  show ?thesis using ok b'
  proof (cases rule: slab_block_cases)
    case (1 B' n')
    have "B' = B" using slab_inv_unique [OF \<open>slab_inv s B' {} {}\<close> \<open>slab_inv s B {} {}\<close>] .
    then show ?thesis
      using used_disjoint [OF \<open>slab_inv s B {} {}\<close> \<open>(r, n) \<in> _\<close>, of r' n'] \<open>(r', n') \<in> _\<close> ne \<open>k \<le> n\<close> \<open>k' \<le> n'\<close> by auto
  next
    case 2
    then show ?thesis using used_block(3) [OF \<open>slab_inv s B {} {}\<close> \<open>(r, n) \<in> _\<close>] by simp
  qed
next
  case 2
  show ?thesis using ok b'
  proof (cases rule: slab_block_cases)
    case (1 B' n')
    then show ?thesis using used_block(3) [OF \<open>slab_inv s B' {} {}\<close> \<open>(r', n') \<in> _\<close>] \<open>r + k \<le> m_baseline s\<close> by simp
  next
    case 2
    have "file_nodes F (m_baseline s)" using ok by (simp add: slab_ok_def)
    then show ?thesis using \<open>(r, k) \<in> F\<close> \<open>(r', k') \<in> F\<close> ne unfolding file_nodes_def by auto
  qed
qed

lemma slab_alloc_ok:
  assumes ok: "slab_ok F s" and n: "0 < n" "8 dvd n" "n \<le> 2 ^ 26 - 16" and run: "alloc n s = Inr (ref, s')"
  shows "slab_ok F s'" "slab_block F s' ref n" "\<not> is_read_only s' ref"
    "slab_block F s r k \<Longrightarrow> slab_block F s' r k \<and> is_read_only s' r = is_read_only s r \<and> (r + k \<le> ref \<or> ref + n \<le> r)"
proof -
  obtain B where B: "slab_inv s B {} {}" using ok by (auto simp: slab_ok_def)
  have st: "m_free_space_state s \<noteq> free_space_Invalid" and "do_alloc n s = Inr (ref, s')"
    using ok run by (auto simp: slab_ok_def alloc_def)
  then obtain B' m where A: "slab_inv s' B' {} {}" "n \<le> m" "ref \<in> B'"
    "used (block_after_size s') B' = insert (ref, m) (used (block_after_size s) B)" "(ref, m) \<notin> used (block_after_size s) B"
    "same_frame (s\<lparr>m_free_space_state := free_space_Dirty, m_commit_size := m_commit_size s + of_nat n\<rparr>) s'"
    using do_alloc_inv [OF B n] by metis
  have fr: "m_baseline s' = m_baseline s" "m_free_read_only s' = m_free_read_only s" "m_is_read_only s' = m_is_read_only s"
    "m_free_space_state s' = free_space_Dirty" using A(6) by (simp_all add: same_frame_def)
  have new: "(ref, m) \<in> used (block_after_size s') B'" using A(4) by simp
  show ok': "slab_ok F s'" using ok A(1) fr by (auto simp: slab_ok_def)
  show blk: "slab_block F s' ref n" using A(1,2) new n(1) unfolding slab_block_def by blast
  show "\<not> is_read_only s' ref" using used_block(3) [OF A(1) new] by (simp add: is_read_only_def)
  assume b: "slab_block F s r k"
  have ro: "is_read_only s' r = is_read_only s r" by (simp add: is_read_only_def fr)
  from ok b show "slab_block F s' r k \<and> is_read_only s' r = is_read_only s r \<and> (r + k \<le> ref \<or> ref + n \<le> r)"
  proof (cases rule: slab_block_cases)
    case (1 B1 m')
    have "B1 = B" by (rule slab_inv_unique [OF 1(1) B])
    then have in': "(r, m') \<in> used (block_after_size s') B'" and "(r, m') \<noteq> (ref, m)" using 1(2) A(4,5) by auto
    then have "r + m' + 8 \<le> ref \<or> ref + m + 8 \<le> r" using used_disjoint [OF A(1) in' new] by simp
    moreover have "slab_block F s' r k" using A(1) in' 1(3,4) unfolding slab_block_def by blast
    ultimately show ?thesis using ro A(2) 1(3) by auto
  next
    case 2
    then show ?thesis using ro used_block(3) [OF A(1) new] fr by (simp add: slab_block_def)
  qed
qed

lemma slab_alloc_error:
  assumes ok: "slab_ok F s" and n: "8 dvd n" "n \<le> 2 ^ 26 - 16" and run: "alloc n s = Inl e"
  shows "e = MaximumFileSizeExceeded"
proof -
  have st: "m_free_space_state s \<noteq> free_space_Invalid" and da: "do_alloc n s = Inl e"
    using ok run by (auto simp: slab_ok_def alloc_def)
  have "n < 2 ^ 26" using n(2) by simp
  note eq = do_alloc_eq [OF n(1) this st]
  let ?r = "allocate_block (request_size n) (s\<lparr>m_free_space_state := free_space_Dirty, m_commit_size := m_commit_size s + of_nat n\<rparr>)"
  have "?r = Inl e" using da unfolding eq by (cases ?r) auto
  then show ?thesis by (rule allocate_block_error)
qed

text \<open>Freeing a block of the slabs, and freeing a node of the file.\<close>

lemma slab_free_used:
  assumes ok: "slab_ok F s" and B: "slab_inv s B {} {}" and r: "(r, n) \<in> used (block_after_size s) B" "0 < k" "k \<le> n"
  obtains s' where "do_free r k s = Inr s'" "slab_ok F s'"
    "\<And>r' k'. slab_block F s r' k' \<Longrightarrow> r' \<noteq> r \<Longrightarrow> slab_block F s' r' k' \<and> is_read_only s' r' = is_read_only s r'"
proof -
  have st: "m_free_space_state s \<noteq> free_space_Invalid" using ok by (simp add: slab_ok_def)
  note u = used_block [OF B r(1)]
  have rw: "\<not> is_read_only s r" using u(3) by (simp add: is_read_only_def)
  have "k \<le> 2 ^ 30" using r(3) u(5) by simp
  from do_free_inv [OF B st rw r(1,2) this] obtain s' B' where A: "do_free r k s = Inr s'" "slab_inv s' B' {} {}"
    "used (block_after_size s') B' = used (block_after_size s) B - {(r, n)}"
    "same_frame (s\<lparr>m_free_space_state := free_space_Dirty, m_commit_size := m_commit_size s - of_nat k\<rparr>) s'" by metis
  have fr: "m_baseline s' = m_baseline s" "m_free_read_only s' = m_free_read_only s" "m_is_read_only s' = m_is_read_only s"
    "m_free_space_state s' = free_space_Dirty" using A(4) by (simp_all add: same_frame_def)
  have "slab_block F s' r' k'" if b: "slab_block F s r' k'" and ne: "r' \<noteq> r" for r' k'
    using ok b
  proof (cases rule: slab_block_cases)
    case (1 B1 m)
    then have "(r', m) \<in> used (block_after_size s') B'" using slab_inv_unique [OF 1(1) B] A(3) ne by auto
    then show ?thesis using A(2) 1(3,4) unfolding slab_block_def by blast
  next
    case 2
    then show ?thesis by (simp add: slab_block_def fr)
  qed
  then show thesis using that [OF A(1)] ok A(2) fr by (auto simp: slab_ok_def is_read_only_def)
qed

lemma slab_free_file:
  assumes ok: "slab_ok F s" and r: "(r, k) \<in> F" "{r..<r + k} \<inter> covered (m_free_read_only s) = {}" "0 < r" "8 dvd r" "0 < k" "is_read_only s r"
  obtains s' where "do_free r k s = Inr s'" "slab_ok F s'"
    "\<And>r' k'. slab_block F s r' k' \<Longrightarrow> r' \<noteq> r \<Longrightarrow> slab_block F s' r' k' \<and> is_read_only s' r' = is_read_only s r'"
proof -
  have st: "m_free_space_state s \<noteq> free_space_Invalid" "chunks_ok (m_free_read_only s)" using ok by (simp_all add: slab_ok_def)
  have "r \<noteq> 0" using r(3) by simp
  from free_read_only_ok [OF st(2) this r(4,5,2)] obtain cs where cs: "free_read_only r k (m_free_read_only s) = Inr cs"
    "chunks_ok cs" "covered cs = covered (m_free_read_only s) \<union> {r..<r + k}" by metis
  let ?s = "s\<lparr>m_free_space_state := free_space_Dirty, m_free_read_only := cs\<rparr>"
  have run: "do_free r k s = Inr ?s" using st(1) r(6) cs(1) by (simp add: do_free_def Let_def)
  have inv: "slab_inv ?s B {} {} = slab_inv s B {} {}" for B by (simp add: slab_inv_def get_total_size_def)
  have "slab_ok F ?s" using ok cs(2) inv by (simp add: slab_ok_def)
  moreover have "slab_block F ?s r' k'" if b: "slab_block F s r' k'" and ne: "r' \<noteq> r" for r' k'
    using ok b
  proof (cases rule: slab_block_cases)
    case (1 B m)
    then show ?thesis using inv by (auto simp: slab_block_def)
  next
    case 2
    have "slab_block F s r k" using r by (simp add: slab_block_def)
    then have "r + k \<le> r' \<or> r' + k' \<le> r" using slab_block_disjoint [OF ok _ b] ne by simp
    then have "{r'..<r' + k'} \<inter> {r..<r + k} = {}" by auto
    then show ?thesis using 2 cs(3) by (auto simp: slab_block_def)
  qed
  ultimately show thesis using that [OF run] by (simp add: is_read_only_def)
qed

lemma slab_free_ok:
  assumes ok: "slab_ok F s" and b: "slab_block F s r k"
  obtains s' where "do_free r k s = Inr s'" "slab_ok F s'"
    "\<And>r' k'. slab_block F s r' k' \<Longrightarrow> r' \<noteq> r \<Longrightarrow> slab_block F s' r' k' \<and> is_read_only s' r' = is_read_only s r'"
  using ok b
proof (cases rule: slab_block_cases)
  case (1 B n)
  then show ?thesis using slab_free_used [OF ok 1(1,2,4,3)] that by metis
next
  case 2
  then show ?thesis using slab_free_file [OF ok 2(1-5,7)] that by metis
qed

text \<open>The slab allocator provides the interface the arrays are written against.\<close>

lemma slab_ops_simps [simp]:
  "op_alloc slab_ops = alloc" "op_free slab_ops = do_free" "op_is_read_only slab_ops = is_read_only"
  by (simp_all add: slab_ops_def)

interpretation slab_arrays: allocator slab_ops "slab_ok F" "slab_block F" for F
proof unfold_locales
  fix s s' ref n r k r' k' e
  assume ok: "slab_ok F s"
  show "slab_ok F s' \<and> slab_block F s' ref n \<and> \<not> op_is_read_only slab_ops s' ref"
    if "0 < n" "8 dvd n" "n \<le> 2 ^ 26 - 16" "op_alloc slab_ops n s = Inr (ref, s')"
    using slab_alloc_ok [OF ok that(1-3)] that(4) by simp
  show "slab_block F s' r k \<and> op_is_read_only slab_ops s' r = op_is_read_only slab_ops s r \<and> (r + k \<le> ref \<or> ref + n \<le> r)"
    if "0 < n" "8 dvd n" "n \<le> 2 ^ 26 - 16" "op_alloc slab_ops n s = Inr (ref, s')" "slab_block F s r k"
    using slab_alloc_ok [OF ok that(1-3)] that(4,5) by simp
  show "e = MaximumFileSizeExceeded" if "0 < n" "8 dvd n" "n \<le> 2 ^ 26 - 16" "op_alloc slab_ops n s = Inl e"
    using slab_alloc_error [OF ok that(2,3)] that(4) by simp
  assume b: "slab_block F s r k"
  show "0 < k" using b by (simp add: slab_block_def)
  obtain s1 where s1: "do_free r k s = Inr s1" "slab_ok F s1"
    "\<And>r' k'. slab_block F s r' k' \<Longrightarrow> r' \<noteq> r \<Longrightarrow> slab_block F s1 r' k' \<and> is_read_only s1 r' = is_read_only s r'"
    by (rule slab_free_ok [OF ok b]) blast
  show "\<exists>s'. op_free slab_ops r k s = Inr s' \<and> slab_ok F s'" using s1 by simp
  show "slab_block F s' r' k' \<and> op_is_read_only slab_ops s' r' = op_is_read_only slab_ops s r'"
    if "op_free slab_ops r k s = Inr s'" "slab_block F s r' k'" "r' \<noteq> r" using s1(1,3) that by simp
  show "r + k \<le> r' \<or> r' + k' \<le> r" if "slab_block F s r' k'" "r \<noteq> r'"
    by (rule slab_block_disjoint [OF ok b that])
qed

end
