(* ===== verification/Slab_Run.thy ===== *)
theory Slab_Run
  imports Slab_Laws
begin

text \<open>
  The life of the slab allocator: a database is attached, a write transaction allocates and
  frees, and a commit writes the live nodes to the file, which grows, and starts the slabs
  afresh. \<open>slab_run s L\<close> says that the state \<open>s\<close> is reached with the live blocks \<open>L\<close>.
  The properties of the allocator hold in all such states.
\<close>

subsection \<open>Rebuilding the free lists\<close>

lemma slab_chain_butlast: "slab_chain st sls \<Longrightarrow> slab_chain st (butlast sls)"
  by (cases sls rule: rev_cases) (simp_all add: slab_chain_append)

lemma release_slabs_chain: "slab_chain st sls \<Longrightarrow> slab_chain st (release_slabs sls)"
proof (induction sls rule: release_slabs.induct)
  case (1 sls)
  then show ?case using slab_chain_butlast by (subst release_slabs.simps) auto
qed

lemma rebuild_loop_inv:
  assumes "slab_chain st es" "blocks_ok (block_before_size s) (block_after_size s) S lo hi B {}"
    and "lists_ok (block_after_size s) (m_block_map s) B {}" "hi \<le> st" "lo \<le> st" "st mod 2 ^ 26 = 0" "8 dvd st"
  shows "\<exists>B'. blocks_ok (block_before_size (rebuild_loop es st s)) (block_after_size (rebuild_loop es st s))
           (S \<union> slab_starts es) lo (if es = [] then hi else ref_end (last es)) B' {} \<and>
         lists_ok (block_after_size (rebuild_loop es st s)) (m_block_map (rebuild_loop es st s)) B' {} \<and>
         used (block_after_size (rebuild_loop es st s)) B' = used (block_after_size s) B \<and>
         same_frame s (rebuild_loop es st s) \<and> m_slabs (rebuild_loop es st s) = m_slabs s"
  using assms
proof (induction es arbitrary: st s S hi B)
  case Nil
  then show ?case by (auto simp: slab_starts_def)
next
  case (Cons e es)
  define n where "n = slab_size e - 16"
  have e: "24 \<le> n" "8 dvd n" "n + 16 \<le> 2 ^ 26" "ref_end e = st + n + 16" "slab_size e = n + 16"
    "slab_chain (align_size_to_section_boundary (ref_end e)) es"
    using Cons.prems(1) by (auto simp: n_def intro: dvd_diff_nat)
  define s1 where "s1 = set_after (st + 8 + n) 0 (set_before (st + 8 + n) (int n) (set_after st (int n) (set_before st 0 s)))"
  define s2 where "s2 = push_freelist_entry (st + 8) s1"
  have run: "rebuild_loop (e # es) st s = rebuild_loop es (align_size_to_section_boundary (ref_end e)) s2"
    using slab_to_entry_eq [OF e(4)] e(1) by (simp add: s1_def s2_def Let_def)
  let ?a = "block_after_size s" and ?B = "insert (st + 8) B"
  have s1: "block_after_size s1 = ?a(st := int n, st + 8 + n := 0)" "m_block_map s1 = m_block_map s"
      "block_before_size s1 = (block_before_size s)(st := 0, st + 8 + n := int n)" "same_frame s s1" "m_slabs s1 = m_slabs s"
    by (simp_all add: s1_def)
  have B1: "blocks_ok (block_before_size s1) (block_after_size s1) (insert st S) lo (st + n + 16) ?B {}"
    unfolding s1 by (rule blocks_grow [OF Cons.prems(2,4,5,7,6) e(1-3)])
  have keep: "block_after_size s1 (p - 8) = ?a (p - 8)" "p \<noteq> st + 8" if "p \<in> B" for p
    using blocks_okD(5) [OF Cons.prems(2) that] Cons.prems(4) by (auto simp: s1)
  have new: "block_after_size s1 (st + 8 - 8) = int n" by (simp add: s1)
  have L1: "lists_ok (block_after_size s1) (m_block_map s1) ?B {st + 8}"
    unfolding s1(2) by (rule lists_change [OF Cons.prems(3)]) (use keep in auto)
  have s2: "block_after_size s2 = block_after_size s1" "block_before_size s2 = block_before_size s1" "m_slabs s2 = m_slabs s"
      "same_frame s s2" "lists_ok (block_after_size s2) (m_block_map s2) ?B {}"
    using push_lists_state [OF L1 _ _ , of "st + 8"] new e(1) s1(4,5) by (auto simp: s2_def intro: same_frame_trans)
  have hi: "st + n + 16 \<le> align_size_to_section_boundary (ref_end e)" "lo \<le> align_size_to_section_boundary (ref_end e)"
    using align_section(1) [of "ref_end e"] e(4) Cons.prems(5) by simp_all
  obtain B' where B': "blocks_ok (block_before_size (rebuild_loop (e # es) st s)) (block_after_size (rebuild_loop (e # es) st s))
        (insert st S \<union> slab_starts es) lo (if es = [] then st + n + 16 else ref_end (last es)) B' {}"
      "lists_ok (block_after_size (rebuild_loop (e # es) st s)) (m_block_map (rebuild_loop (e # es) st s)) B' {}"
      "used (block_after_size (rebuild_loop (e # es) st s)) B' = used (block_after_size s2) ?B"
      "same_frame s2 (rebuild_loop (e # es) st s)" "m_slabs (rebuild_loop (e # es) st s) = m_slabs s2"
    using Cons.IH [OF e(6) B1 [folded s2(1,2)] s2(5) hi align_section(2,3)] unfolding run by blast
  have "used (block_after_size s2) ?B = used ?a B"
    unfolding s2(1) by (rule used_change) (use keep new in auto)
  moreover have "insert st S \<union> slab_starts es = S \<union> slab_starts (e # es)" using e(4,5) by (auto simp: slab_starts_def)
  moreover have "(if es = [] then st + n + 16 else ref_end (last es)) = ref_end (last (e # es))" using e(4) by simp
  ultimately show ?case using B' s2(3) same_frame_trans [OF s2(4) B'(4)] by (intro exI [of _ B']) simp
qed

lemma blocks_empty: "blocks_ok b a {} lo hi {} {}"
  by (simp add: blocks_ok_def)

lemma lists_empty: "lists_ok a [] {} X"
  by (simp add: lists_ok_def)

lemma rebuild_inv:
  assumes "slab_chain (align_size_to_section_boundary (m_baseline s)) (m_slabs s)"
  obtains B where "slab_inv (rebuild_freelists_from_slab s) B {} {}"
    "used (block_after_size (rebuild_freelists_from_slab s)) B = {}" "same_frame s (rebuild_freelists_from_slab s)"
proof -
  let ?st = "align_size_to_section_boundary (m_baseline s)" and ?s = "rebuild_freelists_from_slab s"
  have eq: "?s = rebuild_loop (m_slabs s) ?st (clear_freelists s)"
    by (simp add: rebuild_freelists_from_slab_def clear_freelists_def)
  have c: "slab_chain ?st (m_slabs s)" by (rule assms)
  from rebuild_loop_inv [OF c blocks_empty, of "clear_freelists s" "m_baseline s" "m_baseline s"]
  obtain B where B: "blocks_ok (block_before_size ?s) (block_after_size ?s) ({} \<union> slab_starts (m_slabs s)) (m_baseline s)
        (if m_slabs s = [] then m_baseline s else ref_end (last (m_slabs s))) B {}"
      "lists_ok (block_after_size ?s) (m_block_map ?s) B {}" "used (block_after_size ?s) B = used (block_after_size (clear_freelists s)) {}"
      "same_frame (clear_freelists s) ?s" "m_slabs ?s = m_slabs (clear_freelists s)"
    unfolding eq using align_section [of "m_baseline s"] by (auto simp: clear_freelists_def lists_empty)
  have f: "same_frame s ?s" using B(4) by (simp add: clear_freelists_def same_frame_def)
  have m: "m_slabs ?s = m_slabs s" "m_baseline ?s = m_baseline s" using B(5) f by (simp_all add: clear_freelists_def same_frame_def)
  have "slab_inv ?s B {} {}" using B(1,2) assms unfolding slab_inv_def get_total_size_def m by simp
  then show thesis using that B(3) f by (simp add: used_def)
qed

lemma reset_inv:
  assumes inv: "slab_inv s B {} {}"
  obtains B' where "slab_inv (reset_free_space_tracking s) B' {} {}" "m_baseline (reset_free_space_tracking s) = m_baseline s"
    "m_is_read_only (reset_free_space_tracking s) = m_is_read_only s"
    "m_free_space_state (reset_free_space_tracking s) = free_space_Clean"
    "m_free_read_only (reset_free_space_tracking s) = (if m_free_space_state s = free_space_Clean then m_free_read_only s else [])"
proof (cases "m_free_space_state s = free_space_Clean")
  case True
  then show ?thesis using that [of B] inv by (simp add: reset_free_space_tracking_def)
next
  case False
  let ?s = "s\<lparr>m_free_read_only := [], m_slabs := release_slabs (m_slabs s)\<rparr>"
  have "slab_chain (align_size_to_section_boundary (m_baseline ?s)) (m_slabs ?s)"
    using inv release_slabs_chain by (simp add: slab_inv_def)
  then obtain B' where B': "slab_inv (rebuild_freelists_from_slab ?s) B' {} {}" "same_frame ?s (rebuild_freelists_from_slab ?s)"
    by (rule rebuild_inv)
  have eq: "reset_free_space_tracking s = (rebuild_freelists_from_slab ?s)\<lparr>m_free_space_state := free_space_Clean, m_commit_size := 0\<rparr>"
    using False by (simp add: reset_free_space_tracking_def Let_def)
  have "slab_inv (reset_free_space_tracking s) B' {} {}" unfolding eq by (rule slab_inv_frame [OF B'(1)]) simp_all
  then show ?thesis using that B'(2) False by (simp add: eq same_frame_def)
qed

lemma align_shift:
  assumes "d mod 2 ^ 26 = 0"
  shows "align_size_to_section_boundary (x + d) = align_size_to_section_boundary x + d"
proof -
  obtain q where d: "d = q * 2 ^ 26" using assms by (metis mod_0_imp_dvd dvdE mult.commute)
  show ?thesis
    by (simp add: d align_size_to_section_boundary_def matches_section_boundary_def get_lower_section_boundary_def
        get_upper_section_boundary_def get_section_base_def get_section_index_def algebra_simps)
qed

lemma slab_chain_shift:
  "slab_chain st sls \<Longrightarrow> d mod 2 ^ 26 = 0 \<Longrightarrow> slab_chain (st + d) (map (\<lambda>e. e\<lparr>ref_end := ref_end e + d\<rparr>) sls)"
proof (induction st sls rule: slab_chain.induct)
  case (2 st e es)
  then show ?case using align_shift [of d "ref_end e"] by (auto simp: add.assoc add.commute [of d])
qed simp

lemma align_mono:
  assumes "x \<le> y"
  shows "align_size_to_section_boundary x \<le> align_size_to_section_boundary y"
proof (rule ccontr)
  let ?x = "align_size_to_section_boundary x" and ?y = "align_size_to_section_boundary y"
  assume "\<not> ?x \<le> ?y"
  then have "?y < ?x" by simp
  moreover obtain p q where pq: "?x = p * 2 ^ 26" "?y = q * 2 ^ 26" using align_section(2) by (metis mod_0_imp_dvd dvdE mult.commute)
  ultimately have "q + 1 \<le> p" by simp
  then have "(q + 1) * 2 ^ 26 \<le> p * 2 ^ 26" by (rule mult_le_mono1)
  then have "?y + 2 ^ 26 \<le> ?x" unfolding pq by simp
  then show False using align_section(1) [of y] align_section(4) [of x] assms by simp
qed

lemma rebase_inv:
  assumes inv: "slab_inv s B {} {}" and size: "m_baseline s \<le> file_size"
  obtains B' where "slab_inv (rebase_slabs file_size s) B' {} {}" "m_baseline (rebase_slabs file_size s) = file_size"
    "m_is_read_only (rebase_slabs file_size s) = m_is_read_only s"
    "m_free_space_state (rebase_slabs file_size s) = m_free_space_state s"
    "m_free_read_only (rebase_slabs file_size s) = m_free_read_only s"
proof (cases "file_size = m_baseline s")
  case True
  then show ?thesis using that [of B] inv by (simp add: rebase_slabs_def)
next
  case False
  let ?old = "align_size_to_section_boundary (m_baseline s)" and ?new = "align_size_to_section_boundary file_size"
  let ?d = "?new - ?old"
  let ?s = "s\<lparr>m_baseline := file_size, m_slabs := map (\<lambda>e. e\<lparr>ref_end := ref_end e + ?d\<rparr>) (m_slabs s)\<rparr>"
  have d: "?d mod 2 ^ 26 = 0" using align_section(2) by (simp add: mod_eq_0_iff_dvd dvd_diff_nat)
  have "?old \<le> ?new" by (rule align_mono [OF size])
  then have "slab_chain ?new (m_slabs ?s)"
    using inv slab_chain_shift [OF _ d, of ?old "m_slabs s"] by (simp add: slab_inv_def)
  then obtain B' where B': "slab_inv (rebuild_freelists_from_slab ?s) B' {} {}" "same_frame ?s (rebuild_freelists_from_slab ?s)"
    using rebuild_inv [of ?s] by auto
  have "map (\<lambda>e. e\<lparr>ref_end := ref_end e + ?d\<rparr>) (m_slabs s) = m_slabs s" if "\<not> 0 < ?d" using that by (simp add: map_idI)
  then have "rebase_slabs file_size s = rebuild_freelists_from_slab ?s"
    using False size by (cases "0 < ?d") (simp_all add: rebase_slabs_def Let_def)
  then show ?thesis using that [of B'] B' by (simp add: same_frame_def)
qed

subsection \<open>Reachable states\<close>

text \<open>The allocator right after a database file of the given size has been attached.\<close>

definition slab_attached :: "nat \<Rightarrow> slab_alloc" where
  "slab_attached file_size =
     \<lparr>m_is_read_only = False, m_baseline = file_size, block_before_size = (\<lambda>_. 0), block_after_size = (\<lambda>_. 0),
      m_block_map = [], m_slabs = [], m_free_space_state = free_space_Clean, m_free_read_only = [], m_commit_size = 0\<rparr>"

inductive slab_run :: "slab_alloc \<Rightarrow> (nat \<times> nat) set \<Rightarrow> bool" where
  attach: "file_nodes F file_size \<Longrightarrow> slab_run (slab_attached file_size) F"
| allocate: "slab_run s L \<Longrightarrow> 0 < n \<Longrightarrow> 8 dvd n \<Longrightarrow> n \<le> 2 ^ 26 - 16 \<Longrightarrow> alloc n s = Inr (r, s') \<Longrightarrow>
    slab_run s' (insert (r, n) L)"
| release: "slab_run s L \<Longrightarrow> (r, n) \<in> L \<Longrightarrow> do_free r n s = Inr s' \<Longrightarrow> slab_run s' (L - {(r, n)})"
| commit: "slab_run s L \<Longrightarrow> file_nodes F file_size \<Longrightarrow> m_baseline s \<le> file_size \<Longrightarrow>
    slab_run (rebase_slabs file_size (reset_free_space_tracking s)) F"

definition live_ok :: "slab_alloc \<Rightarrow> (nat \<times> nat) set \<Rightarrow> bool" where
  "live_ok s L \<longleftrightarrow> (\<exists>F. slab_ok F s \<and> (\<forall>r n. (r, n) \<in> L \<longrightarrow> slab_block F s r n) \<and>
     (\<forall>r n n'. (r, n) \<in> L \<longrightarrow> (r, n') \<in> L \<longrightarrow> n = n') \<and>
     (m_free_space_state s = free_space_Clean \<longrightarrow> m_free_read_only s = []))"

lemma file_nodes_node: "file_nodes F fs \<Longrightarrow> (r, k) \<in> F \<Longrightarrow> 0 < r \<and> 8 dvd r \<and> 0 < k \<and> r + k \<le> fs"
  by (auto simp: file_nodes_def)

lemma file_nodes_same: "file_nodes F fs \<Longrightarrow> (r, n) \<in> F \<Longrightarrow> (r, n') \<in> F \<Longrightarrow> n = n'"
  using file_nodes_node [of F fs r n] file_nodes_node [of F fs r n'] unfolding file_nodes_def by fastforce

lemma live_file:
  assumes "slab_inv s B {} {}" "file_nodes F (m_baseline s)" "m_free_read_only s = []" "m_free_space_state s \<noteq> free_space_Invalid"
    "\<not> m_is_read_only s"
  shows "live_ok s F"
proof -
  have "slab_ok F s" using assms by (auto simp: slab_ok_def chunks_ok_def)
  moreover have "slab_block F s r n" if "(r, n) \<in> F" for r n
    using that assms(2,3) by (auto simp: slab_block_def file_nodes_def)
  ultimately show ?thesis using file_nodes_same [OF assms(2)] assms(3) unfolding live_ok_def by (intro exI [of _ F]) auto
qed

lemma attached_inv: "slab_inv (slab_attached file_size) {} {} {}"
  by (simp add: slab_inv_def slab_attached_def slab_starts_def blocks_empty lists_empty)

lemma alloc_frame:
  assumes ok: "slab_ok F s" and n: "0 < n" "8 dvd n" "n \<le> 2 ^ 26 - 16" and run: "alloc n s = Inr (r, s')"
  shows "m_free_space_state s' = free_space_Dirty \<and> m_baseline s' = m_baseline s"
proof -
  obtain B where B: "slab_inv s B {} {}" using ok by (auto simp: slab_ok_def)
  have st: "m_free_space_state s \<noteq> free_space_Invalid" and "do_alloc n s = Inr (r, s')"
    using ok run by (auto simp: slab_ok_def alloc_def)
  then show ?thesis by (rule do_alloc_inv [OF B n]) (simp add: same_frame_def)
qed

lemma free_dirty:
  assumes "do_free r n s = Inr s'" "m_free_space_state s \<noteq> free_space_Invalid"
  shows "m_free_space_state s' = free_space_Dirty"
proof -
  have lists: "m_free_space_state (push_freelist_entry e t) = m_free_space_state t"
      "m_free_space_state (remove_freelist_entry e t) = m_free_space_state t" for e t
    by (simp_all add: push_freelist_entry_def remove_freelist_entry_def Let_def split: option.splits)
  have sizes: "m_free_space_state (mark_freed e k t) = m_free_space_state t"
      "m_free_space_state (snd (merge_blocks e e' t)) = m_free_space_state t" for e e' k t
    by (simp_all add: mark_freed_def merge_blocks_def Let_def set_before_def set_after_def)
  have "m_free_space_state (snd (case p of Some q \<Rightarrow> merge_blocks q e (remove_freelist_entry q t) | None \<Rightarrow> (e, t))) = m_free_space_state t"
      "m_free_space_state (snd (case p of Some q \<Rightarrow> merge_blocks e q (remove_freelist_entry q t) | None \<Rightarrow> (e, t))) = m_free_space_state t"
    for p e t by (cases p; simp add: sizes lists)+
  then have "m_free_space_state (free_block e t) = m_free_space_state t" for e t
    by (simp add: free_block_def Let_def lists case_prod_beta)
  then show ?thesis using assms by (auto simp: do_free_def Let_def sizes bind_result_eq_Inr split: if_splits)
qed

lemma live_alloc:
  assumes "live_ok s L" "0 < n" "8 dvd n" "n \<le> 2 ^ 26 - 16" "alloc n s = Inr (r, s')"
  shows "live_ok s' (insert (r, n) L)"
proof -
  obtain F where F: "slab_ok F s" "\<And>r n. (r, n) \<in> L \<Longrightarrow> slab_block F s r n" "\<And>r n n'. (r, n) \<in> L \<Longrightarrow> (r, n') \<in> L \<Longrightarrow> n = n'"
    using assms(1) unfolding live_ok_def by blast
  note A = slab_alloc_ok [OF F(1) assms(2-5)]
  have old: "slab_block F s' q k" "q \<noteq> r" if "(q, k) \<in> L" for q k
  proof -
    have b: "slab_block F s q k" by (rule F(2) [OF that])
    show "slab_block F s' q k" using A(4) [OF b] by simp
    show "q \<noteq> r" using A(4) [OF b] assms(2) b by (auto simp: slab_block_def)
  qed
  have "m_free_space_state s' \<noteq> free_space_Clean"
    using A(1) assms(5) F(1) alloc_frame [OF F(1) assms(2-5)] by simp
  then show ?thesis
    unfolding live_ok_def by (intro exI [of _ F] conjI allI impI) (use A(1,2) F(3) old(1) in \<open>auto dest: old(2)\<close>)
qed

lemma live_free:
  assumes "live_ok s L" "(r, n) \<in> L" "do_free r n s = Inr s'"
  shows "live_ok s' (L - {(r, n)})"
proof -
  obtain F where F: "slab_ok F s" "\<And>r n. (r, n) \<in> L \<Longrightarrow> slab_block F s r n" "\<And>r n n'. (r, n) \<in> L \<Longrightarrow> (r, n') \<in> L \<Longrightarrow> n = n'"
    using assms(1) unfolding live_ok_def by blast
  have b: "slab_block F s r n" by (rule F(2) [OF assms(2)])
  obtain t where t: "do_free r n s = Inr t" "slab_ok F t"
    "\<And>r' k'. slab_block F s r' k' \<Longrightarrow> r' \<noteq> r \<Longrightarrow> slab_block F t r' k' \<and> is_read_only t r' = is_read_only s r'"
    by (rule slab_free_ok [OF F(1) b]) blast
  have "slab_block F s' q k" if "(q, k) \<in> L - {(r, n)}" for q k
  proof -
    have "q \<noteq> r" using that F(3) [of r k n] assms(2) by auto
    then show ?thesis using t(3) [of q k] F(2) [of q k] that t(1) assms(3) by simp
  qed
  moreover have "m_free_space_state s' = free_space_Dirty" using free_dirty [OF assms(3)] F(1) by (simp add: slab_ok_def)
  ultimately show ?thesis
    unfolding live_ok_def by (intro exI [of _ F] conjI allI impI) (use t(1,2) F(3) assms(3) in auto)
qed

lemma live_commit:
  assumes "live_ok s L" "file_nodes F file_size" "m_baseline s \<le> file_size"
  shows "live_ok (rebase_slabs file_size (reset_free_space_tracking s)) F"
proof -
  let ?t = "reset_free_space_tracking s"
  obtain B where B: "slab_inv s B {} {}" "\<not> m_is_read_only s" "m_free_space_state s = free_space_Clean \<longrightarrow> m_free_read_only s = []"
    using assms(1) unfolding live_ok_def slab_ok_def by blast
  from reset_inv [OF B(1)] obtain B1 where R: "slab_inv ?t B1 {} {}" "m_baseline ?t = m_baseline s" "m_is_read_only ?t = m_is_read_only s"
    "m_free_space_state ?t = free_space_Clean" "m_free_read_only ?t = (if m_free_space_state s = free_space_Clean then m_free_read_only s else [])"
    by metis
  have "m_baseline ?t \<le> file_size" using R(2) assms(3) by simp
  from rebase_inv [OF R(1) this] obtain B2 where S: "slab_inv (rebase_slabs file_size ?t) B2 {} {}"
    "m_baseline (rebase_slabs file_size ?t) = file_size" "m_is_read_only (rebase_slabs file_size ?t) = m_is_read_only ?t"
    "m_free_space_state (rebase_slabs file_size ?t) = m_free_space_state ?t"
    "m_free_read_only (rebase_slabs file_size ?t) = m_free_read_only ?t" by metis
  show ?thesis using assms(2) B(2,3) R S by (intro live_file [OF S(1)]) auto
qed

lemma slab_run_live: "slab_run s L \<Longrightarrow> live_ok s L"
proof (induction rule: slab_run.induct)
  case (attach F file_size)
  then show ?case by (intro live_file [OF attached_inv]) (simp_all add: slab_attached_def)
next
  case (allocate s L n r s')
  then show ?case by (intro live_alloc) auto
next
  case (release s L r n s')
  then show ?case by (intro live_free) auto
next
  case (commit s L F file_size)
  then show ?case by (intro live_commit) auto
qed

subsection \<open>A sample\<close>

text \<open>
  The state after the first allocation of 128 bytes: one slab of 128 kB in the section after the
  file, with the block at its start and the rest free.
\<close>

definition sample_slab :: slab_alloc where
  "sample_slab = \<lparr>m_is_read_only = False, m_baseline = 4096,
     block_before_size = (\<lambda>_. 0)(67239928 := 130920, 67109000 := - 128),
     block_after_size = (\<lambda>_. 0)(67109000 := 130920, 67108864 := - 128),
     m_block_map = [(130920, [67109008])], m_slabs = [\<lparr>ref_end = 67239936, slab_size = 131072\<rparr>],
     m_free_space_state = free_space_Dirty, m_free_read_only = [], m_commit_size = 128\<rparr>"

lemma sample_grow:
  "grow_slab 128 ((slab_attached 4096)\<lparr>m_free_space_state := free_space_Dirty, m_commit_size := 128\<rparr>) =
     Inr (67108872, \<lparr>m_is_read_only = False, m_baseline = 4096,
       block_before_size = (\<lambda>_. 0)(67108864 := 0, 67239928 := 131056),
       block_after_size = (\<lambda>_. 0)(67108864 := 131056, 67239928 := 0), m_block_map = [],
       m_slabs = [\<lparr>ref_end = 67239936, slab_size = 131072\<rparr>], m_free_space_state = free_space_Dirty,
       m_free_read_only = [], m_commit_size = 128\<rparr>)"
  by (simp add: grow_slab_def slab_attached_def Let_def grow_size.simps minimal_alloc_def maximal_alloc_def
      sizeof_BetweenBlocks_def get_allocated_size_def align_size_to_section_boundary_def matches_section_boundary_def
      get_lower_section_boundary_def get_upper_section_boundary_def get_section_base_def get_section_index_def
      slab_to_entry_def set_before_def set_after_def bb_after_def bb_before_def)

lemma sample_alloc: "alloc 128 (slab_attached 4096) = Inr (67108872, sample_slab)"
proof -
  let ?s = "(slab_attached 4096)\<lparr>m_free_space_state := free_space_Dirty, m_commit_size := 128\<rparr>"
  have "find_freelist ?s 128 = (0, [])" "find_larger (0, []) 128 = (0, [])"
    by (simp_all add: find_freelist_def find_larger_def slab_attached_def)
  then have "allocate_block 128 ?s = bind_result (grow_slab 128 ?s) (\<lambda>(block, s).
      let (remaining, s) = break_block block 128 s
      in case remaining of Some r \<Rightarrow> Inr (block, push_freelist_entry r s) | None \<Rightarrow> Inr (block, s))"
    by (simp add: allocate_block_def Let_def)
  then show ?thesis unfolding sample_grow
    by (simp add: alloc_def do_alloc_eq request_size_def slab_attached_def break_block_def size_from_block_def bb_before_def
        sizeof_BetweenBlocks_def sizeof_FreeBlock_def bb_after_def set_before_def set_after_def block_after_def Let_def
        push_freelist_entry_def mark_allocated_def sample_slab_def fun_upd_twist) (auto simp: fun_eq_iff)
qed

lemma sample_run: "slab_run sample_slab {(67108872, 128), (24, 64)}"
proof -
  have "slab_run (slab_attached 4096) {(24, 64)}" by (rule slab_run.attach) (simp add: file_nodes_def)
  from slab_run.allocate [OF this _ _ _ sample_alloc] show ?thesis by simp
qed

lemma alloc_returns:
  assumes ok: "slab_ok F s" and n: "0 < n" "8 dvd n" "n \<le> 2 ^ 26 - 16" and room: "get_total_size s + 2 ^ 27 \<le> 2 ^ 64"
  shows "\<exists>r s'. alloc n s = Inr (r, s')"
proof -
  let ?s = "s\<lparr>m_free_space_state := free_space_Dirty, m_commit_size := m_commit_size s + of_nat n\<rparr>"
  have st: "m_free_space_state s \<noteq> free_space_Invalid" "\<not> m_is_read_only s" using ok by (simp_all add: slab_ok_def)
  have "n < 2 ^ 26" using n(3) by simp
  note eq = do_alloc_eq [OF n(2) this st(1)]
  have "\<exists>p. grow_slab k ?s = Inr p" for k
  proof -
    have ref: "(if m_slabs ?s = [] then m_baseline ?s else ref_end (last (m_slabs ?s))) = get_total_size s"
      by (simp add: get_total_size_def)
    have "align_size_to_section_boundary (get_total_size s) + x < 2 ^ 64" if "x \<le> maximal_alloc" for x
      using align_section(4) [of "get_total_size s"] room that by (simp add: maximal_alloc_def)
    then have "align_size_to_section_boundary (get_total_size s) + (if x > maximal_alloc then maximal_alloc else x) < 2 ^ 64" for x
      by simp
    then show ?thesis unfolding grow_slab_def Let_def ref by (auto simp: not_le)
  qed
  then obtain p where "grow_slab (request_size n) ?s = Inr p" by blast
  then have "\<exists>p. allocate_block (request_size n) ?s = Inr p"
    by (cases p) (auto simp: allocate_block_def Let_def split: prod.splits option.splits)
  then show ?thesis using st(2) eq by (auto simp: alloc_def)
qed

subsection \<open>Properties\<close>

text \<open>
  C10: The slab allocator keeps its invariant. In every state reached by attaching a file,
  allocating, freeing live blocks and committing, the slabs are tiled by aligned, disjoint blocks
  whose neighbours agree on their sizes, no two free blocks are neighbours, and the free lists
  hold each free block exactly once, under its size.
\<close>

theorem slab_run_invariant:
  assumes "slab_run s L"
  shows "\<exists>B. slab_inv s B {} {}"
  using slab_run_live [OF assms] by (auto simp: live_ok_def slab_ok_def)

theorem slab_run_invariant_witness: "\<exists>B. slab_inv sample_slab B {} {}"
  by (rule slab_run_invariant [OF sample_run])

text \<open>
  C9: Live blocks never overlap. Two different blocks that have been handed out or belong to the
  file, and have not been freed, share no byte, whatever the history of allocations, frees and
  commits.
\<close>

theorem live_blocks_disjoint:
  assumes run: "slab_run s L" and "(r, n) \<in> L" "(r', n') \<in> L" "(r, n) \<noteq> (r', n')"
  shows "r + n \<le> r' \<or> r' + n' \<le> r"
proof -
  obtain F where F: "slab_ok F s" "\<And>r n. (r, n) \<in> L \<Longrightarrow> slab_block F s r n" "\<And>r n n'. (r, n) \<in> L \<Longrightarrow> (r, n') \<in> L \<Longrightarrow> n = n'"
    using slab_run_live [OF run] unfolding live_ok_def by blast
  have "r \<noteq> r'" using assms F(3) by blast
  then show ?thesis using slab_block_disjoint [OF F(1) F(2) F(2)] assms(2,3) by blast
qed

theorem live_blocks_disjoint_witness: "24 + 64 \<le> (67108872 :: nat) \<or> 67108872 + 128 \<le> (24 :: nat)"
  by (rule live_blocks_disjoint [OF sample_run]) simp_all

text \<open>
  C23: Freeing a live block always succeeds: none of the assertions of the release build on the
  freed part of the file fails, and no error is raised.
\<close>

theorem free_live_returns:
  assumes run: "slab_run s L" and "(r, n) \<in> L"
  shows "\<exists>s'. do_free r n s = Inr s'"
proof -
  obtain F where F: "slab_ok F s" "\<And>r n. (r, n) \<in> L \<Longrightarrow> slab_block F s r n"
    using slab_run_live [OF run] unfolding live_ok_def by blast
  show ?thesis by (rule slab_free_ok [OF F(1) F(2) [OF assms(2)]]) blast
qed

theorem free_live_returns_witness: "\<exists>s'. do_free 24 64 sample_slab = Inr s'"
  by (rule free_live_returns [OF sample_run]) simp

text \<open>
  C22: An allocation succeeds as long as there is ref space: for a request of a positive multiple
  of 8 bytes up to 64 MB less 16, with two sections left below the 64 bit limit, a block is
  returned. It is aligned, lies above the file and within one section, and overlaps no live block.
\<close>

theorem alloc_live:
  assumes run: "slab_run s L" and n: "0 < n" "8 dvd n" "n \<le> 2 ^ 26 - 16" and room: "get_total_size s + 2 ^ 27 \<le> 2 ^ 64"
  shows "\<exists>r s'. alloc n s = Inr (r, s') \<and> 8 dvd r \<and> m_baseline s < r \<and> r div 2 ^ 26 = (r + n) div 2 ^ 26 \<and>
           (\<forall>(q, k)\<in>L. q + k \<le> r \<or> r + n \<le> q)"
proof -
  obtain F where F: "slab_ok F s" "\<And>r n. (r, n) \<in> L \<Longrightarrow> slab_block F s r n"
    using slab_run_live [OF run] unfolding live_ok_def by blast
  obtain r s' where a: "alloc n s = Inr (r, s')" using alloc_returns [OF F(1) n room] by blast
  note A = slab_alloc_ok [OF F(1) n a]
  have base: "m_baseline s' = m_baseline s" using alloc_frame [OF F(1) n a] by simp
  from A(1,2) show ?thesis
  proof (cases rule: slab_block_cases)
    case (1 B m)
    have B: "blocks_ok (block_before_size s') (block_after_size s') (slab_starts (m_slabs s')) (m_baseline s') (get_total_size s') B {}"
      using 1(1) by (simp add: slab_inv_def)
    note u = used_block [OF 1(1,2)]
    note D = blocks_okD [OF B u(1), unfolded u(2)]
    have "r div 2 ^ 26 = (r + n) div 2 ^ 26"
    proof -
      have "r div 2 ^ 26 = (r + m) div 2 ^ 26" by (rule div_between [OF _ _ D(6)]) simp_all
      moreover have "(r + n) div 2 ^ 26 = (r + m) div 2 ^ 26" by (rule div_between [OF _ _ D(6)]) (use 1(3) in simp_all)
      ultimately show ?thesis by simp
    qed
    then show ?thesis using a D(2) u(3) base A(4) F(2) by (intro exI [of _ r] exI [of _ s']) auto
  next
    case 2
    then show ?thesis using A(3) by simp
  qed
qed

theorem alloc_live_witness: "\<exists>r s'. alloc 64 sample_slab = Inr (r, s') \<and> 8 dvd r \<and> 4096 < r"
  using alloc_live [OF sample_run, of 64] by (auto simp: sample_slab_def get_total_size_def)

text \<open>
  C37: The largest request that passes the assertion of \<^verbatim>\<open>do_alloc\<close> is answered with a block
  that is too small. 64 MB less 8 bytes are below the limit of a section, but a slab of at most
  64 MB leaves 16 bytes for its two \<^verbatim>\<open>BetweenBlocks\<close>; the debug build asserts that the block
  is large enough, the release build hands out a block of 64 MB less 16 bytes.
\<close>

theorem largest_request_too_small:
  "\<exists>r s'. alloc (2 ^ 26 - 8) (slab_attached 4096) = Inr (r, s') \<and> block_after_size s' (r - 8) = - (2 ^ 26 - 16)"
proof -
  let ?n = "67108856 :: nat"
  let ?s = "(slab_attached 4096)\<lparr>m_free_space_state := free_space_Dirty, m_commit_size := of_nat ?n\<rparr>"
  have "67108872 \<le> grow_size minimal_alloc 67108872" by (rule grow_size_bounds)
  then have z: "maximal_alloc < grow_size minimal_alloc (?n + 2 * sizeof_BetweenBlocks)"
    by (simp add: maximal_alloc_def sizeof_BetweenBlocks_def)
  let ?sl = "\<lparr>ref_end = 134217728, slab_size = 67108864\<rparr>"
  let ?t = "set_after 134217720 0 (set_before 134217720 67108848 (set_after 67108864 67108848 (set_before 67108864 0
        (?s\<lparr>m_slabs := [?sl]\<rparr>))))"
  have "slab_to_entry ?sl 67108864 (?s\<lparr>m_slabs := [?sl]\<rparr>) = (67108872, ?t)"
    using slab_to_entry_eq [of ?sl 67108864 67108848] by simp
  moreover have "grow_slab ?n ?s = Inr (slab_to_entry ?sl 67108864 (?s\<lparr>m_slabs := [?sl]\<rparr>))"
    using z by (simp add: grow_slab_def slab_attached_def Let_def get_allocated_size_def align_size_to_section_boundary_def
        matches_section_boundary_def get_lower_section_boundary_def get_upper_section_boundary_def get_section_base_def
        get_section_index_def) (simp add: maximal_alloc_def)
  ultimately have g: "grow_slab ?n ?s = Inr (67108872, ?t)" by simp
  have "find_freelist ?s ?n = (0, [])" "find_larger (0, []) ?n = (0, [])"
    by (simp_all add: find_freelist_def find_larger_def slab_attached_def)
  then have "allocate_block ?n ?s = bind_result (grow_slab ?n ?s) (\<lambda>(block, s).
      let (remaining, s) = break_block block ?n s
      in case remaining of Some r \<Rightarrow> Inr (block, push_freelist_entry r s) | None \<Rightarrow> Inr (block, s))"
    by (simp add: allocate_block_def Let_def)
  then have "allocate_block ?n ?s = Inr (67108872, ?t)"
    unfolding g by (simp add: break_block_def size_from_block_def bb_before_eq sizeof_BetweenBlocks_def sizeof_FreeBlock_def)
  moreover have "alloc ?n (slab_attached 4096) =
      bind_result (allocate_block ?n ?s) (\<lambda>(entry, s). Inr (entry, mark_allocated entry s))"
    by (simp add: alloc_def do_alloc_eq request_size_def slab_attached_def)
  ultimately show ?thesis by (simp add: mark_allocated_def Let_def bb_before_eq bb_after_eq bsize_def)
qed

end
