(* ===== verification/Slab_Arrays.thy ===== *)
theory Slab_Arrays
  imports Slab_Run
begin

text \<open>
  Arrays on the slab allocator: the array code and the allocator code composed. Through the
  interpretation of the allocator interface on the slab allocator, every array operation is the
  list operation of the same name on the elements the node holds, keeps all other nodes, and fails
  only when the file would grow beyond the 64 bit ref space.
\<close>

subsection \<open>A sample\<close>

text \<open>A file of 4096 bytes with an array node of three zeros at ref 24: a header, no payload.\<close>

definition sample_mem :: mem where
  "sample_mem = init_header (\<lambda>_. 0) 24 False False False wtype_Bits 0 3 8"

definition sample_heap :: "slab_alloc heap" where
  "sample_heap = \<lparr>h_mem = sample_mem, h_alloc = slab_attached 4096\<rparr>"

definition sample_array :: arr where
  "sample_array = init_from_ref sample_mem 24"

lemma sample_ok: "slab_ok {(24, 8)} (h_alloc sample_heap)"
proof -
  have "slab_inv (slab_attached 4096) {} {} {}" by (rule attached_inv)
  then show ?thesis
    unfolding slab_ok_def sample_heap_def by (auto simp: slab_attached_def chunks_ok_def file_nodes_def)
qed

lemma sample_fields: "m_ref sample_array = 24" "m_size sample_array = 3" "m_width sample_array = 0"
    "arr_ok sample_mem sample_array"
proof -
  have v: "valid_width 0" by (simp add: valid_width_def)
  note f = init_header_fields [OF v, of 3 8 "\<lambda>_. 0" 24 False False False wtype_Bits, folded sample_mem_def]
  show "m_ref sample_array = 24" "m_size sample_array = 3" "m_width sample_array = 0" "arr_ok sample_mem sample_array"
    using f v by (simp_all add: sample_array_def init_from_ref_def init_from_mem_def update_width_cache_from_header_def
        Let_def arr_ok_def max_array_size_def)
qed

lemma sample_at: "array_at slab_ops (slab_block {(24, 8)}) sample_heap sample_array"
proof -
  have "get_byte_size_from_header sample_mem 24 = 8"
    using sample_fields by (simp add: get_byte_size_from_header_def arr_ok_def calc_byte_size_bits payload_bytes_def)
  then show ?thesis using sample_fields
    by (simp add: array_at_def node_len_def sample_heap_def is_read_only_def slab_block_def slab_attached_def
        calc_byte_len_payload payload_bytes_def)
qed

subsection \<open>Properties\<close>

text \<open>
  C18: \<^verbatim>\<open>Array::create\<close> on the slab allocator makes a new writable array of the given number of
  equal values, and leaves every other node untouched; it fails only when the allocator cannot grow.
\<close>

theorem array_create_refines:
  assumes "slab_ok F (h_alloc h)" "n \<le> 4000000" "int64 value"
  shows "case array_create slab_ops type context_flag wtype_Bits n value h of
      Inr (ref, h') \<Rightarrow> slab_ok F (h_alloc h') \<and> writable_array slab_ops (slab_block F) h' (init_from_ref (h_mem h') ref) \<and>
        contents (h_mem h') (init_from_ref (h_mem h') ref) = replicate n value \<and>
        (\<forall>r k. slab_block F (h_alloc h) r k \<longrightarrow> slab_block F (h_alloc h') r k \<and> r \<noteq> ref \<and>
           (\<forall>x. r \<le> x \<and> x < r + k \<longrightarrow> h_mem h' x = h_mem h x))
    | Inl e \<Rightarrow> e = MaximumFileSizeExceeded"
proof (cases "array_create slab_ops type context_flag wtype_Bits n value h")
  case (Inl e)
  then show ?thesis using slab_arrays.array_create_error [OF assms Inl] by simp
next
  case (Inr p)
  obtain ref h' where p: "p = (ref, h')" by (cases p)
  show ?thesis using slab_arrays.array_create_ok [OF assms Inr [unfolded p] refl] by (simp add: Inr p)
qed

theorem array_create_refines_witness:
  "case array_create slab_ops type_Normal False wtype_Bits 5 7 sample_heap of
      Inr (ref, h') \<Rightarrow> contents (h_mem h') (init_from_ref (h_mem h') ref) = replicate 5 7
    | Inl e \<Rightarrow> e = MaximumFileSizeExceeded"
  using array_create_refines [OF sample_ok, of 5 7 type_Normal False] by (auto simp: int64_def split: sum.splits)

text \<open>
  C15: \<^verbatim>\<open>Array::insert\<close> on the slab allocator inserts the value into the list of elements, widening
  the elements and moving the node as needed; the node is writable afterwards, and every other
  node is untouched. It fails only when the allocator cannot grow.
\<close>

theorem array_insert_refines:
  assumes "slab_ok F (h_alloc h)" "array_at slab_ops (slab_block F) h a" "m_size a \<le> 4000000" "int64 value" "ndx \<le> m_size a"
  shows "case array_insert slab_ops ndx value a h of
      Inr (a', h') \<Rightarrow> slab_ok F (h_alloc h') \<and> writable_array slab_ops (slab_block F) h' a' \<and>
        contents (h_mem h') a' = insert_at ndx value (contents (h_mem h) a) \<and>
        kept slab_ops (slab_block F) h h' (m_ref a) (m_ref a')
    | Inl e \<Rightarrow> e = MaximumFileSizeExceeded"
proof (cases "array_insert slab_ops ndx value a h")
  case (Inl e)
  then show ?thesis using slab_arrays.array_insert_error [OF assms(1-4) Inl] by simp
next
  case (Inr p)
  obtain a' h' where p: "p = (a', h')" by (cases p)
  show ?thesis using slab_arrays.array_insert_ok [OF assms Inr [unfolded p]] by (simp add: Inr p)
qed

theorem array_insert_refines_witness:
  "case array_insert slab_ops 1 300 sample_array sample_heap of
      Inr (a', h') \<Rightarrow> contents (h_mem h') a' = insert_at 1 300 (contents sample_mem sample_array)
    | Inl e \<Rightarrow> e = MaximumFileSizeExceeded"
  using array_insert_refines [OF sample_ok sample_at, of 300 1]
  by (auto simp: int64_def sample_fields sample_heap_def split: sum.splits)

text \<open>
  C16: \<^verbatim>\<open>Array::set\<close> on the slab allocator replaces one element of the list and keeps all other
  nodes; it fails only when the allocator cannot grow.
\<close>

theorem array_set_refines:
  assumes "slab_ok F (h_alloc h)" "array_at slab_ops (slab_block F) h a" "m_size a \<le> 4000000" "int64 value" "ndx < m_size a"
  shows "case array_set slab_ops ndx value a h of
      Inr (a', h') \<Rightarrow> slab_ok F (h_alloc h') \<and> array_at slab_ops (slab_block F) h' a' \<and>
        contents (h_mem h') a' = (contents (h_mem h) a)[ndx := value] \<and>
        kept slab_ops (slab_block F) h h' (m_ref a) (m_ref a')
    | Inl e \<Rightarrow> e = MaximumFileSizeExceeded"
proof (cases "array_set slab_ops ndx value a h")
  case (Inl e)
  then show ?thesis using slab_arrays.array_set_error [OF assms(1-4) Inl] by simp
next
  case (Inr p)
  obtain a' h' where p: "p = (a', h')" by (cases p)
  show ?thesis using slab_arrays.array_set_ok [OF assms Inr [unfolded p]] by (simp add: Inr p)
qed

theorem array_set_refines_witness:
  "case array_set slab_ops 2 (- 9) sample_array sample_heap of
      Inr (a', h') \<Rightarrow> contents (h_mem h') a' = (contents sample_mem sample_array)[2 := - 9]
    | Inl e \<Rightarrow> e = MaximumFileSizeExceeded"
  using array_set_refines [OF sample_ok sample_at, of "- 9" 2]
  by (auto simp: int64_def sample_fields sample_heap_def split: sum.splits)

text \<open>
  C17: \<^verbatim>\<open>Array::erase\<close> of a range and \<^verbatim>\<open>Array::truncate\<close> on the slab allocator remove the
  elements of the range, respectively all elements from a position on, and keep all other nodes.
  Both fail only when the allocator cannot grow.
\<close>

theorem array_erase_refines:
  assumes "slab_ok F (h_alloc h)" "array_at slab_ops (slab_block F) h a" "m_size a \<le> 4000000" "b < e" "e \<le> m_size a" "n \<le> m_size a"
  shows "(case array_erase_range slab_ops b e a h of
      Inr (a', h') \<Rightarrow> slab_ok F (h_alloc h') \<and> writable_array slab_ops (slab_block F) h' a' \<and>
        contents (h_mem h') a' = erase_range b e (contents (h_mem h) a) \<and>
        kept slab_ops (slab_block F) h h' (m_ref a) (m_ref a')
    | Inl err \<Rightarrow> err = MaximumFileSizeExceeded) \<and>
   (case array_truncate slab_ops n a h of
      Inr (a', h') \<Rightarrow> slab_ok F (h_alloc h') \<and> array_at slab_ops (slab_block F) h' a' \<and>
        contents (h_mem h') a' = take n (contents (h_mem h) a) \<and>
        kept slab_ops (slab_block F) h h' (m_ref a) (m_ref a')
    | Inl err \<Rightarrow> err = MaximumFileSizeExceeded)"
proof (intro conjI)
  have run: "array_erase_range slab_ops b e a h = bind_result (array_move slab_ops e (m_size a) b a h) (\<lambda>(a, h).
        let a = a\<lparr>m_size := m_size a - (e - b)\<rparr> in Inr (a, set_header_size a (m_size a) h))"
    using assms(4) by (simp add: array_erase_range_def)
  show "case array_erase_range slab_ops b e a h of
      Inr (a', h') \<Rightarrow> slab_ok F (h_alloc h') \<and> writable_array slab_ops (slab_block F) h' a' \<and>
        contents (h_mem h') a' = erase_range b e (contents (h_mem h) a) \<and>
        kept slab_ops (slab_block F) h h' (m_ref a) (m_ref a')
    | Inl err \<Rightarrow> err = MaximumFileSizeExceeded"
  proof (cases "array_erase_range slab_ops b e a h")
    case (Inl err)
    then have "array_move slab_ops e (m_size a) b a h = Inl err"
      unfolding run by (cases "array_move slab_ops e (m_size a) b a h") (auto simp: Let_def)
    then show ?thesis using slab_arrays.array_move_error [OF assms(1-3)] Inl by simp
  next
    case (Inr p)
    obtain a' h' where p: "p = (a', h')" by (cases p)
    show ?thesis using slab_arrays.array_erase_range_ok [OF assms(1-5) Inr [unfolded p run]] by (simp add: Inr p)
  qed
  show "case array_truncate slab_ops n a h of
      Inr (a', h') \<Rightarrow> slab_ok F (h_alloc h') \<and> array_at slab_ops (slab_block F) h' a' \<and>
        contents (h_mem h') a' = take n (contents (h_mem h) a) \<and>
        kept slab_ops (slab_block F) h h' (m_ref a) (m_ref a')
    | Inl err \<Rightarrow> err = MaximumFileSizeExceeded"
  proof (cases "array_truncate slab_ops n a h")
    case (Inl err)
    then show ?thesis using slab_arrays.array_truncate_error [OF assms(1-3) Inl] by simp
  next
    case (Inr p)
    obtain a' h' where p: "p = (a', h')" by (cases p)
    show ?thesis using slab_arrays.array_truncate_ok [OF assms(1-3,6) Inr [unfolded p]] by (simp add: Inr p)
  qed
qed

theorem array_erase_refines_witness:
  "case array_erase_range slab_ops 0 2 sample_array sample_heap of
      Inr (a', h') \<Rightarrow> contents (h_mem h') a' = erase_range 0 2 (contents sample_mem sample_array)
    | Inl err \<Rightarrow> err = MaximumFileSizeExceeded"
  using array_erase_refines [OF sample_ok sample_at, of 0 2 1]
  by (auto simp: sample_fields sample_heap_def split: sum.splits)

end
