(* ===== verification/Version_List.thy ===== *)
theory Version_List
  imports Prelude
begin

text \<open>
  The version list (\<^verbatim>\<open>struct VersionList\<close> of \<^verbatim>\<open>src/llbt/db.cpp\<close>), the table in the lock file
  through which all processes that use a database know its snapshots: one \<^verbatim>\<open>ReadCount\<close> per
  version, with the number of processes that hold a frozen, a live or a full lock on it. The
  entries lie in mapped memory that may be larger than \<open>entries\<close>, so \<open>data\<close> is a function
  of the index. The counters are 32 bit wide and wrap around.
\<close>

subsection \<open>The code\<close>

record read_count =
  version :: nat
  filesize :: nat
  current_top :: nat
  count_live :: nat
  count_frozen :: nat
  count_full :: nat

definition is_active :: "read_count \<Rightarrow> bool" where
  "is_active rc \<longleftrightarrow> version rc \<noteq> 0"

definition deactivate :: "read_count \<Rightarrow> read_count" where
  "deactivate rc = rc\<lparr>version := 0, count_live := 0, count_frozen := 0, count_full := 0\<rparr>"

definition activate :: "nat \<Rightarrow> read_count \<Rightarrow> read_count" where
  "activate v rc = rc\<lparr>version := v\<rparr>"

record version_list =
  entries :: nat
  allocating :: nat
  newest :: nat
  data :: "nat \<Rightarrow> read_count"

definition nil :: nat where "nil = 2 ^ 32 - 1"

definition max_version :: nat where "max_version = 2 ^ 64 - 1"

definition reserve :: "nat \<Rightarrow> version_list \<Rightarrow> version_list" where
  "reserve sz vl =
     (let vl' = vl\<lparr>data := fold (\<lambda>i d. d(i := deactivate (d i))) [entries vl..<sz] (data vl)\<rparr>
      in if sz > entries vl then vl'\<lparr>entries := sz\<rparr> else vl')"

function first_free :: "version_list \<Rightarrow> nat \<Rightarrow> nat" where
  "first_free vl k = (if k < entries vl \<and> is_active (data vl k) then first_free vl (k + 1) else k)"
  by auto
termination
  by (relation "measure (\<lambda>(vl, k). entries vl - k)") auto

declare first_free.simps [simp del]

definition fill_entry :: "nat \<Rightarrow> nat \<Rightarrow> nat \<Rightarrow> nat \<Rightarrow> version_list \<Rightarrow> version_list" where
  "fill_entry top_ref sz v i vl =
     vl\<lparr>data := (data vl)(i := activate v ((data vl i)\<lparr>current_top := top_ref, filesize := sz\<rparr>)), newest := i\<rparr>"

definition try_allocate_entry :: "nat \<Rightarrow> nat \<Rightarrow> nat \<Rightarrow> version_list \<Rightarrow> version_list option" where
  "try_allocate_entry top_ref sz v vl =
     (let i = allocating vl
      in if i = newest vl
         then let k = first_free vl 0
              in if k = entries vl then None
                 else Some (fill_entry top_ref sz v k (vl\<lparr>allocating := k\<rparr>))
         else Some (fill_entry top_ref sz v i vl))"

definition free_entry :: "nat \<Rightarrow> version_list \<Rightarrow> version_list" where
  "free_entry i vl =
     vl\<lparr>data := (data vl)(i := deactivate ((data vl i)\<lparr>current_top := 2 ^ 64 - 1, filesize := 2 ^ 64 - 1\<rparr>))\<rparr>"

definition init_versioning :: "nat \<Rightarrow> nat \<Rightarrow> nat \<Rightarrow> version_list \<Rightarrow> version_list option" where
  "init_versioning top_ref sz v vl =
     (let t_free = entries vl;
          vl = vl\<lparr>newest := nil, allocating := 0, entries := 0\<rparr>;
          vl = reserve t_free vl
      in try_allocate_entry top_ref sz v vl)"

text \<open>
  \<^verbatim>\<open>purge_versions\<close>: \<^verbatim>\<open>TopRefMap\<close> is an ordered map, here an association list with
  ascending keys; \<^verbatim>\<open>emplace\<close> keeps the value of a key that is already there.
\<close>

type_synonym top_ref_map = "(nat \<times> (nat \<times> nat)) list"

fun emplace :: "nat \<Rightarrow> nat \<times> nat \<Rightarrow> top_ref_map \<Rightarrow> top_ref_map" where
  "emplace k v [] = [(k, v)]"
| "emplace k v ((k', v') # m) =
     (if k < k' then (k, v) # (k', v') # m else if k = k' then (k', v') # m else (k', v') # emplace k v m)"

definition full_step :: "read_count \<Rightarrow> nat \<Rightarrow> nat" where
  "full_step rc oldest_full_v =
     (if is_active rc \<and> count_full rc \<noteq> 0 \<and> version rc < oldest_full_v then version rc else oldest_full_v)"

definition reach_step :: "nat \<Rightarrow> read_count \<Rightarrow> nat \<times> top_ref_map \<Rightarrow> nat \<times> top_ref_map" where
  "reach_step oldest_full_v rc = (\<lambda>(oldest_live_v, top_refs).
     if \<not> is_active rc then (oldest_live_v, top_refs)
     else
       ((if (count_live rc \<noteq> 0 \<or> version rc \<ge> oldest_full_v) \<and> version rc < oldest_live_v
         then version rc else oldest_live_v),
        (if count_frozen rc \<noteq> 0 \<or> count_live rc \<noteq> 0 \<or> version rc \<ge> oldest_full_v
         then emplace (version rc) (current_top rc, filesize rc) top_refs else top_refs)))"

definition becomes_unreachable :: "nat \<Rightarrow> read_count \<Rightarrow> bool" where
  "becomes_unreachable oldest_full_v rc \<longleftrightarrow>
     is_active rc \<and> count_frozen rc = 0 \<and> count_live rc = 0 \<and> version rc < oldest_full_v"

definition free_step :: "nat \<Rightarrow> nat \<Rightarrow> nat \<Rightarrow> bool \<times> version_list \<Rightarrow> bool \<times> version_list" where
  "free_step oldest_full_v oldest_v i = (\<lambda>(any_new_unreachables, vl).
     let rc = data vl i
     in if becomes_unreachable oldest_full_v rc
        then (if version rc > oldest_v then True else any_new_unreachables, free_entry i vl)
        else (any_new_unreachables, vl))"

definition recover_allocating :: "version_list \<Rightarrow> version_list" where
  "recover_allocating vl =
     (if allocating vl \<noteq> newest vl
      then vl\<lparr>data := (data vl)(allocating vl := deactivate (data vl (allocating vl)))\<rparr> else vl)"

definition purge_versions :: "top_ref_map \<Rightarrow> version_list \<Rightarrow> nat \<times> top_ref_map \<times> bool \<times> version_list" where
  "purge_versions top_refs vl =
     (let vl = recover_allocating vl;
          oldest_full_v = fold (\<lambda>i. full_step (data vl i)) [0..<entries vl] max_version;
          (oldest_live_v, top_refs) =
            fold (\<lambda>i. reach_step oldest_full_v (data vl i)) [0..<entries vl] (max_version, top_refs);
          oldest_v = fst (hd top_refs);
          (any_new_unreachables, vl) = fold (free_step oldest_full_v oldest_v) [0..<entries vl] (False, vl)
      in (oldest_live_v, top_refs, any_new_unreachables, vl))"

subsection \<open>The loops of \<open>purge_versions\<close>\<close>

lemma full_fold_le: "fold (\<lambda>i. full_step (d i)) xs m \<le> m"
proof (induction xs arbitrary: m)
  case (Cons i xs)
  have "full_step (d i) m \<le> m" by (simp add: full_step_def)
  then show ?case using Cons [of "full_step (d i) m"] by simp
qed simp

lemma full_fold_bound:
  "i \<in> set xs \<Longrightarrow> is_active (d i) \<Longrightarrow> count_full (d i) \<noteq> 0 \<Longrightarrow> fold (\<lambda>i. full_step (d i)) xs m \<le> version (d i)"
proof (induction xs arbitrary: m)
  case (Cons j xs)
  show ?case
  proof (cases "i \<in> set xs")
    case True
    then show ?thesis using Cons by simp
  next
    case False
    then have "full_step (d j) m \<le> version (d i)" using Cons.prems by (simp add: full_step_def)
    then show ?thesis using full_fold_le [of d xs "full_step (d j) m"] by simp
  qed
qed simp

definition reachable :: "nat \<Rightarrow> read_count \<Rightarrow> bool" where
  "reachable oldest_full_v rc \<longleftrightarrow> is_active rc \<and> (count_frozen rc \<noteq> 0 \<or> count_live rc \<noteq> 0 \<or> oldest_full_v \<le> version rc)"

definition top_info :: "read_count \<Rightarrow> nat \<times> nat" where
  "top_info rc = (current_top rc, filesize rc)"

lemma reach_step_fst: "fst (reach_step f rc x) \<le> fst x"
  by (cases x) (simp add: reach_step_def)

lemma reach_step_snd:
  "snd (reach_step f rc x) = (if reachable f rc then emplace (version rc) (top_info rc) (snd x) else snd x)"
  by (cases x) (simp add: reach_step_def reachable_def top_info_def)

lemma reach_fold_le: "fst (fold (\<lambda>i. reach_step f (d i)) xs x) \<le> fst x"
proof (induction xs arbitrary: x)
  case (Cons i xs)
  show ?case using Cons [of "reach_step f (d i) x"] reach_step_fst [of f "d i" x] by simp
qed simp

lemma reach_fold_live:
  "i \<in> set xs \<Longrightarrow> is_active (d i) \<Longrightarrow> count_live (d i) \<noteq> 0 \<or> f \<le> version (d i) \<Longrightarrow>
   fst (fold (\<lambda>i. reach_step f (d i)) xs x) \<le> version (d i)"
proof (induction xs arbitrary: x)
  case (Cons j xs)
  show ?case
  proof (cases "i \<in> set xs")
    case True
    then show ?thesis using Cons by simp
  next
    case False
    then have "fst (reach_step f (d j) x) \<le> version (d i)" using Cons.prems by (cases x) (auto simp: reach_step_def)
    then show ?thesis using reach_fold_le [of f d xs "reach_step f (d j) x"] by simp
  qed
qed simp

text \<open>The map of reachable versions.\<close>

lemma set_emplace: "set (emplace k v m) \<subseteq> insert (k, v) (set m)" "set m \<subseteq> set (emplace k v m)"
  by (induction k v m rule: emplace.induct) (auto split: if_splits)

lemma emplace_key: "\<exists>v'. (k, v') \<in> set (emplace k v m)"
  by (induction k v m rule: emplace.induct) auto

lemma emplace_sorted:
  "sorted_wrt (<) (map fst m) \<Longrightarrow> sorted_wrt (<) (map fst (emplace k v m))"
proof (induction k v m rule: emplace.induct)
  case (2 k v k' v' m)
  have "k' < fst x" if "x \<in> set (emplace k v m)" "k' < k" "\<forall>x\<in>set m. k' < fst x" for x
    using that set_emplace(1) [of k v m] by (cases "x = (k, v)") auto
  with 2 show ?case by (auto simp: not_less_iff_gr_or_eq)
qed simp

lemma reach_fold_sorted:
  "sorted_wrt (<) (map fst (snd x)) \<Longrightarrow> sorted_wrt (<) (map fst (snd (fold (\<lambda>i. reach_step f (d i)) xs x)))"
  by (induction xs arbitrary: x) (simp_all add: reach_step_snd emplace_sorted)

lemma reach_fold_sound:
  "(v, info) \<in> set (snd (fold (\<lambda>i. reach_step f (d i)) xs x)) \<Longrightarrow>
   (v, info) \<in> set (snd x) \<or> (\<exists>i\<in>set xs. reachable f (d i) \<and> version (d i) = v \<and> info = top_info (d i))"
proof (induction xs arbitrary: x)
  case (Cons i xs)
  then have "(v, info) \<in> set (snd (reach_step f (d i) x)) \<or> (\<exists>i\<in>set xs. reachable f (d i) \<and> version (d i) = v \<and> info = top_info (d i))"
    by simp
  moreover have "set (snd (reach_step f (d i) x)) \<subseteq> set (snd x) \<union> (if reachable f (d i) then {(version (d i), top_info (d i))} else {})"
    using set_emplace(1) by (auto simp: reach_step_snd)
  ultimately show ?case by (auto split: if_splits)
qed simp

lemma reach_fold_keeps: "e \<in> set (snd x) \<Longrightarrow> e \<in> set (snd (fold (\<lambda>i. reach_step f (d i)) xs x))"
proof (induction xs arbitrary: x)
  case (Cons i xs)
  have "set (snd x) \<subseteq> set (snd (reach_step f (d i) x))" using set_emplace(2) by (auto simp: reach_step_snd)
  then show ?case using Cons.IH [of "reach_step f (d i) x"] Cons.prems by auto
qed simp

lemma reach_fold_complete:
  "i \<in> set xs \<Longrightarrow> reachable f (d i) \<Longrightarrow> \<exists>info. (version (d i), info) \<in> set (snd (fold (\<lambda>i. reach_step f (d i)) xs x))"
proof (induction xs arbitrary: x)
  case (Cons j xs)
  show ?case
  proof (cases "i \<in> set xs")
    case True
    then show ?thesis using Cons by simp
  next
    case False
    then have "i = j" using Cons.prems(1) by simp
    obtain info where "(version (d i), info) \<in> set (snd (reach_step f (d j) x))"
      using emplace_key [of "version (d j)" "top_info (d j)" "snd x"] Cons.prems(2) \<open>i = j\<close> by (auto simp: reach_step_snd)
    from reach_fold_keeps [OF this, of f d xs] show ?thesis by (intro exI [of _ info]) simp
  qed
qed simp

text \<open>With distinct versions the map holds exactly the reachable entries.\<close>

lemma reach_fold_exact:
  assumes distinct: "\<And>i j. i \<in> set xs \<Longrightarrow> j \<in> set xs \<Longrightarrow> is_active (d i) \<Longrightarrow> is_active (d j) \<Longrightarrow> version (d i) = version (d j) \<Longrightarrow> i = j"
    and i: "i \<in> set xs" "reachable f (d i)"
  shows "(version (d i), top_info (d i)) \<in> set (snd (fold (\<lambda>i. reach_step f (d i)) xs (m, [])))"
proof -
  obtain info where e: "(version (d i), info) \<in> set (snd (fold (\<lambda>i. reach_step f (d i)) xs (m, [])))"
    using reach_fold_complete [of i xs f d "(m, [])", OF i] by blast
  then obtain j where j: "j \<in> set xs" "reachable f (d j)" "version (d j) = version (d i)" "info = top_info (d j)"
    using reach_fold_sound [OF e] by auto
  have "j = i" using distinct [OF j(1) i(1)] j(2,3) i(2) by (auto simp: reachable_def)
  then show ?thesis using e j(4) by simp
qed

text \<open>Freeing the unreachable entries.\<close>

lemma free_step_data:
  "data (snd (free_step f ov j x)) = (data (snd x))(j := if becomes_unreachable f (data (snd x) j)
     then data (free_entry j (snd x)) j else data (snd x) j)"
  "entries (snd (free_step f ov j x)) = entries (snd x)" "newest (snd (free_step f ov j x)) = newest (snd x)"
  "allocating (snd (free_step f ov j x)) = allocating (snd x)"
  by (cases x; auto simp: free_step_def Let_def free_entry_def fun_eq_iff)+

lemma free_fold_fields:
  "entries (snd (fold (free_step f ov) xs x)) = entries (snd x)" "newest (snd (fold (free_step f ov) xs x)) = newest (snd x)"
  "allocating (snd (fold (free_step f ov) xs x)) = allocating (snd x)"
  by (induction xs arbitrary: x) (simp_all add: free_step_data)

lemma free_fold:
  "distinct xs \<Longrightarrow> data (snd (fold (free_step f ov) xs x)) i =
     (if i \<in> set xs \<and> becomes_unreachable f (data (snd x) i) then data (free_entry i (snd x)) i else data (snd x) i)"
proof (induction xs arbitrary: x)
  case (Cons j xs)
  let ?x = "free_step f ov j x"
  have IH: "data (snd (fold (free_step f ov) xs ?x)) i =
     (if i \<in> set xs \<and> becomes_unreachable f (data (snd ?x) i) then data (free_entry i (snd ?x)) i else data (snd ?x) i)"
    using Cons by simp
  show ?case
  proof (cases "i = j")
    case True
    then have "i \<notin> set xs" using Cons.prems by simp
    then show ?thesis using IH True by (simp add: free_step_data)
  next
    case False
    then have "data (snd ?x) i = data (snd x) i" by (simp add: free_step_data)
    moreover from this have "data (free_entry i (snd ?x)) i = data (free_entry i (snd x)) i" by (simp add: free_entry_def)
    ultimately show ?thesis using IH False by simp
  qed
qed simp

lemma reserve_data:
  "data (reserve sz vl) = (\<lambda>i. if entries vl \<le> i \<and> i < sz then deactivate (data vl i) else data vl i)"
  "entries (reserve sz vl) = max (entries vl) sz" "newest (reserve sz vl) = newest vl" "allocating (reserve sz vl) = allocating vl"
proof -
  have f: "fold (\<lambda>i d. d(i := deactivate (d i))) xs d i = (if i \<in> set xs then deactivate (d i) else d i)" if "distinct xs" for xs d i
    using that by (induction xs arbitrary: d) auto
  show "data (reserve sz vl) = (\<lambda>i. if entries vl \<le> i \<and> i < sz then deactivate (data vl i) else data vl i)"
    by (simp add: reserve_def Let_def fun_eq_iff f)
qed (simp_all add: reserve_def Let_def)

lemma first_free_spec:
  "k \<le> entries vl \<Longrightarrow> k \<le> first_free vl k \<and> first_free vl k \<le> entries vl \<and>
   (first_free vl k < entries vl \<longrightarrow> \<not> is_active (data vl (first_free vl k))) \<and>
   (\<forall>i. k \<le> i \<and> i < first_free vl k \<longrightarrow> is_active (data vl i))"
proof (induction vl k rule: first_free.induct)
  case (1 vl k)
  show ?case
  proof (cases "k < entries vl \<and> is_active (data vl k)")
    case True
    then have eq: "first_free vl k = first_free vl (k + 1)" by (subst first_free.simps) auto
    have "is_active (data vl i)" if "k \<le> i" "i < first_free vl k" for i
      using 1(1) [OF True] True that eq by (cases "i = k") auto
    then show ?thesis using 1(1) [OF True] True eq by auto
  next
    case False
    then have eq: "first_free vl k = k" by (subst first_free.simps) auto
    show ?thesis using False 1(2) by (auto simp: eq)
  qed
qed

end
