(* ===== verification/Version_Manager.thy ===== *)
theory Version_Manager
  imports Version_List
begin

text \<open>
  Read locks (\<^verbatim>\<open>class DB::VersionManager\<close> of \<^verbatim>\<open>src/llbt/db.cpp\<close>). Every process has a
  \<^verbatim>\<open>VersionManager\<close> with a cache \<^verbatim>\<open>m_local_readers\<close> of the locks its own transactions
  hold: the first lock of a kind on a version is counted in the shared version list, the others
  only in the cache. \<^verbatim>\<open>DB::grab_read_lock\<close> and \<^verbatim>\<open>DB::release_read_lock\<close> hold the mutex of
  the \<^verbatim>\<open>DB\<close> object during the call, and the shared list is only touched under the interprocess
  mutex, so that a call is one step of the system. The mapping of the lock file is not modelled.
\<close>

subsection \<open>The code\<close>

datatype lock_type = Frozen | Live | Full

record read_lock_info =
  m_version :: nat
  m_reader_idx :: nat
  m_top_ref :: nat
  m_file_size :: nat
  m_type :: lock_type

record version_id =
  vid_version :: nat
  vid_index :: nat

definition default_version_id :: version_id where
  "default_version_id = \<lparr>vid_version = max_version, vid_index = 0\<rparr>"

definition inc32 :: "nat \<Rightarrow> nat" where
  "inc32 n = (n + 1) mod 2 ^ 32"

definition dec32 :: "nat \<Rightarrow> nat" where
  "dec32 n = (n + (2 ^ 32 - 1)) mod 2 ^ 32"

fun field_for_type :: "read_count \<Rightarrow> lock_type \<Rightarrow> nat" where
  "field_for_type r Frozen = count_frozen r"
| "field_for_type r Live = count_live r"
| "field_for_type r Full = count_full r"

fun set_field :: "lock_type \<Rightarrow> nat \<Rightarrow> read_count \<Rightarrow> read_count" where
  "set_field Frozen n r = r\<lparr>count_frozen := n\<rparr>"
| "set_field Live n r = r\<lparr>count_live := n\<rparr>"
| "set_field Full n r = r\<lparr>count_full := n\<rparr>"

definition populate_read_lock :: "nat \<Rightarrow> lock_type \<Rightarrow> read_count \<Rightarrow> read_lock_info \<times> read_count" where
  "populate_read_lock idx type r =
     (\<lparr>m_version = version r, m_reader_idx = idx, m_top_ref = current_top r, m_file_size = filesize r, m_type = type\<rparr>,
      set_field type (inc32 (field_for_type r type)) r)"

definition zero_read_count :: read_count where
  "zero_read_count = \<lparr>version = 0, filesize = 0, current_top = 0, count_live = 0, count_frozen = 0, count_full = 0\<rparr>"

definition grow_local_cache :: "nat \<Rightarrow> read_count list \<Rightarrow> read_count list" where
  "grow_local_cache new_size lr = lr @ replicate (new_size - length lr) zero_read_count"

definition try_grab_local_read_lock ::
  "lock_type \<Rightarrow> version_id \<Rightarrow> version_list \<Rightarrow> read_count list \<Rightarrow> (read_lock_info \<times> read_count list) option" where
  "try_grab_local_read_lock type vid vl lr =
     (let pick_specific = (vid_version vid \<noteq> max_version);
          index = (if \<not> pick_specific then newest vl else vid_index vid)
      in if index \<ge> length lr then None
         else let r = lr ! index
              in if \<not> is_active r then None
                 else if pick_specific \<and> version r \<noteq> vid_version vid then None
                 else if field_for_type r type = 0 then None
                 else let (read_lock, r) = populate_read_lock index type r in Some (read_lock, lr[index := r]))"

definition enter_local :: "read_lock_info \<Rightarrow> read_count list \<Rightarrow> read_count list" where
  "enter_local read_lock lr =
     (let lr = grow_local_cache (m_reader_idx read_lock + 1) lr;
          r2 = lr ! m_reader_idx read_lock;
          r2 = (if \<not> is_active r2
                then r2\<lparr>version := m_version read_lock, filesize := m_file_size read_lock, current_top := m_top_ref read_lock,
                        count_full := 0, count_live := 0, count_frozen := 0\<rparr>
                else r2)
      in lr[m_reader_idx read_lock := set_field (m_type read_lock) 1 r2])"

definition grab_read_lock ::
  "lock_type \<Rightarrow> version_id \<Rightarrow> version_list \<Rightarrow> read_count list \<Rightarrow> (read_lock_info \<times> version_list \<times> read_count list) result" where
  "grab_read_lock type vid vl lr =
     (case try_grab_local_read_lock type vid vl lr of
        Some (read_lock, lr) \<Rightarrow> Inr (read_lock, vl, lr)
      | None \<Rightarrow>
          let pick_specific = (vid_version vid \<noteq> max_version);
              idx = (if pick_specific then vid_index vid else newest vl);
              picked_newest = (idx = newest vl);
              r = data vl idx
          in if pick_specific \<and> vid_version vid \<noteq> version r then Inl (BadVersion (vid_version vid))
             else if \<not> picked_newest \<and> type = Frozen \<and> count_frozen r = 0 \<and> count_live r = 0
             then Inl (BadVersion (vid_version vid))
             else if \<not> picked_newest \<and> type \<noteq> Frozen \<and> count_live r = 0 then Inl (BadVersion (vid_version vid))
             else let (read_lock, r) = populate_read_lock idx type r
                  in Inr (read_lock, vl\<lparr>data := (data vl)(idx := r)\<rparr>, enter_local read_lock lr))"

definition release_read_lock ::
  "read_lock_info \<Rightarrow> version_list \<Rightarrow> read_count list \<Rightarrow> version_list \<times> read_count list" where
  "release_read_lock read_lock vl lr =
     (let idx = m_reader_idx read_lock; type = m_type read_lock;
          r = lr ! idx;
          f = dec32 (field_for_type r type);
          r = set_field type f r
      in if f > 0 then (vl, lr[idx := r])
         else let r = (if count_live r = 0 \<and> count_full r = 0 \<and> count_frozen r = 0 then r\<lparr>version := 0\<rparr> else r);
                  sr = data vl idx
              in (vl\<lparr>data := (data vl)(idx := set_field type (dec32 (field_for_type sr type)) sr)\<rparr>, lr[idx := r]))"

definition add_version :: "nat \<Rightarrow> nat \<Rightarrow> nat \<Rightarrow> version_list \<Rightarrow> nat \<times> version_list" where
  "add_version new_top_ref new_file_size new_version vl =
     (case try_allocate_entry new_top_ref new_file_size new_version vl of
        Some vl \<Rightarrow> (newest vl, vl)
      | None \<Rightarrow>
          let new_entries = entries vl + 32;
              vl = reserve new_entries vl
          in case try_allocate_entry new_top_ref new_file_size new_version vl of
               Some vl \<Rightarrow> (newest vl, vl)
             | None \<Rightarrow> (newest vl, vl))"

definition cleanup_versions :: "version_list \<Rightarrow> nat \<times> top_ref_map \<times> bool \<times> version_list" where
  "cleanup_versions vl = purge_versions [] vl"

definition get_version_id_of_latest_snapshot :: "version_list \<Rightarrow> read_count list \<Rightarrow> version_id" where
  "get_version_id_of_latest_snapshot vl lr =
     (let index = newest vl
      in if index < length lr \<and> is_active (lr ! index) then \<lparr>vid_version = version (lr ! index), vid_index = index\<rparr>
         else \<lparr>vid_version = version (data vl index), vid_index = index\<rparr>)"

definition get_newest_version :: "version_list \<Rightarrow> read_count list \<Rightarrow> nat" where
  "get_newest_version vl lr = vid_version (get_version_id_of_latest_snapshot vl lr)"

text \<open>
  The list of locks that a \<^verbatim>\<open>DB\<close> object keeps so that it can release them all when it is closed.
  A released lock is looked up by its version.
\<close>

fun drop_held :: "nat \<Rightarrow> read_lock_info list \<Rightarrow> read_lock_info list option" where
  "drop_held v [] = None"
| "drop_held v (l # ls) =
     (if m_version l = v then Some (if ls = [] then [] else last ls # butlast ls)
      else map_option ((#) l) (drop_held v ls))"

definition do_release_read_lock ::
  "read_lock_info \<Rightarrow> version_list \<times> read_count list \<times> read_lock_info list \<Rightarrow> version_list \<times> read_count list \<times> read_lock_info list" where
  "do_release_read_lock read_lock = (\<lambda>(vl, lr, m_local_locks_held).
     case drop_held (m_version read_lock) m_local_locks_held of
       None \<Rightarrow> (vl, lr, m_local_locks_held)
     | Some held \<Rightarrow> let (vl, lr) = release_read_lock read_lock vl lr in (vl, lr, held))"

definition db_grab_read_lock ::
  "lock_type \<Rightarrow> version_id \<Rightarrow> version_list \<times> read_count list \<times> read_lock_info list \<Rightarrow>
   (read_lock_info \<times> version_list \<times> read_count list \<times> read_lock_info list) result" where
  "db_grab_read_lock type vid = (\<lambda>(vl, lr, m_local_locks_held).
     bind_result (grab_read_lock type vid vl lr) (\<lambda>(read_lock, vl, lr).
       Inr (read_lock, vl, lr, m_local_locks_held @ [read_lock])))"

definition release_all_read_locks ::
  "version_list \<times> read_count list \<times> read_lock_info list \<Rightarrow> version_list \<times> read_count list \<times> read_lock_info list" where
  "release_all_read_locks = (\<lambda>(vl, lr, m_local_locks_held).
     let (vl, lr) = fold (\<lambda>read_lock (vl, lr). release_read_lock read_lock vl lr) m_local_locks_held (vl, lr)
     in (vl, lr, []))"

end
