(* ===== verification/Version_Locks.thy ===== *)
theory Version_Locks
  imports Version_Manager
begin

text \<open>
  Any number of processes share a version list. A process grabs and releases read locks: the
  counters of the shared list count the processes with a lock of each kind on each version, the
  counters of a process its own locks, and both operations keep it so. The field \<open>held\<close> of a
  process is the list of the locks its transactions own.
\<close>

subsection \<open>The system\<close>

record process =
  m_local_readers :: "read_count list"
  held :: "read_lock_info list"

definition local_field :: "process \<Rightarrow> nat \<Rightarrow> lock_type \<Rightarrow> nat" where
  "local_field p i t = (if i < length (m_local_readers p) then field_for_type (m_local_readers p ! i) t else 0)"

definition held_count :: "process \<Rightarrow> nat \<Rightarrow> lock_type \<Rightarrow> nat" where
  "held_count p i t = length (filter (\<lambda>l. m_reader_idx l = i \<and> m_type l = t) (held p))"

definition present :: "nat \<Rightarrow> lock_type \<Rightarrow> process \<Rightarrow> int" where
  "present i t p = of_bool (0 < local_field p i t)"

text \<open>
  The version list: distinct versions, the newest one last, and no counts on unused entries. After
  a crash of a writer the entry at \<open>allocating\<close> may be partially filled.
\<close>

definition pending :: "version_list \<Rightarrow> nat \<Rightarrow> bool" where
  "pending vl i \<longleftrightarrow> i = allocating vl \<and> i \<noteq> newest vl"

definition list_ok :: "version_list \<Rightarrow> bool" where
  "list_ok vl \<longleftrightarrow> newest vl < entries vl \<and> allocating vl < entries vl \<and> is_active (data vl (newest vl)) \<and>
     (\<forall>i j. i < entries vl \<longrightarrow> j < entries vl \<longrightarrow> \<not> pending vl i \<longrightarrow> \<not> pending vl j \<longrightarrow>
        is_active (data vl i) \<longrightarrow> version (data vl i) = version (data vl j) \<longrightarrow> i = j) \<and>
     (\<forall>i. i < entries vl \<longrightarrow> \<not> pending vl i \<longrightarrow> version (data vl i) \<le> version (data vl (newest vl))) \<and>
     version (data vl (newest vl)) < max_version \<and>
     (\<forall>i t. i < entries vl \<longrightarrow> \<not> is_active (data vl i) \<or> pending vl i \<longrightarrow> field_for_type (data vl i) t = 0)"

lemma list_okD:
  assumes "list_ok vl"
  shows "newest vl < entries vl" "allocating vl < entries vl" "is_active (data vl (newest vl))" "version (data vl (newest vl)) < max_version"
    "\<And>i j. i < entries vl \<Longrightarrow> j < entries vl \<Longrightarrow> \<not> pending vl i \<Longrightarrow> \<not> pending vl j \<Longrightarrow>
        is_active (data vl i) \<Longrightarrow> version (data vl i) = version (data vl j) \<Longrightarrow> i = j"
    "\<And>i. i < entries vl \<Longrightarrow> \<not> pending vl i \<Longrightarrow> version (data vl i) \<le> version (data vl (newest vl))"
    "\<And>i t. i < entries vl \<Longrightarrow> \<not> is_active (data vl i) \<or> pending vl i \<Longrightarrow> field_for_type (data vl i) t = 0"
  using assms unfolding list_ok_def by simp_all

text \<open>A lock and a cache entry describe the snapshot of an entry of the list.\<close>

definition lock_ok :: "version_list \<Rightarrow> read_lock_info \<Rightarrow> bool" where
  "lock_ok vl l \<longleftrightarrow> m_reader_idx l < entries vl \<and> is_active (data vl (m_reader_idx l)) \<and>
     m_version l = version (data vl (m_reader_idx l)) \<and> m_top_ref l = current_top (data vl (m_reader_idx l)) \<and>
     m_file_size l = filesize (data vl (m_reader_idx l))"

definition cache_ok :: "version_list \<Rightarrow> nat \<Rightarrow> read_count \<Rightarrow> bool" where
  "cache_ok vl i r \<longleftrightarrow>
     (if is_active r
      then i < entries vl \<and> version r = version (data vl i) \<and> current_top r = current_top (data vl i) \<and>
        filesize r = filesize (data vl i) \<and> (\<exists>t. 0 < field_for_type r t)
      else (\<forall>t. field_for_type r t = 0))"

definition process_ok :: "version_list \<Rightarrow> process \<Rightarrow> bool" where
  "process_ok vl p \<longleftrightarrow> (\<forall>i t. local_field p i t = held_count p i t) \<and> (\<forall>l\<in>set (held p). lock_ok vl l) \<and>
     (\<forall>i < length (m_local_readers p). cache_ok vl i (m_local_readers p ! i)) \<and> length (held p) < 2 ^ 32"

definition counts_ok :: "version_list \<Rightarrow> process list \<Rightarrow> bool" where
  "counts_ok vl ps \<longleftrightarrow> (\<forall>i t. i < entries vl \<longrightarrow> int (field_for_type (data vl i) t) = sum_list (map (present i t) ps))"

record version_system =
  shared :: version_list
  processes :: "process list"

definition system_ok :: "version_system \<Rightarrow> bool" where
  "system_ok s \<longleftrightarrow> list_ok (shared s) \<and> counts_ok (shared s) (processes s) \<and>
     (\<forall>p\<in>set (processes s). process_ok (shared s) p) \<and> length (processes s) < 2 ^ 32"

subsection \<open>Counters\<close>

lemma inc32_eq: "n < 2 ^ 32 - 1 \<Longrightarrow> inc32 n = n + 1"
  by (simp add: inc32_def)

lemma dec32_eq: "0 < n \<Longrightarrow> n < 2 ^ 32 \<Longrightarrow> dec32 n = n - 1"
proof -
  assume n: "0 < n" "n < 2 ^ 32"
  then have "n + (2 ^ 32 - 1) = (n - 1) + 2 ^ 32" by simp
  then have "dec32 n = ((n - 1) + 2 ^ 32) mod 2 ^ 32" by (simp only: dec32_def)
  also have "\<dots> = (n - 1) mod 2 ^ 32" by (rule mod_add_self2)
  also have "\<dots> = n - 1" using n(2) by simp
  finally show "dec32 n = n - 1" .
qed

lemma field_set_field [simp]: "field_for_type (set_field t n r) t' = (if t' = t then n else field_for_type r t')"
  by (cases t; cases t') simp_all

lemma set_field_simps [simp]:
  "version (set_field t n r) = version r" "current_top (set_field t n r) = current_top r" "filesize (set_field t n r) = filesize r"
  "is_active (set_field t n r) = is_active r"
  by (cases t; simp add: is_active_def)+

lemma all_fields: "(\<forall>t. P t) \<longleftrightarrow> P Frozen \<and> P Live \<and> P Full"
  by (metis lock_type.exhaust)

lemma fields_zero: "count_live r = 0 \<and> count_full r = 0 \<and> count_frozen r = 0 \<longleftrightarrow> (\<forall>t. field_for_type r t = 0)"
  by (auto simp: all_fields)

lemma sum_list_change:
  "k < length xs \<Longrightarrow> sum_list (map f (xs[k := x])) = sum_list (map f xs) + f x - (f (xs ! k) :: int)"
  by (induction xs arbitrary: k) (auto split: nat.splits)

lemma sum_list_zero: "(\<And>x. x \<in> set xs \<Longrightarrow> f x = 0) \<Longrightarrow> sum_list (map f xs) = (0 :: int)"
  by (induction xs) auto

lemma present_bounds: "0 \<le> sum_list (map (present i t) ps)" "sum_list (map (present i t) ps) \<le> int (length ps)"
  "p \<in> set ps \<Longrightarrow> present i t p \<le> sum_list (map (present i t) ps)"
  by (induction ps) (auto simp: present_def)

lemma present_less:
  "p \<in> set ps \<Longrightarrow> present i t p = 0 \<Longrightarrow> sum_list (map (present i t) ps) < int (length ps)"
proof (induction ps)
  case (Cons q ps)
  show ?case
  proof (cases "q = p")
    case True
    then show ?thesis using Cons.prems present_bounds(2) [of i t ps] by simp
  next
    case False
    then show ?thesis using Cons present_bounds(2) [of i t "[q]"] by simp
  qed
qed simp

text \<open>A change of counters only.\<close>

definition same_snapshots :: "version_list \<Rightarrow> version_list \<Rightarrow> bool" where
  "same_snapshots vl vl' \<longleftrightarrow> entries vl' = entries vl \<and> newest vl' = newest vl \<and> allocating vl' = allocating vl \<and>
     (\<forall>i. version (data vl' i) = version (data vl i) \<and> current_top (data vl' i) = current_top (data vl i) \<and>
        filesize (data vl' i) = filesize (data vl i))"

lemma same_snapshots_refl [simp]: "same_snapshots vl vl"
  by (simp add: same_snapshots_def)

lemma same_snapshots_ok:
  assumes "same_snapshots vl vl'"
  shows "lock_ok vl' l = lock_ok vl l" "cache_ok vl' i r = cache_ok vl i r" "process_ok vl' p = process_ok vl p"
  using assms unfolding process_ok_def lock_ok_def cache_ok_def same_snapshots_def is_active_def by auto

text \<open>
  One process changes its cache and locks, and with them the counters: the counter of an entry
  changes by as much as the presence of the process in it.
\<close>

lemma system_change:
  assumes ok: "system_ok s" and k: "k < length (processes s)" and vl: "same_snapshots (shared s) vl"
    and p: "process_ok vl p"
    and delta: "\<And>i t. i < entries vl \<Longrightarrow> int (field_for_type (data vl i) t) - int (field_for_type (data (shared s) i) t) =
      present i t p - present i t (processes s ! k)"
    and unused: "\<And>i t. i < entries vl \<Longrightarrow> \<not> is_active (data vl i) \<or> pending vl i \<Longrightarrow>
      field_for_type (data vl i) t = field_for_type (data (shared s) i) t"
  shows "system_ok \<lparr>shared = vl, processes = (processes s)[k := p]\<rparr>"
proof -
  have old: "list_ok (shared s)" "counts_ok (shared s) (processes s)" "\<And>q. q \<in> set (processes s) \<Longrightarrow> process_ok (shared s) q"
      "length (processes s) < 2 ^ 32" using ok by (auto simp: system_ok_def)
  have eqs: "entries vl = entries (shared s)" "newest vl = newest (shared s)" "allocating vl = allocating (shared s)"
      "\<And>i. version (data vl i) = version (data (shared s) i)" "\<And>i. is_active (data vl i) = is_active (data (shared s) i)"
      "\<And>i. pending vl i = pending (shared s) i"
    using vl by (simp_all add: same_snapshots_def is_active_def pending_def)
  have "field_for_type (data vl i) t = 0" if "i < entries vl" "\<not> is_active (data vl i) \<or> pending vl i" for i t
    using unused [OF that, of t] that old(1) unfolding list_ok_def eqs by auto
  then have "list_ok vl" using old(1) unfolding list_ok_def eqs by simp
  moreover have "counts_ok vl ((processes s)[k := p])"
    unfolding counts_ok_def
  proof (intro allI impI)
    fix i t assume i: "i < entries vl"
    have "int (field_for_type (data (shared s) i) t) = sum_list (map (present i t) (processes s))"
      using old(2) i vl by (simp add: counts_ok_def same_snapshots_def)
    then show "int (field_for_type (data vl i) t) = sum_list (map (present i t) ((processes s)[k := p]))"
      using delta [OF i, of t] by (simp add: sum_list_change [OF k])
  qed
  moreover have "process_ok vl q" if "q \<in> set ((processes s)[k := p])" for q
    using that p old(3) same_snapshots_ok(3) [OF vl] set_update_subset_insert [of "processes s" k p] by blast
  ultimately show ?thesis using old(4) by (simp add: system_ok_def)
qed

subsection \<open>Grabbing a lock\<close>

text \<open>The index a request refers to.\<close>

definition request_index :: "version_id \<Rightarrow> version_list \<Rightarrow> nat" where
  "request_index vid vl = (if vid_version vid \<noteq> max_version then vid_index vid else newest vl)"

lemma held_count_le: "held_count p i t \<le> length (held p)"
  by (simp add: held_count_def)

lemma local_field_active:
  assumes "process_ok vl p" "0 < local_field p i t"
  shows "i < length (m_local_readers p)" "is_active (m_local_readers p ! i)" "i < entries vl"
    "version (m_local_readers p ! i) = version (data vl i)" "is_active (data vl i)"
proof -
  show i: "i < length (m_local_readers p)" using assms(2) by (auto simp: local_field_def split: if_splits)
  have c: "cache_ok vl i (m_local_readers p ! i)" using assms(1) i by (simp add: process_ok_def)
  have "0 < field_for_type (m_local_readers p ! i) t" using assms(2) i by (simp add: local_field_def)
  then show a: "is_active (m_local_readers p ! i)" using c by (auto simp: cache_ok_def split: if_splits)
  show "i < entries vl" and v: "version (m_local_readers p ! i) = version (data vl i)" using c a by (auto simp: cache_ok_def)
  show "is_active (data vl i)" using a v by (simp add: is_active_def)
qed

lemma grab_local:
  assumes p: "process_ok vl p" and room: "length (held p) < 2 ^ 32 - 1"
    and run: "try_grab_local_read_lock t vid vl (m_local_readers p) = Some (l, lr')"
  shows "process_ok vl \<lparr>m_local_readers = lr', held = l # held p\<rparr>"
    "\<And>i t. present i t \<lparr>m_local_readers = lr', held = l # held p\<rparr> = present i t p"
    "m_type l = t" "m_reader_idx l = request_index vid vl"
    "vid_version vid \<noteq> max_version \<Longrightarrow> m_version l = vid_version vid"
proof -
  let ?i = "request_index vid vl" and ?lr = "m_local_readers p" and ?p = "\<lparr>m_local_readers = lr', held = l # held p\<rparr>"
  let ?r = "?lr ! ?i"
  have i: "?i < length ?lr" "is_active ?r" "0 < field_for_type ?r t"
    and l: "l = \<lparr>m_version = version ?r, m_reader_idx = ?i, m_top_ref = current_top ?r, m_file_size = filesize ?r, m_type = t\<rparr>"
    and lr': "lr' = ?lr[?i := set_field t (inc32 (field_for_type ?r t)) ?r]"
    and v: "vid_version vid \<noteq> max_version \<Longrightarrow> version ?r = vid_version vid"
    using run by (auto simp: try_grab_local_read_lock_def request_index_def Let_def populate_read_lock_def split: if_splits)
  have f: "field_for_type ?r t = held_count p ?i t" using p i(1) unfolding process_ok_def local_field_def by metis
  then have inc: "inc32 (field_for_type ?r t) = field_for_type ?r t + 1"
    using held_count_le [of p ?i t] room by (intro inc32_eq) simp
  have lf: "local_field ?p j t' = local_field p j t' + of_bool (j = ?i \<and> t' = t)" for j t'
    using i(1) inc by (auto simp: local_field_def lr' nth_list_update)
  have c: "cache_ok vl ?i ?r" using p i(1) by (simp add: process_ok_def)
  have hc: "held_count ?p j t' = held_count p j t' + of_bool (j = ?i \<and> t' = t)" for j t'
    by (auto simp: held_count_def l)
  have "cache_ok vl j (lr' ! j)" if "j < length lr'" for j
  proof (cases "j = ?i")
    case True
    have "0 < field_for_type (set_field t (inc32 (field_for_type ?r t)) ?r) t" using inc by simp
    then show ?thesis using c i unfolding True by (auto simp: cache_ok_def lr' simp del: field_set_field)
  next
    case False
    then show ?thesis using p that by (simp add: process_ok_def lr')
  qed
  moreover have "lock_ok vl l" using c i(2) by (auto simp: lock_ok_def cache_ok_def l is_active_def)
  moreover have "local_field ?p j t' = held_count ?p j t'" for j t' using lf hc p by (simp add: process_ok_def)
  ultimately show "process_ok vl ?p" using p room by (auto simp: process_ok_def)
  have "0 < local_field p ?i t" using i by (simp add: local_field_def)
  then show "present j t' ?p = present j t' p" for j t' by (auto simp: present_def lf)
  show "m_type l = t" "m_reader_idx l = ?i" "vid_version vid \<noteq> max_version \<Longrightarrow> m_version l = vid_version vid"
    using v by (simp_all add: l)
qed

lemma enter_local_field:
  assumes p: "process_ok vl p" and zero: "local_field p (m_reader_idx l) (m_type l) = 0"
  shows "local_field \<lparr>m_local_readers = enter_local l (m_local_readers p), held = ls\<rparr> j t =
    local_field p j t + of_bool (j = m_reader_idx l \<and> t = m_type l)"
proof -
  let ?lr = "m_local_readers p" and ?i = "m_reader_idx l"
  let ?g = "grow_local_cache (?i + 1) ?lr"
  have len: "length ?g = max (length ?lr) (?i + 1)" by (simp add: grow_local_cache_def)
  have g: "?g ! j = (if j < length ?lr then ?lr ! j else zero_read_count)" if "j < length ?g" for j
    using that by (simp add: grow_local_cache_def nth_append)
  have zr: "field_for_type zero_read_count t = 0" for t by (cases t) (simp_all add: zero_read_count_def)
  have gf: "field_for_type (?g ! j) t = local_field p j t" if "j < length ?g" for j t
    using g [OF that] zr by (simp add: local_field_def)
  have idle: "local_field p ?i t = 0" if "\<not> is_active (?g ! ?i)" for t
  proof (cases "?i < length ?lr")
    case True
    then have "cache_ok vl ?i (?lr ! ?i)" using p by (simp add: process_ok_def)
    then show ?thesis using that True g [of ?i] len by (simp add: cache_ok_def local_field_def)
  next
    case False
    then show ?thesis by (simp add: local_field_def)
  qed
  define r2 where "r2 = (if \<not> is_active (?g ! ?i)
     then (?g ! ?i)\<lparr>version := m_version l, filesize := m_file_size l, current_top := m_top_ref l,
            count_full := 0, count_live := 0, count_frozen := 0\<rparr> else ?g ! ?i)"
  have r2: "field_for_type r2 t = local_field p ?i t" for t
    using gf [of ?i t] idle [of t] len by (cases t) (auto simp: r2_def)
  have en: "enter_local l ?lr = ?g[?i := set_field (m_type l) 1 r2]" by (simp add: enter_local_def Let_def r2_def)
  show ?thesis
  proof (cases "j = ?i")
    case True
    then show ?thesis using r2 zero len by (auto simp: local_field_def [of "\<lparr>m_local_readers = _, held = _\<rparr>"] en)
  next
    case False
    then show ?thesis using gf [of j t] len by (auto simp: local_field_def en)
  qed
qed

lemma enter_local_cache:
  assumes p: "process_ok vl p" and l: "lock_ok vl l" and active: "0 < m_version l"
    and j: "j < length (enter_local l (m_local_readers p))"
  shows "cache_ok vl j (enter_local l (m_local_readers p) ! j)"
proof -
  let ?lr = "m_local_readers p" and ?i = "m_reader_idx l"
  let ?g = "grow_local_cache (?i + 1) ?lr"
  have len: "length ?g = max (length ?lr) (?i + 1)" by (simp add: grow_local_cache_def)
  have g: "cache_ok vl j (?g ! j)" if "j < length ?g" for j
  proof (cases "j < length ?lr")
    case True
    then show ?thesis using p by (simp add: process_ok_def grow_local_cache_def nth_append)
  next
    case False
    then have "?g ! j = zero_read_count" using that by (simp add: grow_local_cache_def nth_append)
    moreover have "field_for_type zero_read_count t = 0" for t by (cases t) (simp_all add: zero_read_count_def)
    moreover have "\<not> is_active zero_read_count" by (simp add: is_active_def zero_read_count_def)
    ultimately show ?thesis by (simp add: cache_ok_def)
  qed
  define r2 where "r2 = (if \<not> is_active (?g ! ?i)
     then (?g ! ?i)\<lparr>version := m_version l, filesize := m_file_size l, current_top := m_top_ref l,
            count_full := 0, count_live := 0, count_frozen := 0\<rparr> else ?g ! ?i)"
  have en: "enter_local l ?lr = ?g[?i := set_field (m_type l) 1 r2]" by (simp add: enter_local_def Let_def r2_def)
  have "cache_ok vl ?i (set_field (m_type l) 1 r2)"
  proof -
    have act: "is_active (set_field (m_type l) 1 r2)" using active by (simp add: r2_def) (simp add: is_active_def)
    have "0 < field_for_type (set_field (m_type l) 1 r2) (m_type l)" by simp
    moreover have "version r2 = version (data vl ?i)" "current_top r2 = current_top (data vl ?i)" "filesize r2 = filesize (data vl ?i)"
      using l g [of ?i] len by (auto simp: r2_def lock_ok_def cache_ok_def)
    ultimately show ?thesis using act l unfolding cache_ok_def lock_ok_def by auto
  qed
  then show ?thesis using g [of j] j len by (cases "j = ?i") (auto simp: en)
qed

lemma grab_shared:
  assumes ok: "system_ok s" and k: "k < length (processes s)" and p: "p = processes s ! k"
    and room: "length (held p) < 2 ^ 32 - 1" and l: "lock_ok (shared s) l" "\<not> pending (shared s) (m_reader_idx l)"
    and zero: "local_field p (m_reader_idx l) (m_type l) = 0"
    and vl': "vl' = shared s\<lparr>data := (data (shared s))(m_reader_idx l :=
      set_field (m_type l) (inc32 (field_for_type (data (shared s) (m_reader_idx l)) (m_type l))) (data (shared s) (m_reader_idx l)))\<rparr>"
  shows "system_ok \<lparr>shared = vl', processes = (processes s)[k := \<lparr>m_local_readers = enter_local l (m_local_readers p), held = l # held p\<rparr>]\<rparr>"
    "same_snapshots (shared s) vl'"
proof -
  let ?vl = "shared s" and ?i = "m_reader_idx l" and ?t = "m_type l"
  let ?p = "\<lparr>m_local_readers = enter_local l (m_local_readers p), held = l # held p\<rparr>"
  have pok: "process_ok ?vl p" and cok: "counts_ok ?vl (processes s)" and few: "length (processes s) < 2 ^ 32"
    using ok k p by (simp_all add: system_ok_def)
  show same: "same_snapshots ?vl vl'" by (simp add: vl' same_snapshots_def)
  have none: "present ?i ?t p = 0" by (simp add: present_def zero)
  have lf: "local_field ?p j t = local_field p j t + of_bool (j = ?i \<and> t = ?t)" for j t
    by (rule enter_local_field [OF pok zero])
  have "int (field_for_type (data ?vl ?i) ?t) < int (length (processes s))"
    using cok l(1) present_less [of p "processes s" ?i ?t] none k p by (simp add: counts_ok_def lock_ok_def)
  then have inc: "inc32 (field_for_type (data ?vl ?i) ?t) = field_for_type (data ?vl ?i) ?t + 1"
    using few by (intro inc32_eq) simp
  have pr: "present j t ?p = present j t p + of_bool (j = ?i \<and> t = ?t)" for j t
    using zero by (auto simp: present_def lf)
  have hc: "held_count ?p j t = held_count p j t + of_bool (j = ?i \<and> t = ?t)" for j t
    by (auto simp: held_count_def)
  have "0 < m_version l" using l(1) by (simp add: lock_ok_def is_active_def)
  then have "process_ok ?vl ?p"
    using pok room l(1) enter_local_cache [OF pok l(1)] by (auto simp: process_ok_def lf hc)
  then have p': "process_ok vl' ?p" using same_snapshots_ok(3) [OF same] by simp
  have f: "field_for_type (data vl' j) t = field_for_type (data ?vl j) t + of_bool (j = ?i \<and> t = ?t)" for j t
    by (simp add: vl' inc)
  have act: "is_active (data vl' ?i)" "\<not> pending vl' ?i" using l by (simp_all add: vl' lock_ok_def pending_def)
  show "system_ok \<lparr>shared = vl', processes = (processes s)[k := ?p]\<rparr>"
    using act by (intro system_change [OF ok k same p']) (auto simp: f pr p [symmetric])
qed

lemma grab_ok:
  assumes ok: "system_ok s" and k: "k < length (processes s)" and p: "p = processes s ! k"
    and room: "length (held p) < 2 ^ 32 - 1" and idx: "request_index vid (shared s) < entries (shared s)"
    and run: "grab_read_lock t vid (shared s) (m_local_readers p) = Inr (l, vl', lr')"
  shows "system_ok \<lparr>shared = vl', processes = (processes s)[k := \<lparr>m_local_readers = lr', held = l # held p\<rparr>]\<rparr> \<and>
    m_type l = t \<and> m_reader_idx l = request_index vid (shared s) \<and>
    (vid_version vid \<noteq> max_version \<longrightarrow> m_version l = vid_version vid) \<and> same_snapshots (shared s) vl'"
proof (cases "try_grab_local_read_lock t vid (shared s) (m_local_readers p)")
  case (Some q)
  let ?p = "\<lparr>m_local_readers = lr', held = l # held p\<rparr>"
  have pok: "process_ok (shared s) p" using ok k p by (simp add: system_ok_def)
  have q: "try_grab_local_read_lock t vid (shared s) (m_local_readers p) = Some (l, lr')" "vl' = shared s"
    using run Some by (auto simp: grab_read_lock_def split: prod.splits)
  note G = grab_local [OF pok room q(1)]
  have "system_ok \<lparr>shared = vl', processes = (processes s)[k := ?p]\<rparr>"
    using G q(2) p by (intro system_change [OF ok k]) simp_all
  then show ?thesis using G q(2) by simp
next
  case None
  let ?vl = "shared s" and ?i = "request_index vid (shared s)"
  let ?r = "data ?vl ?i"
  have pok: "process_ok ?vl p" and lok: "list_ok ?vl" using ok k p by (simp_all add: system_ok_def)
  have l: "l = \<lparr>m_version = version ?r, m_reader_idx = ?i, m_top_ref = current_top ?r, m_file_size = filesize ?r, m_type = t\<rparr>"
    and vl': "vl' = ?vl\<lparr>data := (data ?vl)(?i := set_field t (inc32 (field_for_type ?r t)) ?r)\<rparr>"
    and lr': "lr' = enter_local l (m_local_readers p)"
    and v: "vid_version vid \<noteq> max_version \<Longrightarrow> vid_version vid = version ?r"
    and old: "?i \<noteq> newest ?vl \<Longrightarrow> \<exists>t. field_for_type ?r t \<noteq> 0"
    using run None unfolding grab_read_lock_def request_index_def Let_def populate_read_lock_def
    by (auto split: if_splits intro: exI [of _ Frozen] exI [of _ Live])
  have act: "is_active ?r" "\<not> pending ?vl ?i"
  proof -
    have "is_active (data ?vl (newest ?vl))" "\<not> pending ?vl (newest ?vl)" using lok unfolding list_ok_def pending_def by blast+
    moreover have "is_active ?r \<and> \<not> pending ?vl ?i" if "?i \<noteq> newest ?vl"
      using old [OF that] list_okD(7) [OF lok idx] by metis
    ultimately have "is_active ?r \<and> \<not> pending ?vl ?i" by (cases "?i = newest ?vl") simp_all
    then show "is_active ?r" "\<not> pending ?vl ?i" by simp_all
  qed
  have zero: "local_field p ?i t = 0"
  proof (rule ccontr)
    assume "local_field p ?i t \<noteq> 0"
    then have pos: "0 < local_field p ?i t" by simp
    note a = local_field_active [OF pok pos]
    have "field_for_type (m_local_readers p ! ?i) t \<noteq> 0" using pos a(1) by (simp add: local_field_def)
    then show False
      using None a v by (auto simp: try_grab_local_read_lock_def request_index_def Let_def split: if_splits prod.splits)
  qed
  have "lock_ok ?vl l" "\<not> pending ?vl (m_reader_idx l)" using idx act by (simp_all add: lock_ok_def l)
  note G = grab_shared [OF ok k p room this, of vl']
  show ?thesis using G zero v by (simp add: l vl' lr')
qed

subsection \<open>Releasing a lock\<close>

lemma held_count_remove1:
  assumes "l \<in> set (held p)"
  shows "held_count p i t = held_count \<lparr>m_local_readers = lr, held = remove1 l (held p)\<rparr> i t + of_bool (i = m_reader_idx l \<and> t = m_type l)"
proof -
  have "length (filter P xs) = length (filter P (remove1 l xs)) + of_bool (P l)" if "l \<in> set xs" for P xs
    using that by (induction xs) auto
  from this [OF assms] show ?thesis by (auto simp: held_count_def)
qed

text \<open>The cache after a release: the counter is one less, and an entry without locks is marked inactive.\<close>

definition release_entry :: "lock_type \<Rightarrow> nat \<Rightarrow> read_count \<Rightarrow> read_count" where
  "release_entry t f r = (let r = set_field t f r
     in if count_live r = 0 \<and> count_full r = 0 \<and> count_frozen r = 0 then r\<lparr>version := 0\<rparr> else r)"

lemma field_release_entry: "field_for_type (release_entry t f r) t' = (if t' = t then f else field_for_type r t')"
proof -
  have "field_for_type (r\<lparr>version := v\<rparr>) t = field_for_type r t" for v t and r :: read_count by (cases t) simp_all
  then show ?thesis by (simp add: release_entry_def Let_def)
qed

lemma cache_release_entry:
  assumes "cache_ok vl i r" "is_active r"
  shows "cache_ok vl i (release_entry t f r)"
proof (cases "\<forall>t'. field_for_type (set_field t f r) t' = 0")
  case True
  then have "release_entry t f r = (set_field t f r)\<lparr>version := 0\<rparr>" unfolding release_entry_def Let_def fields_zero by (simp del: field_set_field)
  moreover have "field_for_type (release_entry t f r) t' = 0" for t' using True by (simp add: field_release_entry)
  ultimately show ?thesis by (simp add: cache_ok_def is_active_def)
next
  case False
  then have "release_entry t f r = set_field t f r" unfolding release_entry_def Let_def fields_zero by (metis (full_types))
  moreover have "\<exists>t'. 0 < field_for_type (set_field t f r) t'" using False by (metis neq0_conv)
  ultimately show ?thesis using assms by (simp add: cache_ok_def del: field_set_field)
qed

lemma release_read_lock_eq:
  assumes "f = dec32 (field_for_type (lr ! m_reader_idx l) (m_type l))"
  shows "release_read_lock l vl lr =
    (if f > 0 then vl else vl\<lparr>data := (data vl)(m_reader_idx l :=
       set_field (m_type l) (dec32 (field_for_type (data vl (m_reader_idx l)) (m_type l))) (data vl (m_reader_idx l)))\<rparr>,
     lr[m_reader_idx l := release_entry (m_type l) f (lr ! m_reader_idx l)])"
proof -
  have "release_entry t f r = set_field t f r" if "f > 0" for t r using that by (cases t) (simp_all add: release_entry_def)
  then show ?thesis using assms by (simp add: release_read_lock_def release_entry_def Let_def)
qed

lemma release_ok:
  assumes ok: "system_ok s" and k: "k < length (processes s)" and p: "p = processes s ! k" and l: "l \<in> set (held p)"
    and run: "release_read_lock l (shared s) (m_local_readers p) = (vl', lr')"
  shows "system_ok \<lparr>shared = vl', processes = (processes s)[k := \<lparr>m_local_readers = lr', held = remove1 l (held p)\<rparr>]\<rparr>"
    "same_snapshots (shared s) vl'"
proof -
  let ?vl = "shared s" and ?i = "m_reader_idx l" and ?t = "m_type l" and ?lr = "m_local_readers p"
  let ?p = "\<lparr>m_local_readers = lr', held = remove1 l (held p)\<rparr>" and ?n = "held_count p (m_reader_idx l) (m_type l)"
  have pok: "process_ok ?vl p" and cok: "counts_ok ?vl (processes s)" and few: "length (processes s) < 2 ^ 32"
    using ok k p by (simp_all add: system_ok_def)
  note hc = held_count_remove1 [OF l, where lr = lr']
  have n: "local_field p ?i ?t = ?n" using pok by (simp add: process_ok_def)
  have pos: "0 < ?n" using hc [of ?i ?t] by simp
  note a = local_field_active [OF pok, of ?i ?t, unfolded n, OF pos]
  have field: "field_for_type (?lr ! ?i) ?t = ?n" using n a(1) by (simp add: local_field_def)
  have small: "?n < 2 ^ 32" using held_count_le [of p ?i ?t] pok by (simp add: process_ok_def)
  note R = release_read_lock_eq [OF refl, of l ?vl ?lr, unfolded field dec32_eq [OF pos small] run]
  have lr': "lr' = ?lr[?i := release_entry ?t (?n - 1) (?lr ! ?i)]" using R by simp
  have lf: "local_field ?p j t = (if j = ?i \<and> t = ?t then ?n - 1 else local_field p j t)" for j t
    using a(1) by (auto simp: local_field_def lr' nth_list_update field_release_entry)
  show same: "same_snapshots ?vl vl'" using R by (auto simp: same_snapshots_def)
  have "cache_ok ?vl j (lr' ! j)" if "j < length lr'" for j
  proof -
    have "cache_ok ?vl j (?lr ! j)" using pok that by (simp add: process_ok_def lr')
    then show ?thesis using a(2) that cache_release_entry by (cases "j = ?i") (auto simp: lr')
  qed
  moreover have "local_field ?p j t = held_count ?p j t" for j t
    using hc [of j t] pok by (auto simp: lf process_ok_def)
  moreover have "set (remove1 l (held p)) \<subseteq> set (held p)" by (rule set_remove1_subset)
  ultimately have p': "process_ok ?vl ?p" using pok by (auto simp: process_ok_def length_remove1)
  have pr: "present j t ?p = present j t p - of_bool (j = ?i \<and> t = ?t \<and> ?n = 1)" for j t
    using n pos by (auto simp: present_def lf)
  have "present ?i ?t p = 1" using n pos by (simp add: present_def)
  then have "1 \<le> sum_list (map (present ?i ?t) (processes s))" "sum_list (map (present ?i ?t) (processes s)) \<le> int (length (processes s))"
    using present_bounds(2) [of ?i ?t "processes s"] present_bounds(3) [of p "processes s" ?i ?t] nth_mem [OF k] p by simp_all
  moreover have "int (field_for_type (data ?vl ?i) ?t) = sum_list (map (present ?i ?t) (processes s))"
    using cok a(3) by (simp add: counts_ok_def)
  ultimately have sh: "0 < field_for_type (data ?vl ?i) ?t" "field_for_type (data ?vl ?i) ?t < 2 ^ 32" using few by simp_all
  have vl': "field_for_type (data vl' j) t = (if j = ?i \<and> t = ?t \<and> ?n = 1 then field_for_type (data ?vl j) t - 1 else field_for_type (data ?vl j) t)" for j t
    using R pos dec32_eq [OF sh] by (auto split: if_splits)
  show "system_ok \<lparr>shared = vl', processes = (processes s)[k := ?p]\<rparr>"
  proof (rule system_change [OF ok k same])
    show "process_ok vl' ?p" using p' same_snapshots_ok(3) [OF same] by simp
    show "int (field_for_type (data vl' j) t) - int (field_for_type (data ?vl j) t) = present j t ?p - present j t (processes s ! k)" for j t
      using sh by (auto simp: vl' pr p [symmetric])
    have "\<not> pending ?vl ?i" using ok sh(1) a(3) by (auto simp: system_ok_def list_ok_def)
    then show "field_for_type (data vl' j) t = field_for_type (data ?vl j) t" if "\<not> is_active (data vl' j) \<or> pending vl' j" for j t
      using that same a(5) by (auto simp: vl' same_snapshots_def is_active_def pending_def)
  qed
qed

end
