(* ===== verification/Version_System.thy ===== *)
theory Version_System
  imports Version_Locks
begin

text \<open>
  The version list shared by readers and writers: processes grab and release locks, the writer
  cleans up old versions and adds new ones, and a writer may die half way through an allocation.
  In every reachable state the counters agree with the locks held, and the snapshot of a held
  lock is in the list.
\<close>

subsection \<open>Adding versions and cleaning up\<close>

text \<open>A process is counted in the entries it has locks on, so an entry with locks has counts.\<close>

lemma counted:
  assumes ok: "system_ok s" and p: "p \<in> set (processes s)" and pos: "0 < local_field p i t"
  shows "i < entries (shared s)" "0 < field_for_type (data (shared s) i) t"
proof -
  have pok: "process_ok (shared s) p" using ok p by (simp add: system_ok_def)
  show i: "i < entries (shared s)" by (rule local_field_active(3) [OF pok pos])
  have "1 \<le> sum_list (map (present i t) (processes s))"
    using present_bounds(3) [OF p, of i t] pos by (simp add: present_def)
  moreover have "int (field_for_type (data (shared s) i) t) = sum_list (map (present i t) (processes s))"
    using ok i by (simp add: system_ok_def counts_ok_def)
  ultimately show "0 < field_for_type (data (shared s) i) t" by simp
qed

lemma lock_counted:
  assumes ok: "system_ok s" and p: "p \<in> set (processes s)" and l: "l \<in> set (held p)"
  shows "lock_ok (shared s) l" "0 < field_for_type (data (shared s) (m_reader_idx l)) (m_type l)" "\<not> pending (shared s) (m_reader_idx l)"
proof -
  have pok: "process_ok (shared s) p" using ok p by (simp add: system_ok_def)
  then show "lock_ok (shared s) l" using l by (simp add: process_ok_def)
  have "0 < held_count p (m_reader_idx l) (m_type l)" using held_count_remove1 [OF l, of "m_reader_idx l" "m_type l" "[]"] by simp
  then have pos: "0 < local_field p (m_reader_idx l) (m_type l)" using pok by (simp add: process_ok_def)
  show c: "0 < field_for_type (data (shared s) (m_reader_idx l)) (m_type l)" by (rule counted(2) [OF ok p pos])
  show "\<not> pending (shared s) (m_reader_idx l)" using counted(1) [OF ok p pos] c ok by (auto simp: system_ok_def list_ok_def)
qed

text \<open>The list may change wherever there are no counts.\<close>

lemma list_change:
  assumes ok: "system_ok s" and list: "list_ok vl" "entries (shared s) \<le> entries vl"
    and keep: "\<And>i t. i < entries (shared s) \<Longrightarrow> 0 < field_for_type (data (shared s) i) t \<Longrightarrow> data vl i = data (shared s) i"
    and zero: "\<And>i t. i < entries vl \<Longrightarrow> entries (shared s) \<le> i \<or> (\<forall>t. field_for_type (data (shared s) i) t = 0) \<Longrightarrow> field_for_type (data vl i) t = 0"
  shows "system_ok (s\<lparr>shared := vl\<rparr>)"
proof -
  have "process_ok vl p" if p: "p \<in> set (processes s)" for p
  proof -
    have pok: "process_ok (shared s) p" using ok p by (simp add: system_ok_def)
    have "lock_ok vl l" if "l \<in> set (held p)" for l
      using lock_counted(1,2) [OF ok p that] list(2) keep [of "m_reader_idx l"] by (auto simp: lock_ok_def)
    moreover have "cache_ok vl i (m_local_readers p ! i)" if i: "i < length (m_local_readers p)" for i
    proof (cases "is_active (m_local_readers p ! i)")
      case True
      moreover have c: "cache_ok (shared s) i (m_local_readers p ! i)" using pok i by (simp add: process_ok_def)
      ultimately obtain t where "0 < field_for_type (m_local_readers p ! i) t" by (auto simp: cache_ok_def)
      then have "0 < local_field p i t" using i by (simp add: local_field_def)
      from counted [OF ok p this] have "data vl i = data (shared s) i" by (rule keep)
      then show ?thesis using c True list(2) by (auto simp: cache_ok_def)
    next
      case False
      then show ?thesis using pok i by (auto simp: process_ok_def cache_ok_def)
    qed
    ultimately show ?thesis using pok by (simp add: process_ok_def)
  qed
  moreover have "counts_ok vl (processes s)"
    unfolding counts_ok_def
  proof (intro allI impI)
    fix i t assume i: "i < entries vl"
    show "int (field_for_type (data vl i) t) = sum_list (map (present i t) (processes s))"
    proof (cases "i < entries (shared s)")
      case True
      then have "field_for_type (data vl i) t = field_for_type (data (shared s) i) t"
        using keep [OF True] zero [OF i] by (metis neq0_conv)
      then show ?thesis using ok True by (simp add: system_ok_def counts_ok_def)
    next
      case False
      then have "present i t p = 0" if "p \<in> set (processes s)" for p
        using counted(1) [OF ok that, of i t] by (auto simp: present_def)
      then have "sum_list (map (present i t) (processes s)) = 0" by (rule sum_list_zero)
      then show ?thesis using zero [OF i, of t] False by simp
    qed
  qed
  ultimately show ?thesis using ok list(1) by (simp add: system_ok_def)
qed

text \<open>Filling an unused entry with a version newer than all others.\<close>

lemma fill_entry_ok:
  assumes list: "newest vl < entries vl" "list_ok (vl\<lparr>allocating := a\<rparr>)"
    and i: "i < entries vl" and free: "i \<noteq> newest vl" "\<not> is_active (data vl i) \<or> i = a" and pend: "a = newest vl \<or> a = i"
    and v: "version (data vl (newest vl)) < v" "v < max_version" and al: "allocating vl = i"
  shows "list_ok (fill_entry top_ref sz v i vl)" "\<And>t. field_for_type (data vl i) t = 0"
proof -
  let ?vl = "vl\<lparr>allocating := a\<rparr>" and ?vl' = "fill_entry top_ref sz v i vl"
  have L: "\<And>j k. j < entries vl \<Longrightarrow> k < entries vl \<Longrightarrow> \<not> pending ?vl j \<Longrightarrow> \<not> pending ?vl k \<Longrightarrow>
        is_active (data vl j) \<Longrightarrow> version (data vl j) = version (data vl k) \<Longrightarrow> j = k"
    "\<And>j. j < entries vl \<Longrightarrow> \<not> pending ?vl j \<Longrightarrow> version (data vl j) \<le> version (data vl (newest vl))"
    "\<And>j t. j < entries vl \<Longrightarrow> \<not> is_active (data vl j) \<or> pending ?vl j \<Longrightarrow> field_for_type (data vl j) t = 0"
    using list(2) unfolding list_ok_def by simp_all
  have pe: "pending ?vl j \<Longrightarrow> j = i" for j using pend free by (auto simp: pending_def)
  have np: "\<not> pending ?vl' j" for j using al by (simp add: pending_def fill_entry_def)
  show z: "field_for_type (data vl i) t = 0" for t using L(3) [OF i] free by (auto simp: pending_def)
  have d: "data ?vl' j = data vl j" if "j \<noteq> i" for j using that by (simp add: fill_entry_def)
  have di: "version (data ?vl' i) = v" "field_for_type (data ?vl' i) t = 0" for t
    using z [of t] by (simp add: fill_entry_def activate_def, cases t) (simp_all add: fill_entry_def activate_def)
  have fields: "entries ?vl' = entries vl" "newest ?vl' = i" "allocating ?vl' = i" using al by (simp_all add: fill_entry_def)
  have less: "version (data ?vl' j) < v" if "j < entries vl" "j \<noteq> i" for j
    using L(2) [OF that(1)] pe [of j] that d v(1) by force
  have "version (data ?vl' j) = version (data ?vl' k) \<Longrightarrow> is_active (data ?vl' j) \<Longrightarrow> j = k" if "j < entries vl" "k < entries vl" for j k
    proof (cases "j = i \<or> k = i")
    case True
    then show "version (data ?vl' j) = version (data ?vl' k) \<Longrightarrow> is_active (data ?vl' j) \<Longrightarrow> j = k"
      using less [OF that(1)] less [OF that(2)] di(1) by (metis less_irrefl)
  next
    case False
    then show "version (data ?vl' j) = version (data ?vl' k) \<Longrightarrow> is_active (data ?vl' j) \<Longrightarrow> j = k"
      using L(1) [OF that] pe d by metis
  qed
  moreover have "version (data ?vl' j) \<le> v" if "j < entries vl" for j using less [OF that] di(1) by (cases "j = i") auto
  moreover have "field_for_type (data ?vl' j) t = 0" if "j < entries vl" "\<not> is_active (data ?vl' j)" for j t
    using L(3) [OF that(1)] that d di by (cases "j = i") auto
  ultimately show "list_ok ?vl'"
    unfolding list_ok_def fields di(1) using np i v di(1) by (auto simp: is_active_def)
qed

lemma reserve_ok:
  assumes "list_ok vl" "entries vl \<le> sz"
  shows "list_ok (reserve sz vl)"
proof -
  have z: "field_for_type (deactivate r) t = 0" "version (deactivate r) = 0" "\<not> is_active (deactivate r)" for r t
    by (cases t) (simp_all add: deactivate_def is_active_def)
  have pe: "pending (reserve sz vl) i = pending vl i" for i by (simp add: pending_def reserve_data)
  note L = list_okD [OF assms(1)]
  have d: "data (reserve sz vl) i = (if i < entries vl then data vl i else deactivate (data vl i))" if "i < sz" for i
    using that by (simp add: reserve_data)
  have "i = j" if "i < sz" "j < sz" "\<not> pending vl i" "\<not> pending vl j" "is_active (data (reserve sz vl) i)"
      "version (data (reserve sz vl) i) = version (data (reserve sz vl) j)" for i j
    using that L(5) [of i j] z d by (auto simp: is_active_def split: if_splits)
  moreover have "version (data (reserve sz vl) i) \<le> version (data vl (newest vl))" if "i < sz" "\<not> pending vl i" for i
    using that L(6) z d by (auto split: if_splits)
  moreover have "field_for_type (data (reserve sz vl) i) t = 0" if "i < sz" "\<not> is_active (data (reserve sz vl) i) \<or> pending vl i" for i t
    using that L(2,7) z d by (auto split: if_splits)
  moreover have "data (reserve sz vl) (newest vl) = data vl (newest vl)" using d [of "newest vl"] L(1) assms(2) by simp
  ultimately show ?thesis unfolding list_ok_def pe using L(1-4) assms(2) by (auto simp: reserve_data)
qed

lemma try_allocate_ok:
  assumes list: "list_ok vl" and v: "version (data vl (newest vl)) < v" "v < max_version"
    and run: "try_allocate_entry top_ref sz v vl = Some vl'"
  shows "list_ok vl'" "entries vl' = entries vl" "version (data vl' (newest vl')) = v"
    "top_info (data vl' (newest vl')) = (top_ref, sz)"
    "\<And>i t. 0 < field_for_type (data vl i) t \<Longrightarrow> i < entries vl \<Longrightarrow> data vl' i = data vl i"
    "\<And>i t. i < entries vl \<Longrightarrow> (\<forall>t. field_for_type (data vl i) t = 0) \<Longrightarrow> field_for_type (data vl' i) t = 0"
proof -
  define k where "k = (if allocating vl = newest vl then first_free vl 0 else allocating vl)"
  have vl': "vl' = fill_entry top_ref sz v k (vl\<lparr>allocating := k\<rparr>)" and fr: "allocating vl = newest vl \<Longrightarrow> first_free vl 0 \<noteq> entries vl"
    using run by (auto simp: try_allocate_entry_def Let_def k_def split: if_splits)
  note L = list_okD [OF list] and F = first_free_spec [of 0 vl]
  have k_ok: "k < entries vl" "k \<noteq> newest vl" "is_active (data vl k) \<longrightarrow> k = allocating vl" "allocating vl = newest vl \<or> allocating vl = k"
    using F fr L(2,3) by (auto simp: k_def)
  note G = fill_entry_ok [where vl = "vl\<lparr>allocating := k\<rparr>" and a = "allocating vl" and i = k and v = v, simplified, OF L(1) list k_ok v]
  show "list_ok vl'" unfolding vl' by (rule G(1))
  show "entries vl' = entries vl" "version (data vl' (newest vl')) = v" "top_info (data vl' (newest vl')) = (top_ref, sz)"
    by (simp_all add: vl' fill_entry_def activate_def top_info_def)
  show "data vl' i = data vl i" if "0 < field_for_type (data vl i) t" for i t
    using that G(2) by (cases "i = k") (auto simp: vl' fill_entry_def)
  show "field_for_type (data vl' i) t = 0" if "\<forall>t. field_for_type (data vl i) t = 0" for i t
    using that by (cases t) (auto simp: vl' fill_entry_def activate_def all_fields)
qed

lemma add_version_ok:
  assumes ok: "system_ok s" and v: "version (data (shared s) (newest (shared s))) < v" "v < max_version"
    and run: "add_version top_ref sz v (shared s) = (i, vl')"
  shows "system_ok (s\<lparr>shared := vl'\<rparr>)" "i = newest vl'" "version (data vl' i) = v" "top_info (data vl' i) = (top_ref, sz)"
proof -
  let ?vl = "shared s" and ?vl2 = "reserve (entries (shared s) + 32) (shared s)"
  have list: "list_ok ?vl" using ok by (simp add: system_ok_def)
  have "system_ok (s\<lparr>shared := vl'\<rparr>) \<and> i = newest vl' \<and> version (data vl' i) = v \<and> top_info (data vl' i) = (top_ref, sz)"
  proof (cases "try_allocate_entry top_ref sz v ?vl")
    case (Some vl1)
    then have eq: "vl' = vl1" "i = newest vl1" using run by (auto simp: add_version_def)
    note A = try_allocate_ok [OF list v Some]
    have "system_ok (s\<lparr>shared := vl1\<rparr>)" using A by (intro list_change [OF ok]) (simp_all add: A)
    then show ?thesis using A eq by simp
  next
    case None
    have list2: "list_ok ?vl2" by (rule reserve_ok [OF list]) simp
    have n: "data ?vl2 (newest ?vl2) = data ?vl (newest ?vl)" using list_okD(1) [OF list] by (simp add: reserve_data)
    have "allocating ?vl = newest ?vl" using None by (auto simp: try_allocate_entry_def Let_def split: if_splits)
    moreover have "\<not> is_active (data ?vl2 (entries ?vl))" by (simp add: reserve_data deactivate_def is_active_def)
    then have "first_free ?vl2 0 \<noteq> entries ?vl2"
      using first_free_spec [of 0 ?vl2] by (auto simp: reserve_data(2))
    ultimately obtain vl1 where vl1: "try_allocate_entry top_ref sz v ?vl2 = Some vl1"
      by (simp add: try_allocate_entry_def Let_def reserve_data(2,3,4))
    then have eq: "vl' = vl1" "i = newest vl1" using run None by (auto simp: add_version_def)
    note A = try_allocate_ok [OF list2 v [folded n] vl1]
    have d: "data ?vl2 j = data ?vl j" if "j < entries ?vl" for j using that by (simp add: reserve_data)
    have z: "field_for_type (data ?vl2 j) t = 0" if "entries ?vl \<le> j" "j < entries ?vl2" for j t
      using that by (cases t) (simp_all add: reserve_data deactivate_def)
    have "system_ok (s\<lparr>shared := vl1\<rparr>)"
    proof (rule list_change [OF ok A(1)])
      show "entries ?vl \<le> entries vl1" by (simp add: A(2) reserve_data)
      show "data vl1 j = data ?vl j" if "j < entries ?vl" "0 < field_for_type (data ?vl j) t" for j t
        using that A(5) [of j t] d by (simp add: reserve_data(2))
      show "field_for_type (data vl1 j) t = 0"
        if "j < entries vl1" "entries ?vl \<le> j \<or> (\<forall>t. field_for_type (data ?vl j) t = 0)" for j t
        using that A(2) A(6) [of j t] d [of j] z [of j] by (cases "j < entries ?vl") auto
    qed
    then show ?thesis using A eq by simp
  qed
  then show "system_ok (s\<lparr>shared := vl'\<rparr>)" "i = newest vl'" "version (data vl' i) = v" "top_info (data vl' i) = (top_ref, sz)" by blast+
qed

text \<open>
  What \<^verbatim>\<open>purge_versions\<close> leaves of an entry: the partially filled and the unreachable ones are
  deactivated. An entry with counts is reachable.
\<close>

definition oldest_full :: "version_list \<Rightarrow> nat" where
  "oldest_full vl = fold (\<lambda>i. full_step (data vl i)) [0..<entries vl] max_version"

lemma recover_data:
  "data (recover_allocating vl) i = (if pending vl i then deactivate (data vl i) else data vl i)"
  "entries (recover_allocating vl) = entries vl" "newest (recover_allocating vl) = newest vl" "allocating (recover_allocating vl) = allocating vl"
  by (auto simp: recover_allocating_def pending_def)

lemma reachable_field:
  assumes "0 < field_for_type (data vl i) t" "i < entries vl" "is_active (data vl i)"
  shows "reachable (oldest_full vl) (data vl i)" "t \<noteq> Frozen \<Longrightarrow> count_live (data vl i) \<noteq> 0 \<or> oldest_full vl \<le> version (data vl i)"
proof -
  have "oldest_full vl \<le> version (data vl i)" if "t = Full"
    using assms that unfolding oldest_full_def by (intro full_fold_bound) simp_all
  then show "reachable (oldest_full vl) (data vl i)" "t \<noteq> Frozen \<Longrightarrow> count_live (data vl i) \<noteq> 0 \<or> oldest_full vl \<le> version (data vl i)"
    using assms by (cases t; auto simp: reachable_def)+
qed

lemma purge_list:
  assumes list: "list_ok vl" and run: "purge_versions [] vl = (ol, tops, unreach, vl')" and new: "0 < field_for_type (data vl (newest vl)) t"
  shows "list_ok vl'" "entries vl' = entries vl" "newest vl' = newest vl" "allocating vl' = allocating vl"
    "\<And>i t. i < entries vl \<Longrightarrow> 0 < field_for_type (data vl i) t \<Longrightarrow> data vl' i = data vl i"
    "\<And>i t. field_for_type (data vl i) t = 0 \<Longrightarrow> field_for_type (data vl' i) t = 0"
proof -
  let ?R = "recover_allocating vl" and ?f = "oldest_full (recover_allocating vl)"
  note L = list_okD [OF list]
  let ?ov = "fst (hd tops)"
  have "fold (free_step ?f ?ov) [0..<entries ?R] (False, ?R) = (unreach, vl')"
    using run by (auto simp: purge_versions_def Let_def oldest_full_def split: prod.splits)
  from arg_cong [OF this, of snd] have vl': "vl' = snd (fold (free_step ?f ?ov) [0..<entries ?R] (False, ?R))" by simp
  show fields: "entries vl' = entries vl" "newest vl' = newest vl" "allocating vl' = allocating vl"
    by (simp_all add: vl' free_fold_fields recover_data)
  have d: "data vl' i = (if i < entries vl \<and> becomes_unreachable ?f (data ?R i) then data (free_entry i ?R) i else data ?R i)" for i
    by (simp add: vl' free_fold recover_data(2))
  have dz: "field_for_type (deactivate r) u = 0" "version (deactivate r) = 0" for r u by (cases u; simp add: deactivate_def)+
  have freed: "field_for_type (data (free_entry i ?R) i) u = 0" "version (data (free_entry i ?R) i) = 0" for i u
    by (simp_all add: free_entry_def dz)
  show keep: "data vl' i = data vl i" if i: "i < entries vl" and pos: "0 < field_for_type (data vl i) u" for i u
  proof -
    have a: "is_active (data vl i)" "\<not> pending vl i" using L(7) [OF i, of u] pos by auto
    then have r: "data ?R i = data vl i" by (simp add: recover_data)
    have "reachable ?f (data ?R i)" using pos a(1) i by (intro reachable_field(1) [where t = u]) (simp_all add: r recover_data(2))
    then have "\<not> becomes_unreachable ?f (data ?R i)" by (auto simp: reachable_def becomes_unreachable_def)
    then show ?thesis by (simp add: d r)
  qed
  show zero: "field_for_type (data vl' i) u = 0" if "field_for_type (data vl i) u = 0" for i u
    using that by (simp add: d freed(1) recover_data(1) dz(1))
  have other: "version (data vl' i) = 0 \<or> data vl' i = data vl i" for i
    by (simp add: d freed(2) recover_data(1) dz(2))
  have n: "data vl' (newest vl) = data vl (newest vl)" by (rule keep [OF L(1) new])
  have pe: "pending vl' = pending vl" by (simp add: pending_def fun_eq_iff fields)
  have "i = j" if "i < entries vl" "j < entries vl" "\<not> pending vl i" "\<not> pending vl j" "is_active (data vl' i)"
      "version (data vl' i) = version (data vl' j)" for i j
    using L(5) [OF that(1-4)] that(5,6) other [of i] other [of j] unfolding is_active_def by metis
  moreover have "version (data vl' i) \<le> version (data vl (newest vl))" if "i < entries vl" "\<not> pending vl i" for i
    using L(6) [OF that] other [of i] by auto
  moreover have "field_for_type (data vl' i) u = 0" if "i < entries vl" "\<not> is_active (data vl' i) \<or> pending vl i" for i u
    using L(7) [OF that(1), of u] keep [OF that(1), of u] that(2) zero [of i u] by (cases "0 < field_for_type (data vl i) u") auto
  ultimately show "list_ok vl'" unfolding list_ok_def fields n pe using L(1-4) by simp
qed

lemma purge_tops:
  assumes list: "list_ok vl" and run: "purge_versions [] vl = (ol, tops, unreach, vl')"
    and i: "i < entries vl" "0 < field_for_type (data vl i) t"
  shows "(version (data vl i), top_info (data vl i)) \<in> set tops" "t \<noteq> Frozen \<Longrightarrow> ol \<le> version (data vl i)"
    "sorted_wrt (<) (map fst tops)"
proof -
  let ?R = "recover_allocating vl" and ?f = "oldest_full (recover_allocating vl)"
  note L = list_okD [OF list]
  have a: "is_active (data vl i)" "\<not> pending vl i" using L(7) [OF i(1), of t] i(2) by auto
  then have r: "data ?R i = data vl i" by (simp add: recover_data)
  have fst_snd: "(ol, tops) = fold (\<lambda>i. reach_step ?f (data ?R i)) [0..<entries ?R] (max_version, [])"
    using run by (auto simp: purge_versions_def Let_def oldest_full_def recover_data split: prod.splits)
  have R: "reachable ?f (data ?R i)" "t \<noteq> Frozen \<Longrightarrow> count_live (data ?R i) \<noteq> 0 \<or> ?f \<le> version (data ?R i)"
    using reachable_field [of ?R i t] i a(1) by (simp_all add: r recover_data(2))
  have act: "\<not> pending vl j" if "is_active (data ?R j)" for j
    using that by (auto simp: recover_data deactivate_def is_active_def split: if_splits)
  have dist: "j = k" if "j \<in> set [0..<entries ?R]" "k \<in> set [0..<entries ?R]" "is_active (data ?R j)" "is_active (data ?R k)"
      "version (data ?R j) = version (data ?R k)" for j k
    using L(5) [of j k] act [OF that(3)] act [OF that(4)] that by (simp add: recover_data)
  have "(version (data ?R i), top_info (data ?R i)) \<in> set (snd (ol, tops))"
    unfolding fst_snd by (rule reach_fold_exact [OF dist]) (use R(1) i in \<open>simp_all add: recover_data(2)\<close>)
  then show "(version (data vl i), top_info (data vl i)) \<in> set tops" by (simp add: r)
  show "ol \<le> version (data vl i)" if "t \<noteq> Frozen"
  proof -
    have "fst (ol, tops) \<le> version (data ?R i)"
      unfolding fst_snd by (rule reach_fold_live) (use R(2) [OF that] a(1) i(1) in \<open>simp_all add: r recover_data(2)\<close>)
    then show ?thesis by (simp add: r)
  qed
  show "sorted_wrt (<) (map fst tops)" using reach_fold_sorted [of "(max_version, [])" ?f "data ?R" "[0..<entries ?R]"]
    by (simp add: fst_snd [symmetric])
qed

text \<open>
  A writer that dies inside \<^verbatim>\<open>try_allocate_entry\<close>: \<open>allocating\<close> has been stored, some of the
  three stores to the entry have happened, and \<open>newest\<close> has not been stored.
\<close>

definition interrupted_entry :: "bool \<Rightarrow> bool \<Rightarrow> bool \<Rightarrow> nat \<Rightarrow> nat \<Rightarrow> nat \<Rightarrow> read_count \<Rightarrow> read_count" where
  "interrupted_entry b1 b2 b3 top_ref sz v rc =
     (let rc = (if b1 then rc\<lparr>current_top := top_ref\<rparr> else rc);
          rc = (if b2 then rc\<lparr>filesize := sz\<rparr> else rc)
      in if b3 then activate v rc else rc)"

definition interrupted_allocation ::
  "bool \<Rightarrow> bool \<Rightarrow> bool \<Rightarrow> nat \<Rightarrow> nat \<Rightarrow> nat \<Rightarrow> version_list \<Rightarrow> version_list option" where
  "interrupted_allocation b1 b2 b3 top_ref sz v vl =
     (let i = (if allocating vl = newest vl then first_free vl 0 else allocating vl)
      in if i = entries vl then None
         else Some (vl\<lparr>allocating := i, data := (data vl)(i := interrupted_entry b1 b2 b3 top_ref sz v (data vl i))\<rparr>))"

lemma interrupted_ok:
  assumes ok: "system_ok s" and run: "interrupted_allocation b1 b2 b3 top_ref sz v (shared s) = Some vl'"
  shows "system_ok (s\<lparr>shared := vl'\<rparr>)"
proof -
  let ?vl = "shared s"
  define k where "k = (if allocating ?vl = newest ?vl then first_free ?vl 0 else allocating ?vl)"
  have list: "list_ok ?vl" using ok by (simp add: system_ok_def)
  note L = list_okD [OF list] and F = first_free_spec [of 0 ?vl]
  have vl': "vl' = ?vl\<lparr>allocating := k, data := (data ?vl)(k := interrupted_entry b1 b2 b3 top_ref sz v (data ?vl k))\<rparr>"
    and fr: "k \<noteq> entries ?vl"
    using run by (auto simp: interrupted_allocation_def Let_def k_def split: if_splits)
  have k: "k < entries ?vl" "k \<noteq> newest ?vl" "\<not> is_active (data ?vl k) \<or> pending ?vl k" 
    using F fr L(2,3) by (auto simp: k_def pending_def)
  have z: "field_for_type (data ?vl k) t = 0" for t by (rule L(7) [OF k(1,3)])
  have f: "field_for_type (interrupted_entry b1 b2 b3 top_ref sz v rc) t = field_for_type rc t" for rc t
    by (cases t) (simp_all add: interrupted_entry_def activate_def)
  have pe: "pending vl' j \<longleftrightarrow> j = k" for j using k(2) by (auto simp: pending_def vl')
  have pk: "pending ?vl j \<Longrightarrow> j = k" for j by (auto simp: pending_def k_def)
  have d: "j \<noteq> k \<Longrightarrow> data vl' j = data ?vl j" "field_for_type (data vl' j) t = field_for_type (data ?vl j) t" for j t
    by (simp_all add: vl' f)
  have n: "data vl' (newest ?vl) = data ?vl (newest ?vl)" using k(2) d(1) by metis
  have fields: "entries vl' = entries ?vl" "newest vl' = newest ?vl" "allocating vl' = k" by (simp_all add: vl')
  have "i = j" if "i < entries ?vl" "j < entries ?vl" "i \<noteq> k" "j \<noteq> k" "is_active (data vl' i)" "version (data vl' i) = version (data vl' j)" for i j
    using L(5) [OF that(1,2)] that pk d(1) by metis
  moreover have "version (data vl' i) \<le> version (data ?vl (newest ?vl))" if "i < entries ?vl" "i \<noteq> k" for i
    using L(6) [OF that(1)] that pk d(1) by metis
  moreover have "field_for_type (data vl' i) t = 0" if "i < entries ?vl" "\<not> is_active (data vl' i) \<or> i = k" for i t
    using L(7) [OF that(1)] that d z by (cases "i = k") auto
  ultimately have "list_ok vl'" unfolding list_ok_def fields n pe using L(1,3,4) k(1) by simp
  then show ?thesis
  proof (rule list_change [OF ok])
    show "data vl' i = data ?vl i" if "0 < field_for_type (data ?vl i) t" for i t using that z d(1) by (cases "i = k") auto
  qed (auto simp: fields d(2))
qed

subsection \<open>The reachable states\<close>

definition start_process :: process where
  "start_process = \<lparr>m_local_readers = [], held = []\<rparr>"

definition held_newest :: "version_system \<Rightarrow> bool" where
  "held_newest s \<longleftrightarrow> (\<exists>p\<in>set (processes s). \<exists>l\<in>set (held p). m_reader_idx l = newest (shared s))"

inductive version_run :: "version_system \<Rightarrow> bool" where
  init: "init_versioning top_ref sz v vl = Some vl' \<Longrightarrow> 0 < v \<Longrightarrow> v < max_version \<Longrightarrow> 0 < entries vl \<Longrightarrow> n < 2 ^ 32 \<Longrightarrow>
    version_run \<lparr>shared = vl', processes = replicate n start_process\<rparr>"
| grab: "version_run s \<Longrightarrow> k < length (processes s) \<Longrightarrow> p = processes s ! k \<Longrightarrow> length (held p) < 2 ^ 32 - 1 \<Longrightarrow>
    request_index vid (shared s) < entries (shared s) \<Longrightarrow>
    grab_read_lock t vid (shared s) (m_local_readers p) = Inr (l, vl', lr') \<Longrightarrow>
    version_run \<lparr>shared = vl', processes = (processes s)[k := \<lparr>m_local_readers = lr', held = l # held p\<rparr>]\<rparr>"
| release: "version_run s \<Longrightarrow> k < length (processes s) \<Longrightarrow> p = processes s ! k \<Longrightarrow> l \<in> set (held p) \<Longrightarrow>
    release_read_lock l (shared s) (m_local_readers p) = (vl', lr') \<Longrightarrow>
    version_run \<lparr>shared = vl', processes = (processes s)[k := \<lparr>m_local_readers = lr', held = remove1 l (held p)\<rparr>]\<rparr>"
| add: "version_run s \<Longrightarrow> version (data (shared s) (newest (shared s))) < v \<Longrightarrow> v < max_version \<Longrightarrow>
    add_version top_ref sz v (shared s) = (i, vl') \<Longrightarrow> version_run (s\<lparr>shared := vl'\<rparr>)"
| crash: "version_run s \<Longrightarrow> interrupted_allocation b1 b2 b3 top_ref sz v (shared s) = Some vl' \<Longrightarrow> version_run (s\<lparr>shared := vl'\<rparr>)"
| cleanup: "version_run s \<Longrightarrow> held_newest s \<Longrightarrow> cleanup_versions (shared s) = (ol, tops, unreach, vl') \<Longrightarrow>
    version_run (s\<lparr>shared := vl'\<rparr>)"

lemma init_ok:
  assumes "init_versioning top_ref sz v vl = Some vl'" "0 < v" "v < max_version" "0 < entries vl" "n < 2 ^ 32"
  shows "system_ok \<lparr>shared = vl', processes = replicate n start_process\<rparr>"
proof -
  let ?vl = "vl\<lparr>newest := nil, allocating := 0, entries := 0\<rparr>"
  have vl': "vl' = fill_entry top_ref sz v 0 (reserve (entries vl) ?vl)"
    using assms(1) by (simp add: init_versioning_def Let_def try_allocate_entry_def reserve_data nil_def)
  have z: "field_for_type (data vl' i) t = 0" "version (data vl' i) = (if i = 0 then v else 0)" if "i < entries vl" for i t
    using that by (cases t; simp add: vl' fill_entry_def reserve_data activate_def deactivate_def)+
  have f: "entries vl' = entries vl" "newest vl' = 0" "allocating vl' = 0"
    by (simp_all add: vl' fill_entry_def reserve_data)
  have "list_ok vl'" unfolding list_ok_def f pending_def
    using z assms(2-4) by (auto simp: is_active_def split: if_splits)
  moreover have "sum_list (map (present i t) (replicate n start_process)) = 0" for i t
    by (rule sum_list_zero) (simp add: start_process_def present_def local_field_def)
  moreover have "process_ok vl' start_process"
    by (simp add: process_ok_def start_process_def local_field_def held_count_def)
  ultimately show ?thesis using assms(5) z by (simp add: system_ok_def counts_ok_def f)
qed

lemma cleanup_ok:
  assumes ok: "system_ok s" and new: "held_newest s" and run: "cleanup_versions (shared s) = (ol, tops, unreach, vl')"
  shows "system_ok (s\<lparr>shared := vl'\<rparr>)"
proof -
  obtain p l where p: "p \<in> set (processes s)" "l \<in> set (held p)" "m_reader_idx l = newest (shared s)"
    using new by (auto simp: held_newest_def)
  have list: "list_ok (shared s)" using ok by (simp add: system_ok_def)
  note P = purge_list [OF list run [unfolded cleanup_versions_def] lock_counted(2) [OF ok p(1,2), unfolded p(3)]]
  show ?thesis using P(2,5,6) by (intro list_change [OF ok P(1)]) auto
qed

lemma version_run_ok: "version_run s \<Longrightarrow> system_ok s"
  by (induction rule: version_run.induct)
    (blast intro: init_ok release_ok(1) add_version_ok(1) interrupted_ok cleanup_ok dest: grab_ok)+

subsection \<open>Properties\<close>

lemma present_held:
  assumes "process_ok vl p"
  shows "present i t p = of_bool (\<exists>l\<in>set (held p). m_reader_idx l = i \<and> m_type l = t)"
proof -
  have "0 < held_count p i t \<longleftrightarrow> (\<exists>l\<in>set (held p). m_reader_idx l = i \<and> m_type l = t)"
    by (auto simp: held_count_def filter_empty_conv)
  then show ?thesis using assms by (simp add: present_def process_ok_def)
qed

lemma sum_list_of_bool: "sum_list (map (\<lambda>x. of_bool (P x)) xs) = int (length (filter P xs))"
  by (induction xs) auto

lemma lock_okD:
  assumes "lock_ok vl l"
  shows "m_reader_idx l < entries vl" "version (data vl (m_reader_idx l)) = m_version l"
    "top_info (data vl (m_reader_idx l)) = (m_top_ref l, m_file_size l)"
  using assms by (simp_all add: lock_ok_def top_info_def)

text \<open>
  A run of two versions: a process locks the first one, a second version is added, and the process
  locks it as well.
\<close>

definition demo_list :: version_list where
  "demo_list = \<lparr>entries = 2, allocating = 0, newest = 0, data = (\<lambda>_. zero_read_count)\<rparr>"

definition demo_rc :: "nat \<Rightarrow> nat \<Rightarrow> nat \<Rightarrow> nat \<Rightarrow> read_count" where
  "demo_rc v sz tp n = \<lparr>version = v, filesize = sz, current_top = tp, count_live = n, count_frozen = 0, count_full = 0\<rparr>"

definition demo_lock1 :: read_lock_info where
  "demo_lock1 = \<lparr>m_version = 1, m_reader_idx = 0, m_top_ref = 24, m_file_size = 4096, m_type = Live\<rparr>"

definition demo_lock2 :: read_lock_info where
  "demo_lock2 = \<lparr>m_version = 2, m_reader_idx = 1, m_top_ref = 64, m_file_size = 8192, m_type = Live\<rparr>"

definition demo_system :: version_system where
  "demo_system = \<lparr>shared = \<lparr>entries = 2, allocating = 1, newest = 1,
       data = (\<lambda>_. zero_read_count)(0 := demo_rc 1 4096 24 1, 1 := demo_rc 2 8192 64 1)\<rparr>,
     processes = [\<lparr>m_local_readers = [demo_rc 1 4096 24 1, demo_rc 2 8192 64 1], held = [demo_lock2, demo_lock1]\<rparr>]\<rparr>"

lemma first_free_0 [simp]: "\<not> is_active (data vl k) \<Longrightarrow> first_free vl k = k"
  by (subst first_free.simps) simp

lemma demo_run: "version_run demo_system"
proof -
  note evs = demo_list_def demo_rc_def start_process_def request_index_def zero_read_count_def default_version_id_def
      try_grab_local_read_lock_def grab_read_lock_def populate_read_lock_def enter_local_def grow_local_cache_def inc32_def
      is_active_def deactivate_def activate_def fill_entry_def max_version_def Let_def fun_eq_iff
  define vl1 where "vl1 = \<lparr>entries = 2, allocating = 0, newest = 0, data = (\<lambda>_. zero_read_count)(0 := demo_rc 1 4096 24 0)\<rparr>"
  define vl2 where "vl2 = vl1\<lparr>data := (data vl1)(0 := demo_rc 1 4096 24 1)\<rparr>"
  define vl3 where "vl3 = \<lparr>entries = 2, allocating = 1, newest = 1, data = (data vl2)(1 := demo_rc 2 8192 64 0)\<rparr>"
  have "init_versioning 24 4096 1 demo_list = Some vl1"
    by (simp add: init_versioning_def try_allocate_entry_def reserve_def nil_def vl1_def upt_rec evs)
  from version_run.init [OF this, of 1] have r1: "version_run \<lparr>shared = vl1, processes = [start_process]\<rparr>" by (simp add: max_version_def demo_list_def)
  have "grab_read_lock Live default_version_id vl1 [] = Inr (demo_lock1, vl2, [demo_rc 1 4096 24 1])"
    by (simp add: evs vl1_def vl2_def demo_lock1_def)
  from version_run.grab [OF r1 _ refl, of 0 default_version_id Live demo_lock1 vl2 "[demo_rc 1 4096 24 1]"] this
  have r2: "version_run \<lparr>shared = vl2, processes = [\<lparr>m_local_readers = [demo_rc 1 4096 24 1], held = [demo_lock1]\<rparr>]\<rparr>"
    by (simp add: start_process_def request_index_def default_version_id_def) (simp add: vl1_def)
  have "first_free vl2 0 = 1" by (subst first_free.simps) (simp add: evs vl1_def vl2_def)
  then have "add_version 64 8192 2 vl2 = (1, vl3)"
    by (simp add: add_version_def try_allocate_entry_def Let_def) (simp add: evs vl1_def vl2_def vl3_def)
  from version_run.add [OF r2, of 2 64 8192 1 vl3] this
  have r3: "version_run \<lparr>shared = vl3, processes = [\<lparr>m_local_readers = [demo_rc 1 4096 24 1], held = [demo_lock1]\<rparr>]\<rparr>"
    by (simp add: max_version_def) (simp add: vl1_def vl2_def demo_rc_def)
  have "grab_read_lock Live default_version_id vl3 [demo_rc 1 4096 24 1] = Inr (demo_lock2, shared demo_system, [demo_rc 1 4096 24 1, demo_rc 2 8192 64 1])"
    by (simp add: evs vl1_def vl2_def vl3_def demo_lock2_def demo_system_def)
  from version_run.grab [OF r3 _ refl, of 0 default_version_id Live demo_lock2 "shared demo_system" "[demo_rc 1 4096 24 1, demo_rc 2 8192 64 1]"] this
  show ?thesis by (simp add: request_index_def default_version_id_def) (simp add: vl3_def demo_system_def)
qed

lemma demo_facts:
  "held (processes demo_system ! 0) = [demo_lock2, demo_lock1]"
  "entries (shared demo_system) = 2" "newest (shared demo_system) = 1" "allocating (shared demo_system) = 1"
  "data (shared demo_system) 0 = demo_rc 1 4096 24 1" "data (shared demo_system) (Suc 0) = demo_rc 2 8192 64 1"
  "m_local_readers (processes demo_system ! 0) = [demo_rc 1 4096 24 1, demo_rc 2 8192 64 1]"
  by (simp_all add: demo_system_def)

text \<open>
  C7: whatever the processes do, and even if writers die while they add a version, the entry of a
  version on which some process holds a read lock stays in the version list: it still has the
  version, the top ref and the file size the lock was granted for, and its counter is not zero.
\<close>

theorem held_snapshot_safe:
  assumes "version_run s" "p \<in> set (processes s)" "l \<in> set (held p)"
  shows "m_reader_idx l < entries (shared s) \<and> version (data (shared s) (m_reader_idx l)) = m_version l \<and>
    top_info (data (shared s) (m_reader_idx l)) = (m_top_ref l, m_file_size l) \<and>
    0 < field_for_type (data (shared s) (m_reader_idx l)) (m_type l)"
  using lock_counted(1,2) [OF version_run_ok [OF assms(1)] assms(2,3)] lock_okD by blast

theorem held_snapshot_safe_witness:
  "version (data (shared demo_system) 0) = 1 \<and> 0 < count_live (data (shared demo_system) 0)"
proof -
  have "processes demo_system ! 0 \<in> set (processes demo_system)" "demo_lock1 \<in> set (held (processes demo_system ! 0))"
    by (simp_all add: demo_system_def)
  from held_snapshot_safe [OF demo_run this] show ?thesis by (simp add: demo_lock1_def)
qed

text \<open>
  C8: while a lock on the newest version is held, \<^verbatim>\<open>cleanup_versions\<close> reports every locked version
  among the reachable ones, with its top ref and file size, reports no oldest live version that is
  younger than a live or full lock, and leaves the entries of the locked versions as they are.
\<close>

theorem cleanup_reports_held:
  assumes run: "version_run s" "held_newest s" and cl: "cleanup_versions (shared s) = (oldest_live, tops, unreach, vl')"
    and l: "p \<in> set (processes s)" "l \<in> set (held p)"
  shows "(m_version l, m_top_ref l, m_file_size l) \<in> set tops \<and> (m_type l \<noteq> Frozen \<longrightarrow> oldest_live \<le> m_version l) \<and>
    sorted_wrt (<) (map fst tops) \<and> data vl' (m_reader_idx l) = data (shared s) (m_reader_idx l)"
proof -
  note ok = version_run_ok [OF run(1)]
  have list: "list_ok (shared s)" using ok by (simp add: system_ok_def)
  note cl = cl [unfolded cleanup_versions_def] and c = lock_counted [OF ok l] and lk = lock_okD [OF lock_counted(1) [OF ok l]]
  obtain q k where q: "q \<in> set (processes s)" "k \<in> set (held q)" "m_reader_idx k = newest (shared s)"
    using run(2) by (auto simp: held_newest_def)
  note keep = purge_list(5) [OF list cl lock_counted(2) [OF ok q(1,2), unfolded q(3)] lk(1) c(2)]
  show ?thesis using purge_tops [OF list cl lk(1) c(2)] keep lk(2,3) by simp
qed

theorem cleanup_reports_held_witness:
  "(1, 24, 4096) \<in> set (fst (snd (cleanup_versions (shared demo_system))))"
proof -
  have p: "processes demo_system ! 0 \<in> set (processes demo_system)" "demo_lock1 \<in> set (held (processes demo_system ! 0))"
    "held_newest demo_system"
    by (simp_all add: demo_system_def held_newest_def demo_lock2_def)
  obtain a b c d where "cleanup_versions (shared demo_system) = (a, b, c, d)" by (cases "cleanup_versions (shared demo_system)")
  from cleanup_reports_held [OF demo_run p(3) this p(1,2)] this show ?thesis by (simp add: demo_lock1_def)
qed

text \<open>
  C19: in every reachable state each counter of the version list is the number of processes that
  hold at least one lock of its kind on its version, so that a version no process holds a lock on
  has counters zero and can be cleaned up.
\<close>

theorem counters_exact:
  assumes "version_run s" "i < entries (shared s)"
  shows "field_for_type (data (shared s) i) t =
    length (filter (\<lambda>p. \<exists>l\<in>set (held p). m_reader_idx l = i \<and> m_type l = t) (processes s))"
proof -
  let ?P = "\<lambda>p. \<exists>l\<in>set (held p). m_reader_idx l = i \<and> m_type l = t"
  have ok: "system_ok s" by (rule version_run_ok [OF assms(1)])
  then have m: "map (present i t) (processes s) = map (\<lambda>p. of_bool (?P p)) (processes s)"
    by (intro map_cong refl present_held [of "shared s"]) (simp add: system_ok_def)
  have "int (field_for_type (data (shared s) i) t) = sum_list (map (present i t) (processes s))"
    using ok assms(2) by (simp add: system_ok_def counts_ok_def)
  also have "\<dots> = int (length (filter ?P (processes s)))" unfolding m by (rule sum_list_of_bool)
  finally show ?thesis by simp
qed

theorem counters_exact_witness:
  "count_live (data (shared demo_system) 1) = 1 \<and> count_full (data (shared demo_system) 1) = 0"
proof -
  have i: "1 < entries (shared demo_system)" by (simp add: demo_facts)
  have "length (filter (\<lambda>p. \<exists>l\<in>set (held p). m_reader_idx l = 1 \<and> m_type l = t) (processes demo_system)) = of_bool (t = Live)" for t
    by (auto simp: demo_system_def demo_lock1_def demo_lock2_def)
  from counters_exact [OF demo_run i, unfolded this, of Live] counters_exact [OF demo_run i, unfolded this, of Full]
  show ?thesis by simp
qed

text \<open>
  C25: a request for the newest version is always granted: it returns a lock with the version, the
  top ref and the file size of the newest entry, and the system stays in a reachable state.
\<close>

theorem newest_lock_granted:
  assumes "version_run s" "k < length (processes s)" "p = processes s ! k" "length (held p) < 2 ^ 32 - 1"
  shows "\<exists>l vl' lr'. grab_read_lock t default_version_id (shared s) (m_local_readers p) = Inr (l, vl', lr') \<and>
    m_type l = t \<and> m_reader_idx l = newest (shared s) \<and> m_version l = version (data (shared s) (newest (shared s))) \<and>
    (m_top_ref l, m_file_size l) = top_info (data (shared s) (newest (shared s))) \<and>
    version_run \<lparr>shared = vl', processes = (processes s)[k := \<lparr>m_local_readers = lr', held = l # held p\<rparr>]\<rparr>"
proof -
  have ok: "system_ok s" by (rule version_run_ok [OF assms(1)])
  have "\<exists>l vl' lr'. grab_read_lock t default_version_id (shared s) (m_local_readers p) = Inr (l, vl', lr')"
    by (auto simp: grab_read_lock_def default_version_id_def Let_def populate_read_lock_def split: option.splits)
  then obtain l vl' lr' where g: "grab_read_lock t default_version_id (shared s) (m_local_readers p) = Inr (l, vl', lr')" by blast
  have idx: "request_index default_version_id (shared s) = newest (shared s)" "newest (shared s) < entries (shared s)"
    using ok list_okD(1) by (auto simp: request_index_def default_version_id_def system_ok_def)
  note G = grab_ok [OF ok assms(2-4) _ g, unfolded idx(1), OF idx(2)]
  have "lock_ok vl' l"
    using lock_counted(1) [OF conjunct1 [OF G], of "\<lparr>m_local_readers = lr', held = l # held p\<rparr>" l] set_update_memI [OF assms(2)] by simp
  then have "lock_ok (shared s) l" using G same_snapshots_ok(1) by blast
  then have lk: "m_version l = version (data (shared s) (newest (shared s)))" "(m_top_ref l, m_file_size l) = top_info (data (shared s) (newest (shared s)))"
    using lock_okD(2,3) [of "shared s" l] G by auto
  have "version_run \<lparr>shared = vl', processes = (processes s)[k := \<lparr>m_local_readers = lr', held = l # held p\<rparr>]\<rparr>"
    by (rule version_run.grab [OF assms _ g]) (simp add: idx)
  then show ?thesis using g G lk by blast
qed

theorem newest_lock_granted_witness:
  "\<exists>l vl' lr'. grab_read_lock Frozen default_version_id (shared demo_system) (m_local_readers (processes demo_system ! 0)) = Inr (l, vl', lr') \<and>
    m_version l = 2 \<and> m_top_ref l = 64"
proof -
  have "0 < length (processes demo_system)" "length (held (processes demo_system ! 0)) < 2 ^ 32 - 1" by (simp_all add: demo_system_def)
  from newest_lock_granted [OF demo_run this(1) refl this(2), of Frozen] obtain l vl' lr' where
    g: "grab_read_lock Frozen default_version_id (shared demo_system) (m_local_readers (processes demo_system ! 0)) = Inr (l, vl', lr')"
    and "m_version l = version (data (shared demo_system) (newest (shared demo_system)))"
      "(m_top_ref l, m_file_size l) = top_info (data (shared demo_system) (newest (shared demo_system)))" by blast
  then have "m_version l = 2 \<and> m_top_ref l = 64" by (simp add: demo_facts(3,6) demo_rc_def top_info_def)
  then show ?thesis using g by blast
qed

text \<open>
  C27: a request for a given version fails, with \<^verbatim>\<open>BadVersion\<close>, exactly when the entry has another
  version, or when it is not the newest one, the process has no lock of the kind on it, and no
  process has a live lock on it (nor a frozen one, when a frozen lock is asked for).
\<close>

theorem bad_version_exact:
  assumes "version_run s" "p \<in> set (processes s)" "vid_version vid \<noteq> max_version"
  shows "grab_read_lock t vid (shared s) (m_local_readers p) = Inl e \<longleftrightarrow>
    e = BadVersion (vid_version vid) \<and>
    (version (data (shared s) (vid_index vid)) \<noteq> vid_version vid \<or>
     vid_index vid \<noteq> newest (shared s) \<and> held_count p (vid_index vid) t = 0 \<and> count_live (data (shared s) (vid_index vid)) = 0 \<and>
       (t = Frozen \<longrightarrow> count_frozen (data (shared s) (vid_index vid)) = 0))"
proof -
  let ?i = "vid_index vid" and ?v = "vid_version vid" and ?r = "data (shared s) (vid_index vid)" and ?lr = "m_local_readers p"
  have pok: "process_ok (shared s) p" using version_run_ok [OF assms(1)] assms(2) by (simp add: system_ok_def)
  have lf: "local_field p ?i t = held_count p ?i t" using pok by (simp add: process_ok_def)
  have loc: "(try_grab_local_read_lock t vid (shared s) ?lr = None) = (version ?r \<noteq> ?v \<or> held_count p ?i t = 0)"
  proof (cases "0 < local_field p ?i t")
    case True
    note a = local_field_active [OF pok True]
    have "field_for_type (?lr ! ?i) t \<noteq> 0" using True a(1) by (simp add: local_field_def)
    then show ?thesis using True a lf assms(3)
      by (auto simp: try_grab_local_read_lock_def Let_def split: prod.splits)
  next
    case False
    then have "\<not> ?i \<ge> length ?lr \<Longrightarrow> field_for_type (?lr ! ?i) t = 0" by (auto simp: local_field_def split: if_splits)
    then show ?thesis using False lf assms(3) by (auto simp: try_grab_local_read_lock_def Let_def)
  qed
  show ?thesis
  proof (cases "try_grab_local_read_lock t vid (shared s) ?lr")
    case (Some q)
    then show ?thesis using loc by (cases q) (auto simp: grab_read_lock_def)
  next
    case None
    then show ?thesis using loc assms(3)
      by (auto simp: grab_read_lock_def Let_def split: prod.splits if_splits)
  qed
qed

theorem bad_version_exact_witness:
  "grab_read_lock Live \<lparr>vid_version = 3, vid_index = 0\<rparr> (shared demo_system) (m_local_readers (processes demo_system ! 0)) = Inl (BadVersion 3)"
proof -
  have "processes demo_system ! 0 \<in> set (processes demo_system)" by (simp add: demo_system_def)
  from bad_version_exact [OF demo_run this, of "\<lparr>vid_version = 3, vid_index = 0\<rparr>" Live "BadVersion 3"] show ?thesis
    by (simp add: demo_facts max_version_def demo_rc_def)
qed


end
