(* ===== verification/File_Space.thy ===== *)
theory File_Space
  imports Slab_Alloc Group_Top Version_List
begin

text \<open>
  The free space of the database file (\<^verbatim>\<open>class GroupWriter\<close> of \<^verbatim>\<open>src/llbt/group_writer.cpp\<close>).
  A commit writes the changed arrays into free space of the file. It reads the free lists of the
  previous snapshot, sorts out what a reachable snapshot may still use, allocates from the rest,
  extends the file when there is no room, and writes new free lists.

  The free-list arrays are lists of numbers here, and \<^verbatim>\<open>m_size_map\<close>, a \<^verbatim>\<open>std::multimap\<close> from
  sizes to positions, is a list of pairs with ascending sizes; an iterator is an index, and
  \<^verbatim>\<open>end()\<close> is the length, or \<open>None\<close> in a result. Positions and sizes are natural numbers: they
  stay below the limit that \<^verbatim>\<open>extend_free_space\<close> checks. The slot of the top array with the
  logical file size always agrees with \<^verbatim>\<open>m_logical_size\<close> and is not kept separately.
\<close>

subsection \<open>The code: the state\<close>

record free_space_entry =
  space_ref :: nat
  space_size :: nat
  released_at_version :: nat

type_synonym size_map = "(nat \<times> nat) list"

record group_writer =
  m_free_positions :: "nat list"
  m_free_lengths :: "nat list"
  m_free_versions :: "nat list"
  m_current_version :: nat
  m_oldest_reachable_version :: nat
  m_top_ref_map :: top_ref_map
  m_any_new_unreachables :: bool
  m_free_space_size :: nat
  m_locked_space_size :: nat
  m_evacuation_limit :: nat
  m_backoff :: int
  m_logical_size :: nat
  m_not_free_in_file :: "free_space_entry list"
  m_under_evacuation :: "free_space_entry list"
  m_size_map :: size_map
  m_evacuation_progress :: "nat list"
  file_size :: nat

text \<open>
  What the code asks of its surroundings: the page size, the size of the data of the commit that
  \<^verbatim>\<open>SlabAlloc\<close> has counted, and whether the file system can hold a file of a given size.
\<close>

record file_env =
  page_size :: nat
  commit_size :: nat
  can_hold :: "nat \<Rightarrow> bool"

definition set_versions :: "nat \<Rightarrow> top_ref_map \<Rightarrow> bool \<Rightarrow> group_writer \<Rightarrow> group_writer" where
  "set_versions current top_refs any_new_unreachables g =
     g\<lparr>m_oldest_reachable_version := fst (hd top_refs), m_current_version := current,
       m_any_new_unreachables := any_new_unreachables, m_top_ref_map := top_refs\<rparr>"

subsection \<open>The code: ordered multimaps\<close>

definition emplace_size :: "nat \<Rightarrow> nat \<Rightarrow> size_map \<Rightarrow> nat \<times> size_map" where
  "emplace_size k v m = (let i = length (takeWhile (\<lambda>e. fst e \<le> k) m) in (i, take i m @ (k, v) # drop i m))"

definition erase_at :: "nat \<Rightarrow> size_map \<Rightarrow> size_map" where
  "erase_at i m = take i m @ drop (i + 1) m"

text \<open>
  \<^verbatim>\<open>lower_bound(k)\<close>, looked for from an iterator on; the search loop below asks for it only where
  all keys before the iterator are smaller.
\<close>

definition lower_bound_from :: "nat \<Rightarrow> nat \<Rightarrow> size_map \<Rightarrow> nat" where
  "lower_bound_from it k m = it + length (takeWhile (\<lambda>e. fst e < k) (drop it m))"

subsection \<open>The code: finding space\<close>

lemma upper_section_boundary_gt: "p < get_upper_section_boundary p"
  using div_mult_mod_eq [of p "2 ^ 26"] mod_less_divisor [of "2 ^ 26" p]
  by (simp add: get_upper_section_boundary_def get_section_base_def get_section_index_def)

function find_section_loop :: "nat \<Rightarrow> nat \<Rightarrow> nat \<Rightarrow> nat" where
  "find_section_loop alloc_pos end_of_block request_size =
     (if alloc_pos + request_size \<le> end_of_block
      then let next_section_boundary = get_upper_section_boundary alloc_pos
           in if alloc_pos + request_size \<le> next_section_boundary then alloc_pos
              else find_section_loop next_section_boundary end_of_block request_size
      else 0)"
  by auto
termination
proof (relation "measure (\<lambda>(p, e, r). e - p)"; clarsimp)
  fix p e r :: nat
  assume pe: "p + r \<le> e" and "\<not> p + r \<le> get_upper_section_boundary p"
  moreover have "p < get_upper_section_boundary p" by (rule upper_section_boundary_gt)
  ultimately show "e - get_upper_section_boundary p < e - p" by linarith
qed

declare find_section_loop.simps [simp del]

definition find_section_in_range :: "nat \<Rightarrow> nat \<Rightarrow> nat \<Rightarrow> nat" where
  "find_section_in_range start_pos free_chunk_size request_size =
     find_section_loop start_pos (start_pos + free_chunk_size) request_size"

definition split_freelist_chunk :: "nat \<Rightarrow> nat \<Rightarrow> size_map \<Rightarrow> (nat \<times> size_map) result" where
  "split_freelist_chunk it alloc_pos m =
     (let (chunk_size, start_pos) = m ! it;
          m = erase_at it m
      in if \<not> alloc_pos > start_pos then Inl (AssertionFailed ''alloc_pos > start_pos'')
         else if alloc_pos mod 8 \<noteq> 0 then Inl (AssertionFailed ''!(alloc_pos & 7)'')
         else let size_first = alloc_pos - start_pos;
                  size_second = chunk_size - size_first;
                  (_, m) = emplace_size size_first start_pos m
              in Inr (emplace_size size_second alloc_pos m))"

definition search_free_space_in_free_list_element :: "nat \<Rightarrow> nat \<Rightarrow> size_map \<Rightarrow> (nat option \<times> size_map) result" where
  "search_free_space_in_free_list_element it sz m =
     (let (chunk_size, start_pos) = m ! it;
          alloc_pos = find_section_in_range start_pos chunk_size sz
      in if alloc_pos = 0 then Inr (None, m)
         else if alloc_pos \<noteq> start_pos
         then bind_result (split_freelist_chunk it alloc_pos m) (\<lambda>(it, m). Inr (Some it, m))
         else Inr (Some it, m))"

function search_part_loop :: "nat \<Rightarrow> nat \<Rightarrow> size_map \<Rightarrow> (nat option \<times> size_map) result" where
  "search_part_loop it sz m =
     (if it \<ge> length m then Inr (None, m)
      else if fst (m ! it) = sz \<or> fst (m ! it) \<ge> 2 * sz
      then bind_result (search_free_space_in_free_list_element it sz m) (\<lambda>(ret, m').
             if ret \<noteq> None then Inr (ret, m') else search_part_loop (it + 1) sz m)
      else search_part_loop (lower_bound_from it (2 * sz) m) sz m)"
  by auto
termination
proof (relation "measure (\<lambda>(it, sz, m). length m - it)"; clarsimp)
  fix it sz :: nat and m :: size_map
  assume it: "\<not> length m \<le> it" and k: "\<not> 2 * sz \<le> fst (m ! it)"
  then have "takeWhile (\<lambda>e. fst e < 2 * sz) (drop it m) \<noteq> []" by (simp add: Cons_nth_drop_Suc [symmetric])
  then have "it < lower_bound_from it (2 * sz) m" by (simp add: lower_bound_from_def del: takeWhile_eq_Nil_iff)
  then show "length m - lower_bound_from it (2 * sz) m < length m - it" using it by simp
qed linarith

declare search_part_loop.simps [simp del]

definition search_free_space_in_part_of_freelist :: "nat \<Rightarrow> size_map \<Rightarrow> (nat option \<times> size_map) result" where
  "search_free_space_in_part_of_freelist sz m = search_part_loop (lower_bound_from 0 sz m) sz m"

subsection \<open>The code: extending the file\<close>

text \<open>The page size is a power of two, so that masking the low bits is rounding down to a multiple.\<close>

definition round_up_to_page_size :: "nat \<Rightarrow> nat \<Rightarrow> nat" where
  "round_up_to_page_size ps sz = (sz + ps - 1) div ps * ps"

text \<open>\<^verbatim>\<open>resize_file\<close> on a shared file: \<^verbatim>\<open>File::prealloc\<close> only ever makes the file longer.\<close>

definition resize_file :: "file_env \<Rightarrow> nat \<Rightarrow> nat \<Rightarrow> nat result" where
  "resize_file env new_file_size current =
     (if new_file_size \<le> current then Inr current
      else if can_hold env new_file_size then Inr new_file_size else Inl OutOfDiskSpace)"

definition minimal_new_size :: "file_env \<Rightarrow> nat \<Rightarrow> group_writer \<Rightarrow> nat" where
  "minimal_new_size env requested_size g =
     (let logical_file_size = m_logical_size g;
          growth_boundary = 1024 * 1024;
          minimal =
            (if logical_file_size < growth_boundary then logical_file_size * 2
             else logical_file_size + max growth_boundary (commit_size env + commit_size env div 8));
          minimal = max minimal (file_size g);
          required_new_size = logical_file_size + requested_size
      in if required_new_size > minimal then required_new_size else minimal)"

definition extended_size :: "file_env \<Rightarrow> nat \<Rightarrow> nat" where
  "extended_size env minimal =
     (let next_boundary = align_size_to_section_boundary minimal;
          new_file_size = round_up_to_page_size (page_size env) minimal
      in if new_file_size > next_boundary then next_boundary else new_file_size)"

definition extend_free_space :: "file_env \<Rightarrow> nat \<Rightarrow> group_writer \<Rightarrow> (nat \<times> group_writer) result" where
  "extend_free_space env requested_size g =
     (let logical_file_size = m_logical_size g;
          minimal = minimal_new_size env requested_size g
      in if minimal > (2 ^ 64 - 1) div 4 * 3 then Inl MaximumFileSizeExceeded
         else let new_file_size = extended_size env minimal
              in if new_file_size mod 8 \<noteq> 0 then Inl (AssertionFailed ''!(new_file_size & 7)'')
                 else bind_result (resize_file env new_file_size (file_size g)) (\<lambda>new_size.
                   let chunk_size = new_file_size - logical_file_size
                   in if chunk_size mod 8 \<noteq> 0 then Inl (AssertionFailed ''!(chunk_size & 7)'')
                      else if chunk_size = 0 then Inl (AssertionFailed ''chunk_size != 0'')
                      else let (it, m) = emplace_size chunk_size logical_file_size (m_size_map g)
                           in Inr (it, g\<lparr>m_size_map := m, m_logical_size := new_file_size, file_size := new_size\<rparr>)))"

definition release_evacuation :: "group_writer \<Rightarrow> group_writer" where
  "release_evacuation g =
     g\<lparr>m_size_map := fold (\<lambda>e m. snd (emplace_size (space_size e) (space_ref e) m)) (m_under_evacuation g) (m_size_map g),
       m_under_evacuation := [], m_evacuation_limit := 0, m_backoff := 10\<rparr>"

lemma extend_free_space_grows:
  "extend_free_space env sz g = Inr (it, g') \<Longrightarrow>
   m_logical_size g < m_logical_size g' \<and> m_logical_size g \<le> (2 ^ 64 - 1) div 4 * 3 \<and> m_under_evacuation g' = m_under_evacuation g"
proof -
  assume run: "extend_free_space env sz g = Inr (it, g')"
  have "m_logical_size g \<le> minimal_new_size env sz g" by (auto simp: minimal_new_size_def Let_def max_def)
  then show ?thesis
    using run by (auto simp: extend_free_space_def Let_def bind_result_eq_Inr split: if_splits prod.splits)
qed

text \<open>The loop of \<^verbatim>\<open>reserve_free_space\<close>, with the current value of \<^verbatim>\<open>chunk\<close>.\<close>

function reserve_loop :: "file_env \<Rightarrow> nat \<Rightarrow> nat option \<Rightarrow> group_writer \<Rightarrow> (nat \<times> group_writer) result" where
  "reserve_loop env sz chunk g =
     (case chunk of
        Some it \<Rightarrow> Inr (it, g)
      | None \<Rightarrow>
          if m_under_evacuation g \<noteq> []
          then let g = release_evacuation g
               in bind_result (search_free_space_in_part_of_freelist sz (m_size_map g)) (\<lambda>(chunk, m).
                    reserve_loop env sz chunk (g\<lparr>m_size_map := m\<rparr>))
          else bind_result (extend_free_space env sz g) (\<lambda>(new_chunk, g).
                 bind_result (search_free_space_in_free_list_element new_chunk sz (m_size_map g)) (\<lambda>(chunk, m).
                   reserve_loop env sz chunk (g\<lparr>m_size_map := m\<rparr>))))"
  by auto
termination
  by (relation "measures [\<lambda>(env, sz, chunk, g). length (m_under_evacuation g), \<lambda>(env, sz, chunk, g). 2 ^ 64 - m_logical_size g]")
    (auto simp: release_evacuation_def dest!: extend_free_space_grows intro!: diff_less_mono2)

declare reserve_loop.simps [simp del]

definition reserve_free_space :: "file_env \<Rightarrow> nat \<Rightarrow> group_writer \<Rightarrow> (nat \<times> group_writer) result" where
  "reserve_free_space env sz g =
     bind_result (search_free_space_in_part_of_freelist sz (m_size_map g)) (\<lambda>(chunk, m).
       reserve_loop env sz chunk (g\<lparr>m_size_map := m\<rparr>))"

definition get_free_space :: "file_env \<Rightarrow> nat \<Rightarrow> group_writer \<Rightarrow> (nat \<times> group_writer) result" where
  "get_free_space env sz g =
     bind_result (reserve_free_space env sz g) (\<lambda>(p, g).
       let (chunk_size, chunk_pos) = m_size_map g ! p
       in if chunk_pos mod 8 \<noteq> 0 then Inl (AssertionFailed ''!(chunk_pos & 7)'')
          else if chunk_size mod 8 \<noteq> 0 then Inl (AssertionFailed ''!(chunk_size & 7)'')
          else let rest = chunk_size - sz;
                   m = erase_at p (m_size_map g);
                   m = (if rest > 0 then snd (emplace_size rest (chunk_pos + sz) m) else m)
               in Inr (chunk_pos, g\<lparr>m_size_map := m\<rparr>))"

subsection \<open>The code: reading the free lists\<close>

text \<open>
  \<^verbatim>\<open>merge_adjacent_entries_in_freelist\<close> keeps a pointer \<^verbatim>\<open>prev\<close> to the entry the following ones
  are merged into; the merged ones stay in the list with size 0.
\<close>

function merge_loop :: "nat \<Rightarrow> nat \<Rightarrow> free_space_entry list \<Rightarrow> free_space_entry list" where
  "merge_loop prev it es =
     (if it < length es
      then if space_ref (es ! prev) + space_size (es ! prev) = space_ref (es ! it)
           then merge_loop prev (it + 1)
             (es[prev := (es ! prev)\<lparr>space_size := space_size (es ! prev) + space_size (es ! it)\<rparr>,
                 it := (es ! it)\<lparr>space_size := 0\<rparr>])
           else merge_loop it (it + 1) es
      else es)"
  by auto
termination
  by (relation "measure (\<lambda>(prev, it, es). length es - it)") auto

declare merge_loop.simps [simp del]

definition merge_adjacent_entries_in_freelist :: "free_space_entry list \<Rightarrow> free_space_entry list" where
  "merge_adjacent_entries_in_freelist es = (if length es > 1 then merge_loop 0 1 es else es)"

fun move_free_in_file_to_size_map :: "free_space_entry list \<Rightarrow> size_map \<Rightarrow> size_map result" where
  "move_free_in_file_to_size_map [] m = Inr m"
| "move_free_in_file_to_size_map (e # es) m =
     (if space_size e \<noteq> 0
      then if space_size e mod 8 \<noteq> 0 then Inl (AssertionFailed ''!(elem.size & 7)'')
           else if space_ref e mod 8 \<noteq> 0 then Inl (AssertionFailed ''!(elem.ref & 7)'')
           else move_free_in_file_to_size_map es (snd (emplace_size (space_size e) (space_ref e) m))
      else move_free_in_file_to_size_map es m)"

definition space_entry :: "nat \<Rightarrow> nat \<Rightarrow> nat \<Rightarrow> free_space_entry" where
  "space_entry r s v = \<lparr>space_ref = r, space_size = s, released_at_version = v\<rparr>"

text \<open>One turn of the loop: the entry goes to the pinned, the evacuated or the free ones.\<close>

definition sort_entry :: "nat \<Rightarrow> nat \<Rightarrow> nat \<times> nat \<times> nat \<Rightarrow>
  free_space_entry list \<times> free_space_entry list \<times> free_space_entry list \<Rightarrow>
  free_space_entry list \<times> free_space_entry list \<times> free_space_entry list" where
  "sort_entry limit_version evacuation_limit = (\<lambda>(ref, sz, version) (pinned, evac, free).
     if version > limit_version then (pinned @ [space_entry ref sz version], evac, free)
     else if ref + sz > evacuation_limit
     then if ref < evacuation_limit
          then let still_free_size = evacuation_limit - ref
               in (pinned, evac @ [space_entry evacuation_limit (sz - still_free_size) 0], free @ [space_entry ref still_free_size 0])
          else (pinned, evac @ [space_entry ref sz 0], free)
     else (pinned, evac, free @ [space_entry ref sz 0]))"

definition read_in_freelist :: "group_writer \<Rightarrow> group_writer result" where
  "read_in_freelist g =
     (let evacuation_limit = (if m_evacuation_limit g \<noteq> 0 then m_evacuation_limit g else 2 ^ 64 - 1);
          limit = length (m_free_lengths g)
      in if length (m_free_positions g) \<noteq> limit then Inl (AssertionFailed ''m_free_positions.size() == limit'')
         else if length (m_free_versions g) \<noteq> limit then Inl (AssertionFailed ''m_free_versions.size() == limit'')
         else let (pinned, evac, free) =
                    fold (sort_entry (m_oldest_reachable_version g) evacuation_limit)
                      (zip (m_free_positions g) (zip (m_free_lengths g) (m_free_versions g)))
                      (m_not_free_in_file g, m_under_evacuation g, []);
                  evac = filter (\<lambda>e. space_size e \<noteq> 0) (merge_adjacent_entries_in_freelist evac);
                  free = merge_adjacent_entries_in_freelist free
              in bind_result (move_free_in_file_to_size_map free (m_size_map g)) (\<lambda>m.
                   Inr (g\<lparr>m_free_positions := [], m_free_lengths := [], m_free_versions := [],
                          m_not_free_in_file := pinned, m_under_evacuation := evac, m_size_map := m\<rparr>)))"

subsection \<open>The code: writing the free lists\<close>

text \<open>
  The loop of \<^verbatim>\<open>recreate_freelist\<close> over the sorted entries. When two entries overlap, the
  assertions inside or the one after the inner loops stop the process.
\<close>

fun recreate_loop :: "nat \<Rightarrow> free_space_entry list \<Rightarrow> nat \<Rightarrow> nat \<Rightarrow> nat \<Rightarrow> nat option \<times> nat \<times> group_writer \<Rightarrow>
  (nat option \<times> nat \<times> group_writer) result" where
  "recreate_loop reserve_pos [] i prev_ref prev_size acc = Inr acc"
| "recreate_loop reserve_pos (e # es) i prev_ref prev_size (reserve_ndx, free_space_size, g) =
     (if prev_ref + prev_size > space_ref e then Inl (AssertionFailed ''prev_ref + prev_size <= ref'')
      else let (reserve_ndx, free_space_size) =
                 (if reserve_pos = space_ref e then (Some i, free_space_size)
                  else (reserve_ndx, free_space_size + space_size e));
               g = g\<lparr>m_free_positions := m_free_positions g @ [space_ref e], m_free_lengths := m_free_lengths g @ [space_size e],
                     m_free_versions := m_free_versions g @ [released_at_version e]\<rparr>
           in recreate_loop reserve_pos es (i + 1) (space_ref e) (space_size e) (reserve_ndx, free_space_size, g))"

definition recreate_freelist :: "nat \<Rightarrow> (nat \<times> nat) list \<Rightarrow> group_writer \<Rightarrow> (nat \<times> group_writer) result" where
  "recreate_freelist reserve_pos new_free_space g =
     (let free_in_file = map (\<lambda>(sz, pos). space_entry pos sz 0) (m_size_map g) @ m_not_free_in_file g @
            map (\<lambda>(ref, sz). space_entry ref sz (m_current_version g)) new_free_space @
            map (\<lambda>e. space_entry (space_ref e) (space_size e) 0) (m_under_evacuation g);
          locked_space_size = sum_list (map space_size (m_not_free_in_file g)) + sum_list (map snd new_free_space);
          g = g\<lparr>m_locked_space_size := locked_space_size\<rparr>
      in bind_result (recreate_loop reserve_pos (sort_key space_ref free_in_file) 0 0 0 (None, 0, g))
           (\<lambda>(reserve_ndx, free_space_size, g).
              case reserve_ndx of
                None \<Rightarrow> Inl (AssertionFailed ''reserve_ndx != llbt::npos'')
              | Some ndx \<Rightarrow> Inr (ndx, g\<lparr>m_free_space_size := free_space_size\<rparr>)))"

end
