(* ===== verification/File_Space_Laws.thy ===== *)
theory File_Space_Laws
  imports File_Space
begin

text \<open>
  What the operations on the free space of the file do to the bytes of the file. \<open>cover\<close>
  counts the chunks of a list that contain a byte; every operation changes it by exactly the
  bytes it takes out or puts in, which says both that no space is lost and that no byte is in
  two chunks if it was in one before.
\<close>

subsection \<open>Counting the chunks over a byte\<close>

definition in_block :: "nat \<Rightarrow> nat \<Rightarrow> nat \<Rightarrow> bool" where
  "in_block pos sz b \<longleftrightarrow> pos \<le> b \<and> b < pos + sz"

definition cover :: "size_map \<Rightarrow> nat \<Rightarrow> nat" where
  "cover m b = length (filter (\<lambda>(sz, pos). in_block pos sz b) m)"

definition cover_entries :: "free_space_entry list \<Rightarrow> nat \<Rightarrow> nat" where
  "cover_entries es b = length (filter (\<lambda>e. in_block (space_ref e) (space_size e) b) es)"

definition chunk_ok :: "nat \<Rightarrow> nat \<Rightarrow> nat \<Rightarrow> bool" where
  "chunk_ok L sz pos \<longleftrightarrow> 0 < sz \<and> sz mod 8 = 0 \<and> 0 < pos \<and> pos mod 8 = 0 \<and> pos + sz \<le> L"

definition map_ok :: "nat \<Rightarrow> size_map \<Rightarrow> bool" where
  "map_ok L m \<longleftrightarrow> (\<forall>(sz, pos)\<in>set m. chunk_ok L sz pos)"

definition entries_ok :: "nat \<Rightarrow> free_space_entry list \<Rightarrow> bool" where
  "entries_ok L es \<longleftrightarrow> (\<forall>e\<in>set es. chunk_ok L (space_size e) (space_ref e))"

definition env_ok :: "file_env \<Rightarrow> bool" where
  "env_ok env \<longleftrightarrow> (\<exists>k. 3 \<le> k \<and> k \<le> 26 \<and> page_size env = 2 ^ k)"

definition writer_ok :: "group_writer \<Rightarrow> bool" where
  "writer_ok g \<longleftrightarrow> map_ok (m_logical_size g) (m_size_map g) \<and> sorted (map fst (m_size_map g)) \<and>
     entries_ok (m_logical_size g) (m_under_evacuation g) \<and> entries_ok (m_logical_size g) (m_not_free_in_file g) \<and>
     0 < m_logical_size g \<and> m_logical_size g mod 8 = 0"

definition cover_free :: "group_writer \<Rightarrow> nat \<Rightarrow> nat" where
  "cover_free g b = cover (m_size_map g) b + cover_entries (m_under_evacuation g) b"

lemma cover_Nil [simp]: "cover [] b = 0"
  by (simp add: cover_def)

lemma cover_Cons [simp]: "cover (e # m) b = of_bool (in_block (snd e) (fst e) b) + cover m b"
  by (cases e) (simp add: cover_def)

lemma cover_append [simp]: "cover (m @ m') b = cover m b + cover m' b"
  by (simp add: cover_def)

lemma cover_entries_Nil [simp]: "cover_entries [] b = 0"
  by (simp add: cover_entries_def)

lemma cover_entries_Cons [simp]: "cover_entries (e # es) b = of_bool (in_block (space_ref e) (space_size e) b) + cover_entries es b"
  by (simp add: cover_entries_def)

lemma cover_entries_append [simp]: "cover_entries (es @ es') b = cover_entries es b + cover_entries es' b"
  by (simp add: cover_entries_def)

lemma in_block_split: "k \<le> sz \<Longrightarrow> of_bool (in_block pos sz b) = (of_bool (in_block pos k b) + of_bool (in_block (pos + k) (sz - k) b) :: nat)"
  by (auto simp: in_block_def)

subsection \<open>Ordered maps\<close>

lemma emplace_take_drop:
  assumes "emplace_size k v m = (i, m')"
  shows "m' = take i m @ (k, v) # drop i m" "i \<le> length m" "i = length (takeWhile (\<lambda>e. fst e \<le> k) m)"
  using assms length_takeWhile_le [of "\<lambda>e. fst e \<le> k" m] by (simp_all add: emplace_size_def Let_def) auto

lemma emplace_size_spec:
  assumes "emplace_size k v m = (i, m')"
  shows "i < length m'" "m' ! i = (k, v)" "cover m' b = cover m b + of_bool (in_block v k b)"
    "set m' = insert (k, v) (set m)" "length m' = Suc (length m)"
proof -
  note m' = emplace_take_drop [OF assms]
  have "cover m b = cover (take i m) b + cover (drop i m) b" by (metis append_take_drop_id cover_append)
  then show "cover m' b = cover m b + of_bool (in_block v k b)" by (simp add: m'(1))
  have "set m = set (take i m) \<union> set (drop i m)" by (metis append_take_drop_id set_append)
  then show "set m' = insert (k, v) (set m)" by (simp add: m'(1))
  show "i < length m'" "m' ! i = (k, v)" "length m' = Suc (length m)" using m' by (auto simp: nth_append)
qed

lemma sorted_insert_between:
  "(\<And>e. e \<in> set xs \<Longrightarrow> fst e \<le> k) \<Longrightarrow> (\<And>e. e \<in> set ys \<Longrightarrow> k \<le> fst e) \<Longrightarrow> sorted (map fst (xs @ ys)) \<Longrightarrow>
   sorted (map fst (xs @ (k, v) # ys))"
  by (auto simp: sorted_append)

lemma emplace_sorted_sizes:
  assumes "emplace_size k v m = (i, m')" "sorted (map fst m)"
  shows "sorted (map fst m')"
proof -
  note i = emplace_take_drop(1,3) [OF assms(1)]
  let ?t = "takeWhile (\<lambda>e. fst e \<le> k) m" and ?d = "dropWhile (\<lambda>e. fst e \<le> k) m"
  have td: "take i m = ?t" "drop i m = ?d" by (simp_all add: i(2) takeWhile_eq_take [symmetric] dropWhile_eq_drop [symmetric])
  have s: "sorted (map fst (?t @ ?d))" using assms(2) by simp
  have "fst e \<le> k" if "e \<in> set ?t" for e using that set_takeWhileD by fastforce
  moreover have "k \<le> fst e" if "e \<in> set ?d" for e
  proof (cases ?d)
    case (Cons a d)
    have "\<not> fst a \<le> k" using Cons hd_dropWhile [of "\<lambda>e. fst e \<le> k" m] by auto
    moreover have "fst a \<le> fst e" using s that unfolding Cons by (auto simp: sorted_append)
    ultimately show ?thesis by simp
  qed (use that in \<open>simp del: dropWhile_eq_Nil_conv\<close>)
  ultimately show ?thesis unfolding i(1) td using s by (intro sorted_insert_between)
qed

lemma erase_at_spec:
  assumes "i < length m"
  shows "cover m b = cover (erase_at i m) b + of_bool (in_block (snd (m ! i)) (fst (m ! i)) b)"
    "set (erase_at i m) \<subseteq> set m" "length m = Suc (length (erase_at i m))" "sorted (map fst m) \<Longrightarrow> sorted (map fst (erase_at i m))"
proof -
  have m: "m = take i m @ m ! i # drop (i + 1) m" using assms by (simp add: id_take_nth_drop [symmetric])
  show "cover m b = cover (erase_at i m) b + of_bool (in_block (snd (m ! i)) (fst (m ! i)) b)"
    unfolding erase_at_def by (subst m) simp
  show "set (erase_at i m) \<subseteq> set m" by (auto simp: erase_at_def dest: in_set_takeD in_set_dropD)
  show "length m = Suc (length (erase_at i m))" using assms by (simp add: erase_at_def)
  show "sorted (map fst (erase_at i m))" if "sorted (map fst m)"
  proof -
    have "sorted (map fst (take i m @ m ! i # drop (i + 1) m))" using that m by metis
    then show ?thesis by (auto simp: erase_at_def sorted_append)
  qed
qed

lemma map_ok_emplace: "emplace_size k v m = (i, m') \<Longrightarrow> map_ok L m \<Longrightarrow> chunk_ok L k v \<Longrightarrow> map_ok L m'"
  using emplace_size_spec(4) [of k v m i m'] by (auto simp: map_ok_def)

lemma map_ok_erase: "i < length m \<Longrightarrow> map_ok L m \<Longrightarrow> map_ok L (erase_at i m)"
  using erase_at_spec(2) [of i m] by (auto simp: map_ok_def)

lemma map_okD: "map_ok L m \<Longrightarrow> i < length m \<Longrightarrow> chunk_ok L (fst (m ! i)) (snd (m ! i))"
  unfolding map_ok_def by (metis (no_types, lifting) case_prod_beta nth_mem)

subsection \<open>Finding space\<close>

lemma find_section_loop_spec:
  "find_section_loop p e s = r \<Longrightarrow> r \<noteq> 0 \<Longrightarrow>
   p \<le> r \<and> r + s \<le> e \<and> r + s \<le> get_upper_section_boundary r \<and> (r = p \<or> r mod 2 ^ 26 = 0)"
proof (induction p e s rule: find_section_loop.induct)
  case (1 p e s)
  show ?case
  proof (cases "p + s \<le> e \<and> \<not> p + s \<le> get_upper_section_boundary p")
    case True
    let ?b = "get_upper_section_boundary p"
    have r: "find_section_loop ?b e s = r" using True 1(2) by (subst (asm) find_section_loop.simps) (simp add: Let_def)
    have "?b mod 2 ^ 26 = 0" by (simp add: get_upper_section_boundary_def get_section_base_def)
    then show ?thesis using 1(1) [OF _ refl _ r 1(3)] True upper_section_boundary_gt [of p] by auto
  next
    case False
    then show ?thesis using 1(2,3) by (subst (asm) find_section_loop.simps) (auto simp: Let_def split: if_splits)
  qed
qed

lemma find_section_in_range_spec:
  assumes "find_section_in_range p c s = r" "r \<noteq> 0" "p mod 8 = 0"
  shows "p \<le> r" "r + s \<le> p + c" "r + s \<le> get_upper_section_boundary r" "r mod 8 = 0"
proof -
  note F = find_section_loop_spec [OF assms(1) [unfolded find_section_in_range_def] assms(2)]
  show "p \<le> r" "r + s \<le> p + c" "r + s \<le> get_upper_section_boundary r" using F by simp_all
  have "r mod 8 = 0" if "r mod 2 ^ 26 = 0" using that mod_mod_cancel [of 8 "2 ^ 26" r] by simp
  then show "r mod 8 = 0" using F assms(3) by auto
qed

text \<open>
  A chunk that an allocation of a given size can be taken from, from its beginning, in one section,
  and with the same free bytes as before.
\<close>

definition found_in :: "nat \<Rightarrow> nat \<Rightarrow> size_map \<Rightarrow> nat \<Rightarrow> size_map \<Rightarrow> bool" where
  "found_in L sz m i m' \<longleftrightarrow> i < length m' \<and> sz \<le> fst (m' ! i) \<and> snd (m' ! i) + sz \<le> get_upper_section_boundary (snd (m' ! i)) \<and>
     map_ok L m' \<and> cover m' = cover m \<and> (sorted (map fst m) \<longrightarrow> sorted (map fst m')) \<and> length m' \<le> Suc (length m)"

lemma split_found:
  assumes ok: "map_ok L m" and i: "i < length m" "m ! i = (c, p)" and a: "p < a" "a + sz \<le> p + c" "a mod 8 = 0" "0 < sz"
    "a + sz \<le> get_upper_section_boundary a"
  shows "\<exists>j m'. split_freelist_chunk i a m = Inr (j, m') \<and> found_in L sz m j m'"
proof -
  let ?m = "erase_at i m" and ?f = "a - p"
  obtain k1 m1 where e1: "emplace_size ?f p ?m = (k1, m1)" by fastforce
  obtain j m2 where e2: "emplace_size (c - ?f) a m1 = (j, m2)" by fastforce
  note E1 = emplace_size_spec [OF e1] and E2 = emplace_size_spec [OF e2] and R = erase_at_spec [OF i(1)]
  have ch: "chunk_ok L c p" using map_okD [OF ok i(1)] i(2) by simp
  have f8: "?f mod 8 = 0" using ch a(1,3) by (metis chunk_ok_def dvd_diff_nat mod_eq_0_iff_dvd)
  then have c8: "(c - ?f) mod 8 = 0" using ch a(1,2) by (metis chunk_ok_def dvd_diff_nat mod_eq_0_iff_dvd)
  have "chunk_ok L ?f p" "chunk_ok L (c - ?f) a" using ch a f8 c8 unfolding chunk_ok_def by auto
  then have "map_ok L m2" using map_ok_emplace [OF e2 map_ok_emplace [OF e1 map_ok_erase [OF i(1) ok]]] by simp
  moreover have "cover m2 b = cover m b" for b
  proof -
    have "of_bool (in_block p c b) = (of_bool (in_block p ?f b) + of_bool (in_block a (c - ?f) b) :: nat)"
      using in_block_split [of ?f c p b] a(1,2) by simp
    then show ?thesis using E1(3) [of b] E2(3) [of b] R(1) [of b] i(2) by simp
  qed
  then have "cover m2 = cover m" by (rule ext)
  moreover have "sorted (map fst m) \<Longrightarrow> sorted (map fst m2)"
    using emplace_sorted_sizes [OF e2 emplace_sorted_sizes [OF e1 R(4)]] .
  moreover have "split_freelist_chunk i a m = Inr (j, m2)"
    using a(1,3) i(2) e1 e2 by (simp add: split_freelist_chunk_def)
  moreover have "length m2 \<le> Suc (length m)" using E1(5) E2(5) R(3) by simp
  ultimately show ?thesis using E2(1,2) a by (auto simp: found_in_def)
qed

lemma search_element_spec:
  assumes ok: "map_ok L m" and i: "i < length m" and sz: "0 < sz"
  shows "(\<exists>j m'. search_free_space_in_free_list_element i sz m = Inr (Some j, m') \<and> found_in L sz m j m') \<or>
    search_free_space_in_free_list_element i sz m = Inr (None, m) \<and> find_section_in_range (snd (m ! i)) (fst (m ! i)) sz = 0"
proof -
  obtain c p where cp: "m ! i = (c, p)" by (cases "m ! i")
  let ?a = "find_section_in_range p c sz"
  have ch: "chunk_ok L c p" using map_okD [OF ok i] cp by simp
  consider "?a = 0" | "?a \<noteq> 0" "?a = p" | "?a \<noteq> 0" "?a \<noteq> p" by blast
  then show ?thesis
  proof cases
    case 1
    then show ?thesis using cp by (simp add: search_free_space_in_free_list_element_def)
  next
    case 2
    note F = find_section_in_range_spec [OF refl 2(1)]
    have "found_in L sz m i m" using F ch i ok 2 cp unfolding found_in_def chunk_ok_def by auto
    then show ?thesis using 2 cp by (simp add: search_free_space_in_free_list_element_def)
  next
    case 3
    note F = find_section_in_range_spec [OF refl 3(1)]
    obtain j m' where "split_freelist_chunk i ?a m = Inr (j, m')" "found_in L sz m j m'"
      using split_found [OF ok i cp, of ?a sz] F ch 3 sz unfolding chunk_ok_def by auto
    then show ?thesis using 3 cp by (simp add: search_free_space_in_free_list_element_def)
  qed
qed

lemma search_part_loop_spec:
  assumes "map_ok L m" "0 < sz"
  shows "(\<exists>j m'. search_part_loop it sz m = Inr (Some j, m') \<and> found_in L sz m j m') \<or> search_part_loop it sz m = Inr (None, m)"
  using assms
proof (induction it sz m rule: search_part_loop.induct)
  case (1 it sz m)
  let ?hit = "fst (m ! it) = sz \<or> fst (m ! it) \<ge> 2 * sz"
  consider "length m \<le> it" | "it < length m" ?hit | "it < length m" "\<not> ?hit" by linarith
  then show ?case
  proof cases
    case 1
    then show ?thesis by (subst search_part_loop.simps) simp
  next
    case 2
    from search_element_spec [OF 1(3) 2(1) 1(4)] show ?thesis
    proof
      assume "\<exists>j m'. search_free_space_in_free_list_element it sz m = Inr (Some j, m') \<and> found_in L sz m j m'"
      then show ?thesis using 2 by (subst (1 2) search_part_loop.simps) auto
    next
      assume s: "search_free_space_in_free_list_element it sz m = Inr (None, m) \<and> find_section_in_range (snd (m ! it)) (fst (m ! it)) sz = 0"
      then have "search_part_loop it sz m = search_part_loop (it + 1) sz m" using 2 by (subst search_part_loop.simps) simp
      then show ?thesis using 1(1) [of "(None, m)" None m] 2 s 1(3,4) by auto
    qed
  next
    case 3
    then have "search_part_loop it sz m = search_part_loop (lower_bound_from it (2 * sz) m) sz m"
      by (subst search_part_loop.simps) auto
    then show ?thesis using 1(2) 3 1(3,4) by auto
  qed
qed

lemma search_part_spec:
  assumes "map_ok L m" "0 < sz"
  shows "(\<exists>j m'. search_free_space_in_part_of_freelist sz m = Inr (Some j, m') \<and> found_in L sz m j m') \<or>
    search_free_space_in_part_of_freelist sz m = Inr (None, m)"
  unfolding search_free_space_in_part_of_freelist_def by (rule search_part_loop_spec [OF assms])

subsection \<open>Extending the file\<close>

lemma align_size_bounds: "n \<le> align_size_to_section_boundary n" "align_size_to_section_boundary n mod 2 ^ 26 = 0"
proof -
  show "n \<le> align_size_to_section_boundary n"
    using upper_section_boundary_gt [of n] by (simp add: align_size_to_section_boundary_def)
  have m: "x = y * k \<Longrightarrow> x mod k = 0" for x y k :: nat by simp
  show "align_size_to_section_boundary n mod 2 ^ 26 = 0"
  proof (cases "matches_section_boundary n")
    case True
    then have "n = n div 2 ^ 26 * 2 ^ 26"
      unfolding matches_section_boundary_def get_lower_section_boundary_def get_section_base_def get_section_index_def .
    from m [OF this] show ?thesis unfolding align_size_to_section_boundary_def if_P [OF True] .
  next
    case False
    show ?thesis unfolding align_size_to_section_boundary_def if_not_P [OF False] get_upper_section_boundary_def get_section_base_def
      by (rule m [OF refl])
  qed
qed

lemma round_up_bounds:
  assumes "0 < ps"
  shows "n \<le> round_up_to_page_size ps n" "round_up_to_page_size ps n < n + ps" "round_up_to_page_size ps n mod ps = 0"
proof -
  have "(n + ps - 1) mod ps < ps" using assms by simp
  moreover have "round_up_to_page_size ps n + (n + ps - 1) mod ps = n + ps - 1" by (simp add: round_up_to_page_size_def)
  ultimately show "n \<le> round_up_to_page_size ps n" "round_up_to_page_size ps n < n + ps" using assms by linarith+
  show "round_up_to_page_size ps n mod ps = 0" by (simp add: round_up_to_page_size_def)
qed

lemma extended_size_bounds:
  assumes "env_ok env"
  shows "n \<le> extended_size env n" "extended_size env n mod 8 = 0" "extended_size env n < n + 2 ^ 26"
proof -
  obtain k where k: "3 \<le> k" "k \<le> 26" "page_size env = 2 ^ k" using assms by (auto simp: env_ok_def)
  let ?ps = "page_size env"
  have ps: "0 < ?ps" using k(3) by simp
  have "8 dvd ?ps" using k(1,3) le_imp_power_dvd [of 3 k "2 :: nat"] by simp
  then have r8: "round_up_to_page_size ?ps n mod 8 = 0" using round_up_bounds(3) [OF ps, of n] by (metis dvd_trans mod_eq_0_iff_dvd)
  have a8: "align_size_to_section_boundary n mod 8 = 0"
    using align_size_bounds(2) [of n] mod_mod_cancel [of 8 "2 ^ 26" "align_size_to_section_boundary n"] by simp
  have "?ps \<le> 2 ^ 26" using k(2,3) by (simp add: power_increasing del: power_numeral)
  then show "n \<le> extended_size env n" "extended_size env n mod 8 = 0" "extended_size env n < n + 2 ^ 26"
    using align_size_bounds(1) [of n] round_up_bounds(1,2) [OF ps, of n] r8 a8 by (auto simp: extended_size_def Let_def)
qed

text \<open>What the operations that find space leave alone.\<close>

definition frame :: "group_writer \<Rightarrow> group_writer \<Rightarrow> bool" where
  "frame g g' \<longleftrightarrow> m_not_free_in_file g' = m_not_free_in_file g \<and> m_current_version g' = m_current_version g \<and>
     m_oldest_reachable_version g' = m_oldest_reachable_version g \<and> m_top_ref_map g' = m_top_ref_map g \<and>
     m_free_positions g' = m_free_positions g \<and> m_free_lengths g' = m_free_lengths g \<and> m_free_versions g' = m_free_versions g \<and>
     m_any_new_unreachables g' = m_any_new_unreachables g \<and> m_logical_size g \<le> m_logical_size g'"

lemma frame_refl [simp]: "frame g g"
  by (simp add: frame_def)

lemma frame_trans: "frame g g' \<Longrightarrow> frame g' g'' \<Longrightarrow> frame g g''"
  by (simp add: frame_def)

lemma entries_ok_mono: "entries_ok L es \<Longrightarrow> L \<le> L' \<Longrightarrow> entries_ok L' es"
  by (auto simp: entries_ok_def chunk_ok_def)

lemma map_ok_mono: "map_ok L m \<Longrightarrow> L \<le> L' \<Longrightarrow> map_ok L' m"
  by (fastforce simp: map_ok_def chunk_ok_def)

text \<open>The bytes by which the file is extended.\<close>

abbreviation grown :: "group_writer \<Rightarrow> group_writer \<Rightarrow> nat \<Rightarrow> nat" where
  "grown g g' b \<equiv> of_bool (m_logical_size g \<le> b \<and> b < m_logical_size g')"

lemma minimal_new_size_ge: "m_logical_size g + sz \<le> minimal_new_size env sz g"
  by (auto simp: minimal_new_size_def Let_def max_def)

lemma writer_ok_file_size [simp]: "writer_ok (g\<lparr>file_size := s\<rparr>) = writer_ok g"
  by (simp add: writer_ok_def)

lemma extend_free_space_spec:
  assumes ok: "writer_ok g" and env: "env_ok env" and sz: "0 < sz"
  shows "case extend_free_space env sz g of
      Inl e \<Rightarrow> e = MaximumFileSizeExceeded \<or> e = OutOfDiskSpace
    | Inr (i, g') \<Rightarrow> writer_ok g' \<and> frame g g' \<and> i < length (m_size_map g') \<and>
        m_size_map g' ! i = (m_logical_size g' - m_logical_size g, m_logical_size g) \<and>
        m_logical_size g' = extended_size env (minimal_new_size env sz g) \<and> m_under_evacuation g' = m_under_evacuation g \<and>
        length (m_size_map g') = Suc (length (m_size_map g)) \<and> file_size g' = max (file_size g) (m_logical_size g') \<and>
        (\<forall>b. cover_free g' b = cover_free g b + grown g g' b)"
proof -
  let ?L = "m_logical_size g" and ?n = "extended_size env (minimal_new_size env sz g)"
  note X = extended_size_bounds [OF env, of "minimal_new_size env sz g"]
  have L: "0 < ?L" "?L mod 8 = 0" using ok by (simp_all add: writer_ok_def)
  have n: "?L + sz \<le> ?n" using minimal_new_size_ge [of g sz env] X(1) by linarith
  then have c: "(?n - ?L) mod 8 = 0" "?n - ?L \<noteq> 0" "?L \<le> ?n" using X(2) L(2) sz by (auto simp: mod_eq_0_iff_dvd)
  obtain i m where e: "emplace_size (?n - ?L) ?L (m_size_map g) = (i, m)" by fastforce
  note E = emplace_size_spec [OF e]
  have ch: "chunk_ok ?n (?n - ?L) ?L" using c L by (simp add: chunk_ok_def)
  have "writer_ok (g\<lparr>m_size_map := m, m_logical_size := ?n\<rparr>)"
    using ok map_ok_emplace [OF e map_ok_mono ch] emplace_sorted_sizes [OF e] entries_ok_mono c(3) X(2) L(1)
    by (auto simp: writer_ok_def)
  moreover have "in_block ?L (?n - ?L) b \<longleftrightarrow> ?L \<le> b \<and> b < ?n" for b using c(3) by (auto simp: in_block_def)
  ultimately show ?thesis
    using E e c X(2) by (auto simp: extend_free_space_def resize_file_def Let_def frame_def cover_free_def)
qed

lemma release_evacuation_spec:
  assumes "writer_ok g"
  shows "writer_ok (release_evacuation g)" "frame g (release_evacuation g)" "cover_free (release_evacuation g) b = cover_free g b"
    "m_logical_size (release_evacuation g) = m_logical_size g"
    "length (m_size_map (release_evacuation g)) = length (m_size_map g) + length (m_under_evacuation g)"
proof -
  have fold: "map_ok L (fold (\<lambda>e m. snd (emplace_size (space_size e) (space_ref e) m)) es m) \<and>
      sorted (map fst (fold (\<lambda>e m. snd (emplace_size (space_size e) (space_ref e) m)) es m)) \<and>
      cover (fold (\<lambda>e m. snd (emplace_size (space_size e) (space_ref e) m)) es m) b = cover m b + cover_entries es b \<and>
      length (fold (\<lambda>e m. snd (emplace_size (space_size e) (space_ref e) m)) es m) = length m + length es"
    if "map_ok L m" "sorted (map fst m)" "entries_ok L es" for es L m
    using that
  proof (induction es arbitrary: m)
    case (Cons e es)
    obtain i m' where e: "emplace_size (space_size e) (space_ref e) m = (i, m')" by fastforce
    have "map_ok L m'" "sorted (map fst m')" "entries_ok L es"
      using map_ok_emplace [OF e Cons.prems(1)] emplace_sorted_sizes [OF e Cons.prems(2)] Cons.prems(3) by (simp_all add: entries_ok_def)
    from Cons.IH [OF this] show ?case using emplace_size_spec(3,5) [OF e] e by simp
  qed simp
  from fold [of "m_logical_size g" "m_size_map g" "m_under_evacuation g"] assms
  show "writer_ok (release_evacuation g)" "cover_free (release_evacuation g) b = cover_free g b"
    "length (m_size_map (release_evacuation g)) = length (m_size_map g) + length (m_under_evacuation g)"
    by (simp_all add: writer_ok_def release_evacuation_def cover_free_def entries_ok_def)
  show "frame g (release_evacuation g)" "m_logical_size (release_evacuation g) = m_logical_size g"
    by (simp_all add: frame_def release_evacuation_def)
qed

subsection \<open>Reserving and allocating\<close>

definition reserved :: "group_writer \<Rightarrow> nat \<Rightarrow> nat \<Rightarrow> group_writer \<Rightarrow> bool" where
  "reserved g sz i g' \<longleftrightarrow> writer_ok g' \<and> frame g g' \<and> i < length (m_size_map g') \<and> sz \<le> fst (m_size_map g' ! i) \<and>
     snd (m_size_map g' ! i) + sz \<le> get_upper_section_boundary (snd (m_size_map g' ! i)) \<and>
     (\<forall>b. cover_free g' b = cover_free g b + grown g g' b)"

lemma grown_trans:
  "m_logical_size g \<le> m_logical_size g' \<Longrightarrow> m_logical_size g' \<le> m_logical_size g'' \<Longrightarrow>
   grown g g'' b = (grown g g' b + grown g' g'' b :: nat)"
  by auto

lemma reserved_trans:
  assumes "writer_ok g'" "frame g g'" "\<And>b. cover_free g' b = cover_free g b + grown g g' b" "reserved g' sz i g''"
  shows "reserved g sz i g''"
  using assms grown_trans [of g g' g''] frame_trans [of g g' g''] unfolding reserved_def by (simp add: frame_def)

lemma found_reserved:
  assumes ok: "writer_ok g" and f: "found_in (m_logical_size g) sz (m_size_map g) i m'"
  shows "reserved g sz i (g\<lparr>m_size_map := m'\<rparr>)"
  using assms by (auto simp: reserved_def found_in_def writer_ok_def frame_def cover_free_def)

text \<open>The outcome of a request: a reserved chunk, or one of two errors.\<close>

definition outcome :: "group_writer \<Rightarrow> nat \<Rightarrow> (nat \<times> group_writer) result \<Rightarrow> bool" where
  "outcome g sz r \<longleftrightarrow> (case r of Inl e \<Rightarrow> e = MaximumFileSizeExceeded \<or> e = OutOfDiskSpace | Inr (i, g') \<Rightarrow> reserved g sz i g')"

lemma outcome_trans:
  assumes "writer_ok g'" "frame g g'" "\<And>b. cover_free g' b = cover_free g b + grown g g' b" "outcome g' sz r"
  shows "outcome g sz r"
  using assms(4) reserved_trans [OF assms(1-3)] by (auto simp: outcome_def split: sum.splits)

text \<open>A search in the map, and what the loop does with its result.\<close>

lemma outcome_search:
  assumes ok: "writer_ok g" and fr: "frame g0 g" "\<And>b. cover_free g b = cover_free g0 b + grown g0 g b"
    and s: "(\<exists>j m'. s = Inr (Some j, m') \<and> found_in (m_logical_size g) sz (m_size_map g) j m') \<or> s = Inr (None, m_size_map g)"
    and rest: "\<And>c m. s = Inr (c, m) \<Longrightarrow> writer_ok (g\<lparr>m_size_map := m\<rparr>) \<Longrightarrow>
      (\<And>i. c = Some i \<Longrightarrow> reserved (g\<lparr>m_size_map := m\<rparr>) sz i (g\<lparr>m_size_map := m\<rparr>)) \<Longrightarrow>
      outcome (g\<lparr>m_size_map := m\<rparr>) sz (f c (g\<lparr>m_size_map := m\<rparr>))"
  shows "outcome g0 sz (bind_result s (\<lambda>(c, m). f c (g\<lparr>m_size_map := m\<rparr>)))"
  using s
proof
  assume "\<exists>j m'. s = Inr (Some j, m') \<and> found_in (m_logical_size g) sz (m_size_map g) j m'"
  then obtain j m where s: "s = Inr (Some j, m)" and f: "found_in (m_logical_size g) sz (m_size_map g) j m" by blast
  let ?g = "g\<lparr>m_size_map := m\<rparr>"
  note R = found_reserved [OF ok f]
  have "outcome ?g sz (f (Some j) ?g)" using R by (intro rest [OF s]) (auto simp: reserved_def)
  moreover have "outcome g sz r" if "outcome ?g sz r" for r
    using R that by (intro outcome_trans [of ?g g sz r]) (simp_all add: reserved_def)
  ultimately have "outcome g sz (f (Some j) ?g)" by blast
  then show ?thesis using outcome_trans [OF ok fr] s by simp
next
  assume s: "s = Inr (None, m_size_map g)"
  have "outcome g sz (f None g)" using rest [OF s] ok by simp
  then show ?thesis using outcome_trans [OF ok fr] s by simp
qed

lemma reserve_loop_spec:
  assumes "writer_ok g" "env_ok env" "0 < sz" "\<And>i. chunk = Some i \<Longrightarrow> reserved g sz i g"
  shows "outcome g sz (reserve_loop env sz chunk g)"
  using assms
proof (induction env sz chunk g rule: reserve_loop.induct)
  case (1 env sz chunk g)
  consider i where "chunk = Some i" | "chunk = None" "m_under_evacuation g \<noteq> []" | "chunk = None" "m_under_evacuation g = []"
    by blast
  then show ?case
  proof cases
    case (1 i)
    then show ?thesis using "1.prems"(4) by (subst reserve_loop.simps) (simp add: outcome_def)
  next
    case 2
    let ?g = "release_evacuation g"
    note R = release_evacuation_spec [OF "1.prems"(1)]
    have mo: "map_ok (m_logical_size ?g) (m_size_map ?g)" using R(1) by (simp add: writer_ok_def)
    have "outcome g sz (bind_result (search_free_space_in_part_of_freelist sz (m_size_map ?g)) (\<lambda>(c, m). reserve_loop env sz c (?g\<lparr>m_size_map := m\<rparr>)))"
      by (rule outcome_search [OF R(1,2) _ search_part_spec [OF mo "1.prems"(3)]])
        (use R(3,4) "1.IH"(1) [OF 2 refl] "1.prems"(2,3) in \<open>simp_all\<close>)
    then show ?thesis using 2 by (subst reserve_loop.simps) (simp add: Let_def)
  next
    case 3
    note X = extend_free_space_spec [OF "1.prems"(1-3)]
    show ?thesis
    proof (cases "extend_free_space env sz g")
      case (Inl e)
      then show ?thesis using X 3 by (subst reserve_loop.simps) (simp add: outcome_def)
    next
      case (Inr q)
      obtain j g' where q: "q = (j, g')" by (cases q)
      have g': "writer_ok g'" "frame g g'" "j < length (m_size_map g')" "\<And>b. cover_free g' b = cover_free g b + grown g g' b"
        using X Inr q by simp_all
      have mo: "map_ok (m_logical_size g') (m_size_map g')" using g'(1) by (simp add: writer_ok_def)
      have "outcome g sz (bind_result (search_free_space_in_free_list_element j sz (m_size_map g')) (\<lambda>(c, m). reserve_loop env sz c (g'\<lparr>m_size_map := m\<rparr>)))"
        by (rule outcome_search [OF g'(1,2,4)])
          (use search_element_spec [OF mo g'(3) "1.prems"(3)] "1.IH"(2) [OF 3(1) _ Inr q [symmetric]] 3 "1.prems"(2,3) in auto)
      then show ?thesis using 3 Inr q by (subst reserve_loop.simps) simp
    qed
  qed
qed

lemma reserve_free_space_spec:
  assumes ok: "writer_ok g" and env: "env_ok env" and sz: "0 < sz"
  shows "outcome g sz (reserve_free_space env sz g)"
proof -
  have mo: "map_ok (m_logical_size g) (m_size_map g)" using ok by (simp add: writer_ok_def)
  show ?thesis unfolding reserve_free_space_def
    by (rule outcome_search [OF ok frame_refl _ search_part_spec [OF mo sz]])
      (use reserve_loop_spec [OF _ env sz] in simp_all)
qed

lemma get_free_space_spec:
  assumes ok: "writer_ok g" and env: "env_ok env" and sz: "0 < sz" "sz mod 8 = 0"
  shows "case get_free_space env sz g of
      Inl e \<Rightarrow> e = MaximumFileSizeExceeded \<or> e = OutOfDiskSpace
    | Inr (pos, g') \<Rightarrow> writer_ok g' \<and> frame g g' \<and> chunk_ok (m_logical_size g') sz pos \<and> pos + sz \<le> get_upper_section_boundary pos \<and>
        (\<forall>b. cover_free g' b + of_bool (in_block pos sz b) = cover_free g b + grown g g' b)"
proof (cases "reserve_free_space env sz g")
  case (Inl e)
  then show ?thesis using reserve_free_space_spec [OF assms(1-3)] by (simp add: outcome_def get_free_space_def)
next
  case (Inr q)
  obtain i g1 where q: "q = (i, g1)" by (cases q)
  have r: "reserved g sz i g1" using reserve_free_space_spec [OF assms(1-3)] Inr q by (simp add: outcome_def)
  obtain c p where cp: "m_size_map g1 ! i = (c, p)" by (cases "m_size_map g1 ! i")
  have R: "writer_ok g1" "frame g g1" "i < length (m_size_map g1)" "sz \<le> c" "p + sz \<le> get_upper_section_boundary p"
      "\<And>b. cover_free g1 b = cover_free g b + grown g g1 b"
    using r cp by (simp_all add: reserved_def)
  let ?L = "m_logical_size g1" and ?m = "erase_at i (m_size_map g1)"
  define m' where "m' = (if c - sz > 0 then snd (emplace_size (c - sz) (p + sz) ?m) else ?m)"
  have mo: "map_ok ?L (m_size_map g1)" "sorted (map fst (m_size_map g1))" using R(1) by (simp_all add: writer_ok_def)
  have ch: "chunk_ok ?L c p" using map_okD [OF mo(1) R(3)] cp by simp
  then have ch1: "chunk_ok ?L sz p" using sz R(4) by (simp add: chunk_ok_def)
  have ch2: "c - sz > 0 \<Longrightarrow> chunk_ok ?L (c - sz) (p + sz)"
    using ch sz R(4) unfolding chunk_ok_def mod_eq_0_iff_dvd by auto
  obtain j m2 where e: "emplace_size (c - sz) (p + sz) ?m = (j, m2)" by fastforce
  have m': "map_ok ?L m'" "sorted (map fst m')"
    using map_ok_emplace [OF e map_ok_erase [OF R(3) mo(1)] ch2] map_ok_erase [OF R(3) mo(1)]
      emplace_sorted_sizes [OF e erase_at_spec(4) [OF R(3) mo(2)]] erase_at_spec(4) [OF R(3) mo(2)] e by (auto simp: m'_def)
  have cm: "cover m' b + of_bool (in_block p sz b) = cover (m_size_map g1) b" for b
    using emplace_size_spec(3) [OF e, of b] erase_at_spec(1) [OF R(3), of b] in_block_split [OF R(4), of p b] cp R(4) e
    by (auto simp: m'_def in_block_def)
  have cf: "cover_free (g1\<lparr>m_size_map := m'\<rparr>) b = cover m' b + cover_entries (m_under_evacuation g1) b" for b
    by (simp add: cover_free_def)
  have "cover_free (g1\<lparr>m_size_map := m'\<rparr>) b + of_bool (in_block p sz b) = cover_free g b + grown g g1 b" for b
    using cf [of b] cm [of b] R(6) [of b] unfolding cover_free_def [of g1] by linarith
  moreover have "get_free_space env sz g = Inr (p, g1\<lparr>m_size_map := m'\<rparr>)"
    using Inr q cp ch by (simp add: get_free_space_def m'_def Let_def chunk_ok_def)
  moreover have "writer_ok (g1\<lparr>m_size_map := m'\<rparr>)" "frame g (g1\<lparr>m_size_map := m'\<rparr>)"
    using R(1,2) m' by (simp_all add: writer_ok_def frame_def)
  ultimately show ?thesis using ch1 R(5) by simp
qed

end
