(* ===== verification/Free_Lists.thy ===== *)
theory Free_Lists
  imports File_Space_Laws "HOL-Library.Multiset"
begin

text \<open>
  Reading and writing the free lists of the file. Reading sorts the bytes of the lists into
  pinned, evacuated and allocatable ones without losing any and without counting one twice;
  writing puts them back in the order of their positions.
\<close>

subsection \<open>The entries of the free lists\<close>

definition free_list :: "group_writer \<Rightarrow> free_space_entry list" where
  "free_list g = map (\<lambda>(r, s, v). space_entry r s v) (zip (m_free_positions g) (zip (m_free_lengths g) (m_free_versions g)))"

definition entries_ok0 :: "nat \<Rightarrow> free_space_entry list \<Rightarrow> bool" where
  "entries_ok0 L es \<longleftrightarrow> (\<forall>e\<in>set es. space_size e = 0 \<or> chunk_ok L (space_size e) (space_ref e))"

lemma entries_ok0_append [simp]: "entries_ok0 L (xs @ ys) \<longleftrightarrow> entries_ok0 L xs \<and> entries_ok0 L ys"
  by (auto simp: entries_ok0_def)

lemma entries_ok0_Cons [simp]:
  "entries_ok0 L (e # es) \<longleftrightarrow> (space_size e = 0 \<or> chunk_ok L (space_size e) (space_ref e)) \<and> entries_ok0 L es"
  by (simp add: entries_ok0_def)

lemma entries_ok0_Nil [simp]: "entries_ok0 L []"
  by (simp add: entries_ok0_def)

lemma entries_ok0_update:
  "entries_ok0 L es \<Longrightarrow> space_size e = 0 \<or> chunk_ok L (space_size e) (space_ref e) \<Longrightarrow> entries_ok0 L (es[i := e])"
  using set_update_subset_insert [of es i e] unfolding entries_ok0_def by blast

lemma space_entry_simps [simp]:
  "space_ref (space_entry r s v) = r" "space_size (space_entry r s v) = s" "released_at_version (space_entry r s v) = v"
  by (simp_all add: space_entry_def)

lemma cover_entries_update:
  "i < length es \<Longrightarrow> cover_entries (es[i := e]) b + of_bool (in_block (space_ref (es ! i)) (space_size (es ! i)) b) =
     cover_entries es b + of_bool (in_block (space_ref e) (space_size e) b)"
proof (induction es arbitrary: i)
  case (Cons a es)
  show ?case
  proof (cases i)
    case (Suc j)
    then show ?thesis using Cons.IH [of j] Cons.prems by simp
  qed simp
qed simp

lemma cover_entries_pos: "e \<in> set es \<Longrightarrow> in_block (space_ref e) (space_size e) b \<Longrightarrow> 0 < cover_entries es b"
  by (induction es) auto

lemma cover_entries_filter_split: "cover_entries es b = cover_entries (filter P es) b + cover_entries (filter (\<lambda>e. \<not> P e) es) b"
  by (induction es) auto

lemma cover_entries_nonzero: "cover_entries (filter (\<lambda>e. 0 < space_size e) es) b = cover_entries es b"
  by (induction es) (auto simp: in_block_def)

subsection \<open>Merging adjacent entries\<close>

lemma merge_loop_spec:
  "prev < it \<Longrightarrow> it \<le> length es \<Longrightarrow> entries_ok0 L es \<Longrightarrow>
   cover_entries (merge_loop prev it es) b = cover_entries es b \<and> entries_ok0 L (merge_loop prev it es)"
proof (induction prev it es rule: merge_loop.induct)
  case (1 prev it es)
  let ?p = "es ! prev" and ?e = "es ! it"
  consider "\<not> it < length es" | "it < length es" "space_ref ?p + space_size ?p = space_ref ?e" | "it < length es" "space_ref ?p + space_size ?p \<noteq> space_ref ?e"
    by blast
  then show ?case
  proof cases
    case 1
    then show ?thesis using "1.prems" by (subst (1 2) merge_loop.simps) simp
  next
    case 2
    let ?p' = "?p\<lparr>space_size := space_size ?p + space_size ?e\<rparr>" and ?e' = "?e\<lparr>space_size := 0\<rparr>"
    let ?es = "es[prev := ?p', it := ?e']"
    have ne: "prev \<noteq> it" "prev < length es" using "1.prems" 2(1) by simp_all
    have eq: "merge_loop prev it es = merge_loop prev (it + 1) ?es" using 2 by (subst merge_loop.simps) simp
    have "cover_entries (es[prev := ?p']) b + of_bool (in_block (space_ref ?p) (space_size ?p) b) =
        cover_entries es b + of_bool (in_block (space_ref ?p) (space_size ?p + space_size ?e) b)"
      using cover_entries_update [OF ne(2), of ?p' b] by simp
    moreover have "cover_entries ?es b + of_bool (in_block (space_ref ?e) (space_size ?e) b) = cover_entries (es[prev := ?p']) b"
      using cover_entries_update [of it "es[prev := ?p']" ?e' b] 2(1) ne(1) by (simp add: in_block_def)
    moreover have "of_bool (in_block (space_ref ?p) (space_size ?p + space_size ?e) b) =
        (of_bool (in_block (space_ref ?p) (space_size ?p) b) + of_bool (in_block (space_ref ?e) (space_size ?e) b) :: nat)"
      using in_block_split [of "space_size ?p" "space_size ?p + space_size ?e" "space_ref ?p" b] 2(2) by simp
    ultimately have c: "cover_entries ?es b = cover_entries es b" by linarith
    have po: "space_size ?p = 0 \<or> chunk_ok L (space_size ?p) (space_ref ?p)" "space_size ?e = 0 \<or> chunk_ok L (space_size ?e) (space_ref ?e)"
      using "1.prems"(3) ne(2) 2(1) by (simp_all add: entries_ok0_def)
    have "space_size ?p + space_size ?e = 0 \<or> chunk_ok L (space_size ?p + space_size ?e) (space_ref ?p)"
      using po 2(2) by (cases "space_size ?p = 0"; cases "space_size ?e = 0") (auto simp: chunk_ok_def mod_eq_0_iff_dvd)
    then have "entries_ok0 L ?es" using "1.prems"(3) by (intro entries_ok0_update) simp_all
    then show ?thesis using "1.IH"(1) [OF 2] "1.prems"(1) 2(1) c eq by simp
  next
    case 3
    then have "merge_loop prev it es = merge_loop it (it + 1) es" by (subst merge_loop.simps) simp
    then show ?thesis using "1.IH"(2) [OF 3] "1.prems" 3(1) by simp
  qed
qed

lemma merge_adjacent_spec:
  assumes "entries_ok0 L es"
  shows "cover_entries (merge_adjacent_entries_in_freelist es) b = cover_entries es b"
    "entries_ok0 L (merge_adjacent_entries_in_freelist es)"
  using merge_loop_spec [of 0 1 es L b] assms by (auto simp: merge_adjacent_entries_in_freelist_def)

lemma move_free_spec:
  "entries_ok0 L es \<Longrightarrow> map_ok L m \<Longrightarrow> sorted (map fst m) \<Longrightarrow>
   \<exists>m'. move_free_in_file_to_size_map es m = Inr m' \<and> map_ok L m' \<and> sorted (map fst m') \<and> (\<forall>b. cover m' b = cover m b + cover_entries es b)"
proof (induction es arbitrary: m)
  case (Cons e es)
  have es: "entries_ok0 L es" using Cons.prems(1) by (simp add: entries_ok0_def)
  show ?case
  proof (cases "space_size e = 0")
    case True
    then show ?thesis using Cons.IH [OF es Cons.prems(2,3)] by (auto simp: in_block_def)
  next
    case False
    then have ch: "chunk_ok L (space_size e) (space_ref e)" using Cons.prems(1) by (simp add: entries_ok0_def)
    obtain i m1 where e: "emplace_size (space_size e) (space_ref e) m = (i, m1)" by fastforce
    obtain m' where "move_free_in_file_to_size_map es m1 = Inr m'" "map_ok L m'" "sorted (map fst m')"
        "\<forall>b. cover m' b = cover m1 b + cover_entries es b"
      using Cons.IH [OF es map_ok_emplace [OF e Cons.prems(2) ch] emplace_sorted_sizes [OF e Cons.prems(3)]] by blast
    then show ?thesis using False ch e emplace_size_spec(3) [OF e] by (auto simp: chunk_ok_def)
  qed
qed simp

subsection \<open>Sorting the entries\<close>

lemma sort_entry_fold:
  "fold (sort_entry v lim) xs (p, ev, fr) = (p', ev', fr') \<Longrightarrow> lim mod 8 = 0 \<or> (\<forall>(r, s, x)\<in>set xs. r + s \<le> lim) \<Longrightarrow> 0 < lim \<Longrightarrow>
   \<forall>(r, s, x)\<in>set xs. chunk_ok L s r \<Longrightarrow>
   p' = p @ map (\<lambda>(r, s, x). space_entry r s x) (filter (\<lambda>(r, s, x). v < x) xs) \<and>
   cover_entries ev' b + cover_entries fr' b =
     cover_entries ev b + cover_entries fr b + cover_entries (map (\<lambda>(r, s, x). space_entry r s x) (filter (\<lambda>(r, s, x). \<not> v < x) xs)) b \<and>
   (entries_ok0 L ev \<longrightarrow> entries_ok0 L ev') \<and> (entries_ok0 L fr \<longrightarrow> entries_ok0 L fr')"
proof (induction xs arbitrary: p ev fr)
  case (Cons a xs)
  obtain r s x where a: "a = (r, s, x)" by (cases a)
  obtain p1 ev1 fr1 where s1: "sort_entry v lim a (p, ev, fr) = (p1, ev1, fr1)" by (metis prod_cases3)
  have ch: "chunk_ok L s r" and tl: "lim mod 8 = 0 \<or> (\<forall>(r, s, x)\<in>set xs. r + s \<le> lim)" "\<forall>(r, s, x)\<in>set xs. chunk_ok L s r"
    and lim: "lim mod 8 = 0 \<or> r + s \<le> lim"
    using Cons.prems a by auto
  have f: "fold (sort_entry v lim) xs (p1, ev1, fr1) = (p', ev', fr')" using Cons.prems(1) s1 by simp
  note IH = Cons.IH [OF f tl(1) Cons.prems(3) tl(2)]
  have p1: "p1 = p @ (if v < x then [space_entry r s x] else [])" using s1 a by (auto simp: sort_entry_def Let_def split: if_splits)
  have c1: "cover_entries ev1 b + cover_entries fr1 b = cover_entries ev b + cover_entries fr b + (if v < x then 0 else of_bool (in_block r s b))"
    using s1 a in_block_split [of "lim - r" s r b] by (auto simp: sort_entry_def Let_def split: if_splits)
  have half: "(lim - r) mod 8 = 0 \<and> (s - (lim - r)) mod 8 = 0" if "lim mod 8 = 0"
    using that ch unfolding chunk_ok_def mod_eq_0_iff_dvd by auto
  have "chunk_ok L (lim - r) r \<and> chunk_ok L (s - (lim - r)) lim" if "r < lim" "lim < r + s"
    using that ch lim half by (auto simp: chunk_ok_def)
  then have o1: "entries_ok0 L ev \<Longrightarrow> entries_ok0 L ev1" "entries_ok0 L fr \<Longrightarrow> entries_ok0 L fr1"
    using s1 a ch by (auto simp: sort_entry_def Let_def split: if_splits)
  show ?case using IH p1 c1 o1 a by auto
qed simp

text \<open>A writer as the constructor makes it, and what reading the lists makes of it.\<close>

definition fresh_writer :: "group_writer \<Rightarrow> bool" where
  "fresh_writer g \<longleftrightarrow> m_size_map g = [] \<and> m_under_evacuation g = [] \<and> m_not_free_in_file g = [] \<and>
     length (m_free_positions g) = length (m_free_lengths g) \<and> length (m_free_versions g) = length (m_free_lengths g) \<and>
     entries_ok (m_logical_size g) (free_list g) \<and> 0 < m_logical_size g \<and> m_logical_size g mod 8 = 0 \<and> m_logical_size g < 2 ^ 64 \<and>
     m_evacuation_limit g mod 8 = 0"

lemma read_in_freelist_spec:
  assumes fresh: "fresh_writer g"
  shows "\<exists>g'. read_in_freelist g = Inr g' \<and> writer_ok g' \<and> m_logical_size g' = m_logical_size g \<and>
    m_not_free_in_file g' = filter (\<lambda>e. m_oldest_reachable_version g < released_at_version e) (free_list g) \<and>
    (\<forall>b. cover_free g' b = cover_entries (filter (\<lambda>e. \<not> m_oldest_reachable_version g < released_at_version e) (free_list g)) b) \<and>
    m_free_positions g' = [] \<and> m_free_lengths g' = [] \<and> m_free_versions g' = [] \<and> m_current_version g' = m_current_version g \<and>
    m_oldest_reachable_version g' = m_oldest_reachable_version g \<and> m_top_ref_map g' = m_top_ref_map g \<and>
    m_any_new_unreachables g' = m_any_new_unreachables g"
proof -
  let ?L = "m_logical_size g" and ?v = "m_oldest_reachable_version g" and ?f = "\<lambda>(r, s, x). space_entry r s x"
  define lim where "lim = (if m_evacuation_limit g \<noteq> 0 then m_evacuation_limit g else 2 ^ 64 - 1)"
  define xs where "xs = zip (m_free_positions g) (zip (m_free_lengths g) (m_free_versions g))"
  have fl: "free_list g = map ?f xs" by (simp add: free_list_def xs_def)
  have ok: "\<forall>(r, s, x)\<in>set xs. chunk_ok ?L s r" using fresh unfolding fresh_writer_def fl entries_ok_def by auto
  obtain p ev fr where fold: "fold (sort_entry ?v lim) xs ([], [], []) = (p, ev, fr)" by (metis prod_cases3)
  have "lim mod 8 = 0 \<or> (\<forall>(r, s, x)\<in>set xs. r + s \<le> lim)"
    using ok fresh by (auto simp: lim_def fresh_writer_def chunk_ok_def)
  note S = sort_entry_fold [OF fold this _ ok]
  have pos: "0 < lim" by (simp add: lim_def)
  have filt: "map ?f (filter (\<lambda>(r, s, x). P x) xs) = filter (\<lambda>e. P (released_at_version e)) (map ?f xs)" for P
    by (induction xs) auto
  have p: "p = filter (\<lambda>e. ?v < released_at_version e) (free_list g)"
    using S [OF pos] filt [of "\<lambda>x. ?v < x"] by (simp add: fl)
  have c: "cover_entries ev b + cover_entries fr b = cover_entries (filter (\<lambda>e. \<not> ?v < released_at_version e) (free_list g)) b" for b
    using S [OF pos, of b] filt [of "\<lambda>x. \<not> ?v < x"] by (simp add: fl)
  have o: "entries_ok0 ?L ev" "entries_ok0 ?L fr" using S [OF pos] by simp_all
  let ?ev = "filter (\<lambda>e. space_size e \<noteq> 0) (merge_adjacent_entries_in_freelist ev)" and ?fr = "merge_adjacent_entries_in_freelist fr"
  note ME = merge_adjacent_spec [OF o(1)] and MF = merge_adjacent_spec [OF o(2)]
  obtain m where m: "move_free_in_file_to_size_map ?fr [] = Inr m" "map_ok ?L m" "sorted (map fst m)" "\<forall>b. cover m b = cover_entries ?fr b"
    using move_free_spec [OF MF(2), of "[]"] by (auto simp: map_ok_def)
  let ?g = "g\<lparr>m_free_positions := [], m_free_lengths := [], m_free_versions := [], m_not_free_in_file := p, m_under_evacuation := ?ev, m_size_map := m\<rparr>"
  have run: "read_in_freelist g = Inr ?g"
    unfolding read_in_freelist_def Let_def lim_def [symmetric] xs_def [symmetric] using fresh fold m(1) by (simp add: fresh_writer_def)
  have "writer_ok ?g"
    using fresh m(2,3) ME(2) by (auto simp: writer_ok_def fresh_writer_def p entries_ok_def entries_ok0_def)
  moreover have "cover_free ?g b = cover_entries (filter (\<lambda>e. \<not> ?v < released_at_version e) (free_list g)) b" for b
    using c [of b] m(4) ME(1) [of b] MF(1) [of b] by (simp add: cover_free_def cover_entries_nonzero)
  ultimately show ?thesis using run p by simp
qed

subsection \<open>Writing the lists\<close>

lemma recreate_loop_spec:
  assumes "sorted_wrt (\<lambda>a b. space_ref a + space_size a \<le> space_ref b) es" "\<And>e. e \<in> set es \<Longrightarrow> pr + ps \<le> space_ref e"
  shows "\<exists>ndx fs g'. recreate_loop rp es i pr ps (ndx0, fs0, g) = Inr (ndx, fs, g') \<and>
    g' = g\<lparr>m_free_positions := m_free_positions g @ map space_ref es, m_free_lengths := m_free_lengths g @ map space_size es,
           m_free_versions := m_free_versions g @ map released_at_version es\<rparr> \<and>
    (\<forall>j. ndx = Some j \<longrightarrow> ndx0 = Some j \<or> i \<le> j \<and> j < i + length es \<and> space_ref (es ! (j - i)) = rp) \<and>
    (rp \<in> space_ref ` set es \<longrightarrow> ndx \<noteq> None) \<and> (ndx0 \<noteq> None \<longrightarrow> ndx \<noteq> None)"
  using assms
proof (induction es arbitrary: i pr ps ndx0 fs0 g)
  case (Cons e es)
  define ndx1 where "ndx1 = (if rp = space_ref e then Some i else ndx0)"
  define fs1 where "fs1 = (if rp = space_ref e then fs0 else fs0 + space_size e)"
  define g1 where "g1 = g\<lparr>m_free_positions := m_free_positions g @ [space_ref e], m_free_lengths := m_free_lengths g @ [space_size e],
                     m_free_versions := m_free_versions g @ [released_at_version e]\<rparr>"
  have step: "recreate_loop rp (e # es) i pr ps (ndx0, fs0, g) = recreate_loop rp es (i + 1) (space_ref e) (space_size e) (ndx1, fs1, g1)"
    using Cons.prems(2) [of e] by (simp add: ndx1_def fs1_def g1_def Let_def)
  obtain ndx fs g' where IH: "recreate_loop rp es (i + 1) (space_ref e) (space_size e) (ndx1, fs1, g1) = Inr (ndx, fs, g')"
     "g' = g1\<lparr>m_free_positions := m_free_positions g1 @ map space_ref es, m_free_lengths := m_free_lengths g1 @ map space_size es,
           m_free_versions := m_free_versions g1 @ map released_at_version es\<rparr>"
     "\<And>j. ndx = Some j \<Longrightarrow> ndx1 = Some j \<or> i + 1 \<le> j \<and> j < i + 1 + length es \<and> space_ref (es ! (j - (i + 1))) = rp"
     "rp \<in> space_ref ` set es \<longrightarrow> ndx \<noteq> None" "ndx1 \<noteq> None \<longrightarrow> ndx \<noteq> None"
    using Cons.IH [of "space_ref e" "space_size e" "i + 1" ndx1 fs1 g1] Cons.prems by auto
  have "ndx0 = Some j \<or> i \<le> j \<and> j < i + length (e # es) \<and> space_ref ((e # es) ! (j - i)) = rp" if "ndx = Some j" for j
  proof -
    from IH(3) [OF that] show ?thesis
    proof
      assume "i + 1 \<le> j \<and> j < i + 1 + length es \<and> space_ref (es ! (j - (i + 1))) = rp"
      then show ?thesis by (auto simp: nth_Cons')
    qed (auto simp: ndx1_def split: if_splits)
  qed
  then show ?case using step IH by (intro exI [of _ ndx] exI [of _ fs] exI [of _ g']) (auto simp: ndx1_def g1_def)
qed simp

text \<open>Entries of which no byte is in two are apart once they are sorted.\<close>

lemma sorted_apart:
  assumes "sorted (map space_ref es)" "\<And>e. e \<in> set es \<Longrightarrow> 0 < space_size e" "\<And>b. cover_entries es b \<le> 1"
  shows "sorted_wrt (\<lambda>a b. space_ref a + space_size a \<le> space_ref b) es"
  using assms
proof (induction es)
  case (Cons e es)
  have "cover_entries es b \<le> 1" for b using Cons.prems(3) [of b] by simp
  moreover have "space_ref e + space_size e \<le> space_ref a" if a: "a \<in> set es" for a
  proof (rule ccontr)
    assume "\<not> space_ref e + space_size e \<le> space_ref a"
    then have "in_block (space_ref e) (space_size e) (space_ref a)" using Cons.prems(1) a by (simp add: in_block_def)
    moreover have "0 < cover_entries es (space_ref a)"
      using cover_entries_pos [OF a, of "space_ref a"] Cons.prems(2) [of a] a by (simp add: in_block_def)
    ultimately show False using Cons.prems(3) [of "space_ref a"] by simp
  qed
  ultimately show ?case using Cons by simp
qed simp

lemma cover_entries_mset: "mset es = mset es' \<Longrightarrow> cover_entries es b = cover_entries es' b"
  unfolding cover_entries_def by (metis mset_filter size_mset)

definition all_free :: "(nat \<times> nat) list \<Rightarrow> group_writer \<Rightarrow> free_space_entry list" where
  "all_free new_free_space g = map (\<lambda>(sz, pos). space_entry pos sz 0) (m_size_map g) @ m_not_free_in_file g @
     map (\<lambda>(ref, sz). space_entry ref sz (m_current_version g)) new_free_space @
     map (\<lambda>e. space_entry (space_ref e) (space_size e) 0) (m_under_evacuation g)"

lemma cover_all_free:
  "cover_entries (all_free nf g) b =
     cover_free g b + cover_entries (m_not_free_in_file g) b + cover_entries (map (\<lambda>(ref, sz). space_entry ref sz (m_current_version g)) nf) b"
proof -
  have "cover_entries (map (\<lambda>(sz, pos). space_entry pos sz 0) m) b = cover m b" for m by (induction m) auto
  moreover have "cover_entries (map (\<lambda>e. space_entry (space_ref e) (space_size e) 0) es) b = cover_entries es b" for es by (induction es) auto
  ultimately show ?thesis by (simp add: all_free_def cover_free_def)
qed

lemma recreate_freelist_spec:
  assumes clear: "m_free_positions g = []" "m_free_lengths g = []" "m_free_versions g = []"
    and pos: "\<And>e. e \<in> set (all_free nf g) \<Longrightarrow> 0 < space_size e" and apart: "\<And>b. cover_entries (all_free nf g) b \<le> 1"
    and reserve: "reserve_pos \<in> snd ` set (m_size_map g)"
  shows "\<exists>ndx g'. recreate_freelist reserve_pos nf g = Inr (ndx, g') \<and> free_list g' = sort_key space_ref (all_free nf g) \<and>
    ndx < length (free_list g') \<and> space_ref (free_list g' ! ndx) = reserve_pos \<and>
    sorted_wrt (\<lambda>a b. space_ref a + space_size a \<le> space_ref b) (free_list g') \<and>
    m_free_positions g' = map space_ref (free_list g') \<and> m_free_lengths g' = map space_size (free_list g') \<and>
    m_free_versions g' = map released_at_version (free_list g') \<and> m_logical_size g' = m_logical_size g \<and>
    m_current_version g' = m_current_version g"
proof -
  let ?es = "sort_key space_ref (all_free nf g)"
  define g1 where "g1 = g\<lparr>m_locked_space_size := sum_list (map space_size (m_not_free_in_file g)) + sum_list (map snd nf)\<rparr>"
  have ap: "sorted_wrt (\<lambda>a b. space_ref a + space_size a \<le> space_ref b) ?es"
    using pos apart by (intro sorted_apart) (simp_all add: cover_entries_mset [of ?es "all_free nf g"])
  obtain ndx fs g' where R: "recreate_loop reserve_pos ?es 0 0 0 (None, 0, g1) = Inr (ndx, fs, g')"
     "g' = g1\<lparr>m_free_positions := m_free_positions g1 @ map space_ref ?es, m_free_lengths := m_free_lengths g1 @ map space_size ?es,
           m_free_versions := m_free_versions g1 @ map released_at_version ?es\<rparr>"
     "\<And>j. ndx = Some j \<Longrightarrow> j < length ?es \<and> space_ref (?es ! j) = reserve_pos" "reserve_pos \<in> space_ref ` set ?es \<longrightarrow> ndx \<noteq> None"
    using recreate_loop_spec [OF ap, of 0 0 reserve_pos 0 None 0 g1] by auto
  have "reserve_pos \<in> space_ref ` set ?es" using reserve by (force simp: all_free_def)
  then obtain j where j: "ndx = Some j" using R(4) by blast
  let ?g = "g'\<lparr>m_free_space_size := fs\<rparr>"
  have lists: "m_free_positions ?g = map space_ref ?es" "m_free_lengths ?g = map space_size ?es" "m_free_versions ?g = map released_at_version ?es"
    using R(2) clear by (simp_all add: g1_def)
  have fl: "free_list ?g = ?es" unfolding free_list_def lists by (rule nth_equalityI) (simp_all add: space_entry_def)
  have "recreate_freelist reserve_pos nf g = Inr (j, ?g)"
    using R(1) j by (simp add: recreate_freelist_def Let_def all_free_def g1_def)
  then show ?thesis using R(2) R(3) [OF j] fl lists ap by (intro exI [of _ j] exI [of _ ?g]) (simp add: g1_def)
qed

end
