(* ===== verification/Group_Writer.thy ===== *)
theory Group_Writer
  imports Free_Lists Commit_Journal
begin

text \<open>
  The commit of a transaction to the file (\<^verbatim>\<open>GroupWriter\<close> of \<^verbatim>\<open>src/llbt/group_writer.cpp\<close>):
  writing arrays into free space, dating back entries of the free lists that no reachable
  snapshot needs, and \<^verbatim>\<open>write_group\<close>, which does it all. The traversal that finds the changed
  arrays is not modelled: the arrays come in as the list of the blocks it writes, and the slots of
  the top array that it sets as a function of the refs it gets for them. The arrays of the free
  lists and the top array are lists of numbers with an element width, and \<open>array_image\<close> makes the
  bytes of such an array. The timers of the commit metrics are left out.
\<close>

subsection \<open>The code: writing arrays\<close>

record write_log =
  m_arrays_written :: nat
  m_bytes_written :: nat
  m_binary_payload_bytes :: nat
  m_written_arrays :: "written_array list"
  file_bytes :: mem

definition new_write_log :: "mem \<Rightarrow> write_log" where
  "new_write_log m = \<lparr>m_arrays_written = 0, m_bytes_written = 0, m_binary_payload_bytes = 0, m_written_arrays = [], file_bytes = m\<rparr>"

definition write_array :: "file_env \<Rightarrow> byte list \<Rightarrow> u32 \<Rightarrow> group_writer \<times> write_log \<Rightarrow> (nat \<times> group_writer \<times> write_log) result" where
  "write_array env d checksum = (\<lambda>(g, lg).
     bind_result (get_free_space env (length d) g) (\<lambda>(pos, g).
       let f = write_mem (file_bytes lg) pos (le_bytes 4 checksum);
           f = write_mem f (pos + 4) (drop 4 d);
           h = write_mem (\<lambda>_. 0) 0 d;
           payload = (if \<not> get_hasrefs_from_header h 0 \<and> get_wtype_from_header h 0 = wtype_Ignore then length d - header_size else 0)
       in Inr (pos, g, lg\<lparr>m_arrays_written := m_arrays_written lg + 1, m_bytes_written := m_bytes_written lg + length d,
            m_binary_payload_bytes := m_binary_payload_bytes lg + payload,
            m_written_arrays := m_written_arrays lg @
              [\<lparr>wa_ref = of_nat pos, wa_size = of_nat (length d), wa_checksum = checksum\<rparr>],
            file_bytes := f\<rparr>)))"

fun write_arrays :: "file_env \<Rightarrow> (byte list \<times> u32) list \<Rightarrow> group_writer \<times> write_log \<Rightarrow> (nat list \<times> group_writer \<times> write_log) result" where
  "write_arrays env [] s = Inr ([], s)"
| "write_arrays env ((d, checksum) # ds) s =
     bind_result (write_array env d checksum s) (\<lambda>(pos, s).
       bind_result (write_arrays env ds s) (\<lambda>(poss, s). Inr (pos # poss, s)))"

text \<open>
  The bytes of an integer array in memory. The capacity in its header is not copied to the file, and
  nothing reads the bits behind the last element, which are zero here.
\<close>

definition array_image :: "bool \<Rightarrow> nat \<Rightarrow> nat list \<Rightarrow> byte list" where
  "array_image has_refs width vs =
     (let n = length vs;
          m = init_header (\<lambda>_. 0) 0 False has_refs False wtype_Bits width n 8;
          m = fold (\<lambda>i m. set_direct width m header_size i (int (vs ! i))) [0..<n] m
      in read_mem m 0 (calc_byte_size wtype_Bits n width))"

definition write_array_at :: "nat \<Rightarrow> byte list \<Rightarrow> write_log \<Rightarrow> write_log" where
  "write_array_at ref d lg =
     (let checksum = crc_compute (drop 4 d);
          f = write_mem (file_bytes lg) ref (le_bytes 4 checksum);
          f = write_mem f (ref + 4) (drop 4 d);
          h = write_mem (\<lambda>_. 0) 0 d;
          payload = (if \<not> get_hasrefs_from_header h 0 \<and> get_wtype_from_header h 0 = wtype_Ignore then length d - header_size else 0)
      in lg\<lparr>m_arrays_written := m_arrays_written lg + 1, m_bytes_written := m_bytes_written lg + length d,
           m_binary_payload_bytes := m_binary_payload_bytes lg + payload,
           m_written_arrays := m_written_arrays lg @
             [\<lparr>wa_ref = of_nat ref, wa_size = of_nat (length d), wa_checksum = checksum\<rparr>],
           file_bytes := f\<rparr>)"

subsection \<open>The code: dating back\<close>

record old_free_list =
  fl_lists :: "(nat list \<times> nat list \<times> nat list) option"
  fl_logical_file_size :: nat
  fl_version :: nat

definition array_values :: "mem \<Rightarrow> nat \<Rightarrow> nat list" where
  "array_values m ref = (let a = init_from_ref m ref in map (\<lambda>i. unat (of_int (array_get m a i) :: u64)) [0..<m_size a])"

text \<open>The free list that the top array of a snapshot refers to; the code reads it when it is first needed.\<close>

definition load_free_list :: "mem \<Rightarrow> nat \<Rightarrow> (nat list \<times> nat list \<times> nat list) option" where
  "load_free_list m top_ref =
     (if top_ref \<noteq> 0
      then let top_array = init_from_ref m top_ref
           in if m_size top_array > s_free_version_ndx
              then Some (array_values m (array_get_as_ref m top_array s_free_pos_ndx),
                         array_values m (array_get_as_ref m top_array s_free_size_ndx),
                         array_values m (array_get_as_ref m top_array s_free_version_ndx))
              else None
      else None)"

definition old_freelists :: "mem \<Rightarrow> group_writer \<Rightarrow> old_free_list list" where
  "old_freelists m g =
     map (\<lambda>(version, (top_ref, logical_file_size)).
            \<lparr>fl_lists = load_free_list m top_ref, fl_logical_file_size = logical_file_size, fl_version = version\<rparr>)
       (filter (\<lambda>(version, info). \<not> version < m_oldest_reachable_version g) (m_top_ref_map g))"

text \<open>The youngest version older than the given one; there always is one where it is asked for.\<close>

definition get_earlier :: "nat \<Rightarrow> old_free_list list \<Rightarrow> old_free_list" where
  "get_earlier v fls = last (takeWhile (\<lambda>e. fl_version e < v) fls)"

fun coalesce :: "nat \<Rightarrow> (nat \<times> nat \<times> nat) list \<Rightarrow> nat \<Rightarrow> nat \<Rightarrow> nat \<times> nat" where
  "coalesce entry_end [] end_pos found_version = (end_pos, found_version)"
| "coalesce entry_end ((pos, len, v) # rest) end_pos found_version =
     (if pos = end_pos \<and> end_pos < entry_end then coalesce entry_end rest (end_pos + len) (max found_version v)
      else (end_pos, found_version))"

text \<open>
  \<^verbatim>\<open>upper_bound_int\<close> on the ascending positions is the number of positions that are not greater.
\<close>

definition find_cover_for :: "nat \<Rightarrow> nat \<Rightarrow> old_free_list \<Rightarrow> nat option" where
  "find_cover_for ref sz fl =
     (let entry_end = min (ref + sz) (fl_logical_file_size fl)
      in if ref \<ge> entry_end then Some 0
         else case fl_lists fl of
                None \<Rightarrow> None
              | Some (positions, lengths, versions) \<Rightarrow>
                  let limit = length positions
                  in if limit = 0 then None
                     else let upper = length (takeWhile (\<lambda>p. p \<le> ref) positions)
                          in if upper = 0 then None
                             else let index = upper - 1;
                                      start_pos = positions ! index;
                                      end_pos = start_pos + lengths ! index
                                  in if end_pos \<le> ref then None
                                     else let (end_pos, found_version) =
                                                coalesce entry_end (drop (index + 1) (zip positions (zip lengths versions)))
                                                  end_pos (versions ! index)
                                          in if end_pos < entry_end then None else Some found_version)"

partial_function (option) backdate_loop :: "old_free_list list \<Rightarrow> nat \<Rightarrow> nat \<Rightarrow> nat \<Rightarrow> nat \<Rightarrow> nat option" where
  "backdate_loop fls oldest ref sz v =
     (if v = 0 then Some v
      else if v \<le> oldest then Some v
      else case find_cover_for ref sz (get_earlier v fls) of
             None \<Rightarrow> Some v
           | Some covering_version \<Rightarrow> backdate_loop fls oldest ref sz covering_version)"

definition backdate_single_entry :: "old_free_list list \<Rightarrow> group_writer \<Rightarrow> free_space_entry \<Rightarrow> free_space_entry option" where
  "backdate_single_entry fls g e =
     (if released_at_version e = m_current_version g then Some e
      else map_option (\<lambda>v. e\<lparr>released_at_version := v\<rparr>)
             (backdate_loop fls (m_oldest_reachable_version g) (space_ref e) (space_size e) (released_at_version e)))"

definition backdate :: "mem \<Rightarrow> group_writer \<Rightarrow> group_writer option" where
  "backdate m g =
     (let fls = old_freelists m g;
          es = map (backdate_single_entry fls g) (m_not_free_in_file g)
      in if None \<in> set es then None else Some (g\<lparr>m_not_free_in_file := map the es\<rparr>))"

subsection \<open>The code: evacuation\<close>

text \<open>
  \<^verbatim>\<open>prepare_evacuation\<close> for the value of the slot: nothing, the limit of a new evacuation as a tagged
  integer, or the array that a commit has left.
\<close>

definition s_evacuation_point_ndx :: nat where "s_evacuation_point_ndx = 11"

datatype evacuation_point = no_evacuation | new_limit nat | evacuation_state "int list"

definition prepare_evacuation :: "evacuation_point \<Rightarrow> nat \<Rightarrow> group_writer \<Rightarrow> group_writer" where
  "prepare_evacuation slot free_positions_ref g =
     (case slot of
        no_evacuation \<Rightarrow> g
      | new_limit val \<Rightarrow> g\<lparr>m_evacuation_limit := val\<rparr>
      | evacuation_state arr \<Rightarrow>
          let g = g\<lparr>m_evacuation_limit := nat (arr ! 0), m_backoff := arr ! 1\<rparr>;
              g = (if m_backoff g > 0 then g\<lparr>m_backoff := m_backoff g - 1\<rparr>
                   else g\<lparr>m_evacuation_progress := m_evacuation_progress g @ map nat (drop 2 arr)\<rparr>)
          in if m_evacuation_limit g > 0 \<and> free_positions_ref > m_evacuation_limit g
             then g\<lparr>m_backoff := 10, m_evacuation_limit := 0\<rparr> else g)"

definition set_backoff :: "bool \<Rightarrow> group_writer \<Rightarrow> group_writer" where
  "set_backoff has_slot g =
     (if has_slot \<and> (m_evacuation_limit g \<noteq> 0 \<or> m_backoff g \<noteq> 0) \<and> m_backoff g = 0 \<and> m_evacuation_progress g = []
      then g\<lparr>m_backoff := 1000\<rparr> else g)"

definition shrink_file :: "file_env \<Rightarrow> group_writer \<Rightarrow> group_writer" where
  "shrink_file env g =
     (if length (m_under_evacuation g) = 1
      then let elem = last (m_under_evacuation g)
           in if space_ref elem + space_size elem = m_logical_size g
              then let pos = space_ref elem;
                       logical = round_up_to_page_size (page_size env) pos;
                       elem = elem\<lparr>space_size := logical - pos\<rparr>
                   in g\<lparr>m_logical_size := logical, m_evacuation_limit := 0,
                        m_under_evacuation := (if space_size elem = 0 then [] else [elem])\<rparr>
              else g
      else g)"

text \<open>Whether \<^verbatim>\<open>write_group\<close> reduces the logical size of the file; it then clears the evacuation slot.\<close>

definition shrinks :: "group_writer \<Rightarrow> bool" where
  "shrinks g \<longleftrightarrow> length (m_under_evacuation g) = 1 \<and>
     space_ref (last (m_under_evacuation g)) + space_size (last (m_under_evacuation g)) = m_logical_size g"

definition start_compaction :: "file_env \<Rightarrow> nat \<Rightarrow> nat \<Rightarrow> nat list \<Rightarrow> group_writer \<Rightarrow> nat list \<times> group_writer" where
  "start_compaction env reserve_size max_free_space_needed m_top g =
     (if m_logical_size g \<ge> 0x100000 \<and> m_evacuation_limit g = 0 \<and> m_backoff g = 0
      then let free_space = m_free_space_size g + reserve_size - max_free_space_needed - m_locked_space_size g;
               used_space = m_logical_size g - free_space
           in if free_space > 2 * used_space
              then let limit = round_up_to_page_size (page_size env) (used_space + used_space div 2);
                       limit = max 0x10000 limit;
                       m_top = m_top @ replicate (s_evacuation_point_ndx + 1 - length m_top) 0
                   in (m_top[s_evacuation_point_ndx := nat (make_tagged limit)], g\<lparr>m_evacuation_limit := limit\<rparr>)
              else (m_top, g)
      else (m_top, g))"

subsection \<open>The code: the commit\<close>

definition get_max_byte_size :: "nat \<Rightarrow> nat" where
  "get_max_byte_size num_elems = header_size + num_elems * 8"

definition size_per_free_list_entry :: "group_writer \<Rightarrow> nat" where
  "size_per_free_list_entry g = (if m_logical_size g < 0x8000000 then 8 else 16) + 8"

text \<open>The width an array has after the values have been added to it one by one.\<close>

definition list_width :: "nat list \<Rightarrow> nat" where
  "list_width xs = fold (\<lambda>x w. max w (bit_width (int x))) xs 0"

definition max_free_space_needed :: "nat \<Rightarrow> (nat \<times> nat) list \<Rightarrow> group_writer \<Rightarrow> nat" where
  "max_free_space_needed top_size new_free_space g =
     (let max_free_list_size = length (m_size_map g) + length new_free_space + length (m_not_free_in_file g) +
            length (m_under_evacuation g) + 10
      in get_max_byte_size top_size + size_per_free_list_entry g * max_free_list_size)"

text \<open>
  The last part: the places of the free lists and of the top array in the reserved block, and the
  four arrays. The width of the positions is raised first, so that the end of the used part of the
  block can be stored as the position of the entry that keeps the rest of it.
\<close>

definition finish_lists :: "file_env \<Rightarrow> nat list \<Rightarrow> nat \<Rightarrow> nat \<Rightarrow> nat \<Rightarrow> nat \<Rightarrow> nat \<Rightarrow> group_writer \<times> write_log \<Rightarrow>
  nat \<times> nat \<times> group_writer \<times> write_log" where
  "finish_lists env m_top top_width needed reserve_size reserve_pos reserve_ndx = (\<lambda>(g, lg).
     let n = length (m_free_positions g);
         positions_width = max (list_width (m_free_positions g)) (bit_width (int (reserve_pos + needed)));
         lengths_width = list_width (m_free_lengths g);
         versions_width = list_width (m_free_versions g);
         free_positions_ref = reserve_pos;
         free_sizes_ref = free_positions_ref + calc_byte_size wtype_Bits n positions_width;
         free_versions_ref = free_sizes_ref + calc_byte_size wtype_Bits n lengths_width;
         top_ref = free_versions_ref + calc_byte_size wtype_Bits n versions_width;
         m_top = m_top[s_free_pos_ndx := free_positions_ref, s_free_size_ndx := free_sizes_ref,
                       s_free_version_ndx := free_versions_ref, s_version_ndx := nat (make_tagged (m_current_version g))];
         (m_top, g) = start_compaction env reserve_size needed m_top g;
         top_width = max top_width (list_width m_top);
         end_ref = top_ref + calc_byte_size wtype_Bits (length m_top) top_width;
         rest = reserve_pos + reserve_size - end_ref;
         g = g\<lparr>m_free_positions := (m_free_positions g)[reserve_ndx := end_ref],
               m_free_lengths := (m_free_lengths g)[reserve_ndx := rest],
               m_free_space_size := m_free_space_size g + rest\<rparr>;
         lg = write_array_at free_positions_ref (array_image False positions_width (m_free_positions g)) lg;
         lg = write_array_at free_sizes_ref (array_image False lengths_width (m_free_lengths g)) lg;
         lg = write_array_at free_versions_ref (array_image False versions_width (m_free_versions g)) lg;
         lg = write_array_at top_ref (array_image True top_width m_top) lg
     in (top_ref, end_ref, g, lg))"

text \<open>
  The second half of \<^verbatim>\<open>write_group\<close>: room for the free lists and the top array, and the new lists. The
  result has the reserved block, the ref of the top array, and the end of what is used of the block.
  The slot of the file size, which the code sets whenever the size changes, is set once.
\<close>

definition write_freelists :: "file_env \<Rightarrow> nat list \<Rightarrow> nat \<Rightarrow> (nat \<times> nat) list \<Rightarrow> group_writer \<times> write_log \<Rightarrow>
  (nat \<times> nat \<times> nat \<times> nat \<times> group_writer \<times> write_log) result" where
  "write_freelists env m_top top_width new_free_space = (\<lambda>(g, lg).
     let needed = max_free_space_needed (length m_top) new_free_space g
     in bind_result (reserve_free_space env (needed + 8) g) (\<lambda>(reserve, g).
          let (reserve_size, reserve_pos) = m_size_map g ! reserve;
              m_top = (if shrinks g then m_top[s_evacuation_point_ndx := 0] else m_top);
              g = shrink_file env g;
              m_top = m_top[s_file_size_ndx := nat (make_tagged (m_logical_size g))]
          in bind_result (recreate_freelist reserve_pos new_free_space g) (\<lambda>(reserve_ndx, g).
               let (top_ref, end_ref, g, lg) = finish_lists env m_top top_width needed reserve_size reserve_pos reserve_ndx (g, lg)
               in Inr (reserve_pos, top_ref, end_ref, reserve_size, g, lg))))"

text \<open>
  The first half of \<^verbatim>\<open>write_group\<close>: the free lists of the previous snapshot, the changed arrays, and the
  dates of the pinned entries. The outer option is the loop of \<^verbatim>\<open>backdate\<close>.
\<close>

definition write_trees :: "file_env \<Rightarrow> (byte list \<times> u32) list \<Rightarrow> (nat list \<Rightarrow> nat list) \<Rightarrow> group_writer \<times> write_log \<Rightarrow>
  (nat list \<times> group_writer \<times> write_log) result option" where
  "write_trees env arrays m_top = (\<lambda>(g, lg).
     case bind_result (read_in_freelist g) (\<lambda>g. write_arrays env arrays (g, lg)) of
       Inl e \<Rightarrow> Some (Inl e)
     | Inr (refs, g, lg) \<Rightarrow>
         let g = set_backoff (length (m_top refs) > s_evacuation_point_ndx) g
         in case (if m_any_new_unreachables g then backdate (file_bytes lg) g else Some g) of
              None \<Rightarrow> None
            | Some g \<Rightarrow> Some (Inr (refs, g, lg)))"

definition write_group :: "file_env \<Rightarrow> (byte list \<times> u32) list \<Rightarrow> (nat list \<Rightarrow> nat list) \<Rightarrow> nat \<Rightarrow> (nat \<times> nat) list \<Rightarrow> group_writer \<times> write_log \<Rightarrow>
  (nat list \<times> nat \<times> nat \<times> nat \<times> nat \<times> group_writer \<times> write_log) result option" where
  "write_group env arrays m_top top_width new_free_space s =
     map_option (\<lambda>r. bind_result r (\<lambda>(refs, s). bind_result (write_freelists env (m_top refs) top_width new_free_space s) (\<lambda>r. Inr (refs, r))))
       (write_trees env arrays m_top s)"

subsection \<open>The code: the writer of a transaction\<close>

text \<open>
  The constructor of \<^verbatim>\<open>GroupWriter\<close> on the top array of the transaction. Missing free lists are made as
  arrays in memory; their refs in the top array are replaced by the commit and left out here.
\<close>

definition new_group_writer :: "mem \<Rightarrow> nat list \<Rightarrow> nat \<Rightarrow> (nat list \<times> group_writer) result" where
  "new_group_writer m m_top file_sz =
     (let logical_size = get_as_int (int (m_top ! s_file_size_ndx));
          m_top = m_top @ replicate (s_version_ndx + 1 - length m_top) 0;
          slot = (\<lambda>ndx. if m_top ! ndx \<noteq> 0 then Some (array_values m (m_top ! ndx)) else None);
          positions = (case slot s_free_pos_ndx of Some xs \<Rightarrow> xs | None \<Rightarrow> []);
          lengths = (case slot s_free_size_ndx of Some xs \<Rightarrow> xs | None \<Rightarrow> []);
          versions = (case slot s_free_version_ndx of Some xs \<Rightarrow> xs | None \<Rightarrow> replicate (length positions) 0);
          m_top = (if slot s_free_version_ndx = None then m_top[s_version_ndx := 1] else m_top)
      in if slot s_free_size_ndx \<noteq> None \<and> length positions \<noteq> length lengths
         then Inl (AssertionFailed ''m_free_positions.size() == m_free_lengths.size()'')
         else if slot s_free_version_ndx \<noteq> None \<and> length versions \<noteq> length lengths
         then Inl (AssertionFailed ''m_free_versions.size() == m_free_lengths.size()'')
         else Inr (m_top,
           \<lparr>m_free_positions = positions, m_free_lengths = lengths, m_free_versions = versions, m_current_version = 0,
            m_oldest_reachable_version = 0, m_top_ref_map = [], m_any_new_unreachables = False, m_free_space_size = 0,
            m_locked_space_size = 0, m_evacuation_limit = 0, m_backoff = 0, m_logical_size = logical_size,
            m_not_free_in_file = [], m_under_evacuation = [], m_size_map = [], m_evacuation_progress = [], file_size = file_sz\<rparr>))"

text \<open>
  The part of \<^verbatim>\<open>DB::low_level_commit\<close> that writes the new snapshot to the file. The traversal of the
  changed arrays sets the slots of the table names, the tables, the history and the evacuation.
\<close>

definition set_refs :: "(nat \<Rightarrow> nat) \<Rightarrow> nat list \<Rightarrow> nat list" where
  "set_refs value m_top = m_top[0 := value 0, 1 := value 1, s_hist_ref_ndx := value s_hist_ref_ndx, s_evacuation_point_ndx := value s_evacuation_point_ndx]"

definition commit_writer :: "mem \<Rightarrow> nat list \<Rightarrow> evacuation_point \<Rightarrow> nat \<Rightarrow> top_ref_map \<Rightarrow> bool \<Rightarrow> nat \<Rightarrow> (nat list \<times> group_writer) result" where
  "commit_writer m m_top ev new_version top_refs any_new_unreachables file_sz =
     bind_result (new_group_writer m m_top file_sz) (\<lambda>(m_top, g).
       let g = set_versions new_version top_refs any_new_unreachables g;
           g = prepare_evacuation ev (m_top ! s_free_pos_ndx) g
       in Inr (m_top, g))"

definition commit_group :: "file_env \<Rightarrow> nat list \<Rightarrow> nat \<Rightarrow> evacuation_point \<Rightarrow> (byte list \<times> u32) list \<Rightarrow> (nat list \<Rightarrow> nat \<Rightarrow> nat) \<Rightarrow>
  (nat \<times> nat) list \<Rightarrow> nat \<Rightarrow> top_ref_map \<Rightarrow> bool \<Rightarrow> nat \<Rightarrow> write_log \<Rightarrow>
  (nat list \<times> nat \<times> nat \<times> nat \<times> nat \<times> group_writer \<times> write_log) result option" where
  "commit_group env m_top top_width ev arrays slots new_free_space new_version top_refs any_new_unreachables file_sz lg =
     (case commit_writer (file_bytes lg) m_top ev new_version top_refs any_new_unreachables file_sz of
        Inl e \<Rightarrow> Some (Inl e)
      | Inr (m_top, g) \<Rightarrow> write_group env arrays (\<lambda>refs. set_refs (slots refs) m_top) top_width new_free_space (g, lg))"

end
