(* ===== verification/Space_Requests.thy ===== *)
theory Space_Requests
  imports Group_Writer
begin

text \<open>
  Requests for free space of the file: what is taken is accounted for byte by byte, a request of
  up to half a section is served after the file has been extended at most twice, and one of more
  than a section never is.
\<close>

subsection \<open>At most two extensions\<close>

lemma section_arith:
  fixes S L L' b sz :: nat
  assumes "0 < S" "b = (1 + L div S) * S" "b < L + sz" "L + sz \<le> L'" "L' < b + sz" "sz + sz \<le> S"
  shows "L' + sz \<le> (1 + L' div S) * S"
proof -
  have "b \<le> L'" using assms by linarith
  moreover have "L' < b + S" using assms by linarith
  ultimately have "L' div S = 1 + L div S"
    using assms(1,2) by (intro div_nat_eqI) (simp_all add: algebra_simps)
  then show ?thesis using assms by (simp add: algebra_simps)
qed

lemma second_extension_fits:
  assumes f: "find_section_in_range L (L' - L) sz = 0" and L: "L + sz \<le> L'" "L' + sz \<le> L''" "0 < L" "0 < sz" "sz \<le> 2 ^ 25"
  shows "find_section_in_range L' (L'' - L') sz = L'"
proof -
  let ?b = "get_upper_section_boundary L"
  have loop: "find_section_loop L L' sz = 0" using f L(1) by (simp add: find_section_in_range_def)
  have nb: "\<not> L + sz \<le> ?b" using loop L(1,3) by (subst (asm) find_section_loop.simps) (simp add: Let_def split: if_splits)
  then have loop2: "find_section_loop ?b L' sz = 0" using loop L(1) by (subst (asm) find_section_loop.simps) (simp add: Let_def)
  have ub: "?b + sz \<le> get_upper_section_boundary ?b" "0 < ?b"
    using L(5) by (simp_all add: get_upper_section_boundary_def get_section_base_def get_section_index_def)
  then have "\<not> ?b + sz \<le> L'" using loop2 by (subst (asm) find_section_loop.simps) (simp add: Let_def split: if_splits)
  then have "L' + sz \<le> get_upper_section_boundary L'"
    using section_arith [of "2 ^ 26" ?b L sz L'] nb L
    by (simp add: get_upper_section_boundary_def get_section_base_def get_section_index_def)
  then show ?thesis using L(2) unfolding find_section_in_range_def by (subst find_section_loop.simps) (simp add: Let_def)
qed

text \<open>The loop once there is nothing under evacuation.\<close>

lemma extension_step:
  assumes ok: "writer_ok g" and env: "env_ok env" and sz: "0 < sz" and ev: "m_under_evacuation g = []"
    and x: "extend_free_space env sz g = Inr (j, g1)"
  shows "(\<exists>i m'. found_in (m_logical_size g1) sz (m_size_map g1) i m' \<and> reserve_loop env sz None g = Inr (i, g1\<lparr>m_size_map := m'\<rparr>)) \<or>
    find_section_in_range (m_logical_size g) (m_logical_size g1 - m_logical_size g) sz = 0 \<and>
    reserve_loop env sz None g = reserve_loop env sz None g1"
proof -
  have X: "writer_ok g1" "j < length (m_size_map g1)" "m_size_map g1 ! j = (m_logical_size g1 - m_logical_size g, m_logical_size g)"
    using extend_free_space_spec [OF ok env sz] x by simp_all
  have mo: "map_ok (m_logical_size g1) (m_size_map g1)" using X(1) by (simp add: writer_ok_def)
  from search_element_spec [OF mo X(2) sz] show ?thesis
  proof
    assume "\<exists>i m'. search_free_space_in_free_list_element j sz (m_size_map g1) = Inr (Some i, m') \<and> found_in (m_logical_size g1) sz (m_size_map g1) i m'"
    then obtain i m' where s: "search_free_space_in_free_list_element j sz (m_size_map g1) = Inr (Some i, m')" and f: "found_in (m_logical_size g1) sz (m_size_map g1) i m'"
      by blast
    have "reserve_loop env sz None g = reserve_loop env sz (Some i) (g1\<lparr>m_size_map := m'\<rparr>)"
      using ev x s by (subst reserve_loop.simps) simp
    also have "\<dots> = Inr (i, g1\<lparr>m_size_map := m'\<rparr>)" by (subst reserve_loop.simps) simp
    finally show ?thesis using f by blast
  next
    assume "search_free_space_in_free_list_element j sz (m_size_map g1) = Inr (None, m_size_map g1) \<and>
      find_section_in_range (snd (m_size_map g1 ! j)) (fst (m_size_map g1 ! j)) sz = 0"
    then show ?thesis using ev x X(3) by (subst reserve_loop.simps) simp
  qed
qed

lemma extension_facts:
  assumes "writer_ok g" "env_ok env" "0 < sz" "extend_free_space env sz g = Inr (j, g1)"
  shows "writer_ok g1" "m_logical_size g + sz \<le> m_logical_size g1" "m_logical_size g1 < minimal_new_size env sz g + 2 ^ 26"
    "m_under_evacuation g1 = m_under_evacuation g" "length (m_size_map g1) = Suc (length (m_size_map g))"
    "file_size g1 = max (file_size g) (m_logical_size g1)"
  using extend_free_space_spec [OF assms(1-3)] extended_size_bounds(1,3) [OF assms(2), of "minimal_new_size env sz g"]
    minimal_new_size_ge [of g sz env] assms(4) by auto

lemma second_extension_found:
  assumes ok: "writer_ok g" and env: "env_ok env" and sz: "0 < sz" "sz \<le> 2 ^ 25" and ev: "m_under_evacuation g = []"
    and x: "extend_free_space env sz g = Inr (j, g1)" "extend_free_space env sz g1 = Inr (k, g2)"
    and f: "find_section_in_range (m_logical_size g) (m_logical_size g1 - m_logical_size g) sz = 0"
  shows "\<exists>i m'. found_in (m_logical_size g2) sz (m_size_map g2) i m' \<and> reserve_loop env sz None g1 = Inr (i, g2\<lparr>m_size_map := m'\<rparr>)"
proof -
  note E1 = extension_facts [OF ok env sz(1) x(1)]
  note E2 = extension_facts [OF E1(1) env sz(1) x(2)]
  have L: "0 < m_logical_size g" using ok by (simp add: writer_ok_def)
  have "find_section_in_range (m_logical_size g1) (m_logical_size g2 - m_logical_size g1) sz \<noteq> 0"
    using second_extension_fits [OF f E1(2) E2(2) L sz] E1(2) sz(1) by simp
  then show ?thesis using extension_step [OF E1(1) env sz(1) _ x(2)] E1(4) ev by auto
qed

text \<open>The loop once there is nothing under evacuation: at most two extensions and one split.\<close>

lemma reserve_loop_entries:
  assumes ok: "writer_ok g" and env: "env_ok env" and sz: "0 < sz" "sz \<le> 2 ^ 25" and ev: "m_under_evacuation g = []"
    and run: "reserve_loop env sz None g = Inr (i, g')"
  shows "length (m_size_map g') \<le> length (m_size_map g) + 3 \<and> m_under_evacuation g' = [] \<and> m_logical_size g' \<le> file_size g'"
proof (cases "extend_free_space env sz g")
  case (Inl e)
  then show ?thesis using run ev by (subst (asm) reserve_loop.simps) simp
next
  case (Inr q)
  obtain j g1 where x: "extend_free_space env sz g = Inr (j, g1)" using Inr by (cases q) simp
  note E1 = extension_facts [OF ok env sz(1) x]
  from extension_step [OF ok env sz(1) ev x] show ?thesis
  proof
    assume "\<exists>i m'. found_in (m_logical_size g1) sz (m_size_map g1) i m' \<and> reserve_loop env sz None g = Inr (i, g1\<lparr>m_size_map := m'\<rparr>)"
    then show ?thesis using run E1(4,5,6) ev by (auto simp: found_in_def)
  next
    assume f: "find_section_in_range (m_logical_size g) (m_logical_size g1 - m_logical_size g) sz = 0 \<and> reserve_loop env sz None g = reserve_loop env sz None g1"
    show ?thesis
    proof (cases "extend_free_space env sz g1")
      case (Inl e)
      then show ?thesis using run f ev E1(4) by (subst (asm) (2) reserve_loop.simps) simp
    next
      case (Inr q2)
      obtain k g2 where x2: "extend_free_space env sz g1 = Inr (k, g2)" using Inr by (cases q2) simp
      note E2 = extension_facts [OF E1(1) env sz(1) x2]
      show ?thesis using second_extension_found [OF ok env sz ev x x2] f run E1(4,5) E2(4,5,6) ev by (auto simp: found_in_def)
    qed
  qed
qed




text \<open>From the request to the loop: the map is searched first, and again with what was under evacuation.\<close>

lemma reserve_free_space_cases:
  assumes ok: "writer_ok g" and sz: "0 < sz"
  obtains (found) i m' where "found_in (m_logical_size g) sz (m_size_map g) i m'" "reserve_free_space env sz g = Inr (i, g\<lparr>m_size_map := m'\<rparr>)"
  | (released) i m' where "found_in (m_logical_size g) sz (m_size_map (release_evacuation g)) i m'"
      "reserve_free_space env sz g = Inr (i, (release_evacuation g)\<lparr>m_size_map := m'\<rparr>)"
  | (full) "m_under_evacuation g = []" "reserve_free_space env sz g = reserve_loop env sz None g"
  | (full_released) "m_under_evacuation g \<noteq> []" "reserve_free_space env sz g = reserve_loop env sz None (release_evacuation g)"
proof -
  let ?g = "release_evacuation g"
  note R = release_evacuation_spec [OF ok]
  have mo: "map_ok (m_logical_size g) (m_size_map g)" "map_ok (m_logical_size g) (m_size_map ?g)"
    using ok R(1,4) by (simp_all add: writer_ok_def)
  have hit: "reserve_loop env sz (Some i) x = Inr (i, x)" for i x by (subst reserve_loop.simps) simp
  from search_part_spec [OF mo(1) sz] show thesis
  proof
    assume "\<exists>j m'. search_free_space_in_part_of_freelist sz (m_size_map g) = Inr (Some j, m') \<and> found_in (m_logical_size g) sz (m_size_map g) j m'"
    then show thesis using found by (auto simp: reserve_free_space_def hit)
  next
    assume "search_free_space_in_part_of_freelist sz (m_size_map g) = Inr (None, m_size_map g)"
    then have r: "reserve_free_space env sz g = reserve_loop env sz None g" by (simp add: reserve_free_space_def)
    show thesis
    proof (cases "m_under_evacuation g = []")
      case True
      then show thesis using full r by simp
    next
      case False
      then have r2: "reserve_loop env sz None g = bind_result (search_free_space_in_part_of_freelist sz (m_size_map ?g)) (\<lambda>(chunk, m).
          reserve_loop env sz chunk (?g\<lparr>m_size_map := m\<rparr>))"
        by (subst reserve_loop.simps) (simp add: Let_def)
      from search_part_spec [OF mo(2) sz] show thesis
      proof
        assume "\<exists>j m'. search_free_space_in_part_of_freelist sz (m_size_map ?g) = Inr (Some j, m') \<and> found_in (m_logical_size g) sz (m_size_map ?g) j m'"
        then show thesis using released r r2 by (auto simp: hit)
      next
        assume "search_free_space_in_part_of_freelist sz (m_size_map ?g) = Inr (None, m_size_map ?g)"
        then show thesis using full_released False r r2 by simp
      qed
    qed
  qed
qed

lemma release_evacuation_fields:
  "m_under_evacuation (release_evacuation g) = []" "file_size (release_evacuation g) = file_size g"
  by (simp_all add: release_evacuation_def)

lemma reserve_entries:
  assumes ok: "writer_ok g" and env: "env_ok env" and sz: "0 < sz" "sz \<le> 2 ^ 25" and run: "reserve_free_space env sz g = Inr (i, g')"
  shows "length (m_size_map g') + length (m_under_evacuation g') \<le> length (m_size_map g) + length (m_under_evacuation g) + 3 \<and>
    (m_logical_size g' = m_logical_size g \<or> m_logical_size g' \<le> file_size g')"
proof -
  note R = release_evacuation_spec [OF ok] and F = release_evacuation_fields [of g]
  from ok sz(1) show ?thesis
  proof (cases rule: reserve_free_space_cases [where env = env])
    case (found i m')
    then show ?thesis using run by (auto simp: found_in_def)
  next
    case (released i m')
    then show ?thesis using run R(4,5) F by (auto simp: found_in_def)
  next
    case full
    then show ?thesis using reserve_loop_entries [OF ok env sz, of i g'] run by simp
  next
    case full_released
    then show ?thesis using reserve_loop_entries [OF R(1) env sz F(1), of i g'] run R(5) by simp
  qed
qed


text \<open>A small file with one free chunk and one under evacuation.\<close>

definition demo_env :: file_env where
  "demo_env = \<lparr>page_size = 4096, commit_size = 512, can_hold = (\<lambda>_. True)\<rparr>"

definition demo_writer :: group_writer where
  "demo_writer = \<lparr>m_free_positions = [], m_free_lengths = [], m_free_versions = [], m_current_version = 3,
     m_oldest_reachable_version = 2, m_top_ref_map = [(2, (24, 8192))], m_any_new_unreachables = False, m_free_space_size = 0,
     m_locked_space_size = 0, m_evacuation_limit = 6144, m_backoff = 0, m_logical_size = 8192,
     m_not_free_in_file = [space_entry 2048 64 3], m_under_evacuation = [space_entry 7168 1024 0], m_size_map = [(512, 1024)],
     m_evacuation_progress = [], file_size = 8192\<rparr>"

lemma demo_ok: "writer_ok demo_writer" "env_ok demo_env"
proof -
  show "writer_ok demo_writer" by (simp add: writer_ok_def demo_writer_def map_ok_def entries_ok_def chunk_ok_def)
  have "page_size demo_env = 2 ^ 12" by (simp add: demo_env_def)
  then show "env_ok demo_env" unfolding env_ok_def by (intro exI [of _ 12]) simp
qed

subsection \<open>Properties\<close>

text \<open>
  C20: \<^verbatim>\<open>get_free_space\<close> returns an aligned block that lies in one section of the file, and the
  free space afterwards is the free space before, plus what the file was extended by, less exactly
  the bytes of the block. It fails only when the file would become too large or the disk is full.
\<close>

theorem get_free_space_accounts:
  assumes "writer_ok g" "env_ok env" "0 < sz" "sz mod 8 = 0"
  shows "case get_free_space env sz g of
      Inl e \<Rightarrow> e = MaximumFileSizeExceeded \<or> e = OutOfDiskSpace
    | Inr (pos, g') \<Rightarrow> writer_ok g' \<and> pos mod 8 = 0 \<and> pos div section_size = (pos + sz - 1) div section_size \<and>
        pos + sz \<le> m_logical_size g' \<and> m_not_free_in_file g' = m_not_free_in_file g \<and>
        (\<forall>b. cover_free g' b + of_bool (pos \<le> b \<and> b < pos + sz) =
             cover_free g b + of_bool (m_logical_size g \<le> b \<and> b < m_logical_size g'))"
proof (cases "get_free_space env sz g")
  case (Inl e)
  then show ?thesis using get_free_space_spec [OF assms] by simp
next
  case (Inr q)
  obtain pos g' where q: "q = (pos, g')" by (cases q)
  have G: "writer_ok g'" "frame g g'" "chunk_ok (m_logical_size g') sz pos" "pos + sz \<le> get_upper_section_boundary pos"
      "\<And>b. cover_free g' b + of_bool (in_block pos sz b) = cover_free g b + grown g g' b"
    using get_free_space_spec [OF assms] Inr q by simp_all
  have up: "pos + sz \<le> section_size + section_size * (pos div section_size)"
    using G(4) by (simp add: get_upper_section_boundary_def get_section_base_def get_section_index_def section_size_def algebra_simps)
  have lo: "section_size * (pos div section_size) \<le> pos + sz - 1"
    using assms(3) times_div_less_eq_dividend [of section_size pos] by linarith
  have "(pos + sz - 1) div section_size = pos div section_size"
    using up lo assms(3) by (intro div_nat_eqI) (simp_all add: algebra_simps)
  then show ?thesis using Inr q G by (auto simp: in_block_def chunk_ok_def frame_def)
qed

theorem get_free_space_accounts_witness:
  "case get_free_space demo_env 64 demo_writer of
      Inl e \<Rightarrow> e = MaximumFileSizeExceeded \<or> e = OutOfDiskSpace
    | Inr (pos, g') \<Rightarrow> pos mod 8 = 0 \<and> m_not_free_in_file g' = [space_entry 2048 64 3]"
proof -
  have "0 < (64 :: nat)" "(64 :: nat) mod 8 = 0" by simp_all
  from get_free_space_accounts [OF demo_ok this] show ?thesis
    by (auto simp: demo_writer_def split: sum.splits prod.splits)
qed



text \<open>
  C36: a request for more than a section of 64 MB is never served: the file is extended until the
  limit on its size or the end of the disk is reached. The room for the free lists is requested as
  one chunk, so that a commit fails in this way once the file has some millions of free chunks.
\<close>

theorem large_request_never_served:
  assumes "writer_ok g" "env_ok env" "section_size < sz"
  shows "reserve_free_space env sz g = Inl MaximumFileSizeExceeded \<or> reserve_free_space env sz g = Inl OutOfDiskSpace"
proof -
  have pos: "0 < sz" using assms(3) by simp
  show ?thesis
  proof (cases "reserve_free_space env sz g")
    case (Inl e)
    then show ?thesis using reserve_free_space_spec [OF assms(1,2) pos] by (simp add: outcome_def)
  next
    case (Inr q)
    obtain i g1 where "reserve_free_space env sz g = Inr (i, g1)" using Inr by (cases q) simp
    then have "snd (m_size_map g1 ! i) + sz \<le> get_upper_section_boundary (snd (m_size_map g1 ! i))"
      using reserve_free_space_spec [OF assms(1,2) pos] by (simp add: outcome_def reserved_def)
    moreover have "get_upper_section_boundary p \<le> p + section_size" for p
      using div_times_less_eq_dividend [of p section_size]
      by (simp add: get_upper_section_boundary_def get_section_base_def get_section_index_def section_size_def)
    ultimately show ?thesis using assms(3) by (metis add_le_cancel_left leD le_trans)
  qed
qed

theorem large_request_never_served_witness:
  "reserve_free_space demo_env (2 ^ 26 + 8) demo_writer = Inl MaximumFileSizeExceeded \<or>
   reserve_free_space demo_env (2 ^ 26 + 8) demo_writer = Inl OutOfDiskSpace"
proof -
  have "section_size < 2 ^ 26 + 8" by (simp add: section_size_def)
  from large_request_never_served [OF demo_ok this] show ?thesis .
qed

end
