(* ===== verification/Backdating.thy ===== *)
theory Backdating
  imports Space_Requests
begin

text \<open>
  What a commit writes before it makes new free lists, and what dating back entries of the free
  lists does to their meaning: an entry of version \<open>v\<close> is not used by any reachable snapshot
  from \<open>v\<close> on, and it is given an older version only where that stays true.
\<close>

subsection \<open>Writing arrays\<close>

definition cover_blocks :: "(nat \<times> nat) list \<Rightarrow> nat \<Rightarrow> nat" where
  "cover_blocks bs b = length (filter (\<lambda>(pos, sz). in_block pos sz b) bs)"

lemma cover_blocks_simps [simp]:
  "cover_blocks [] b = 0" "cover_blocks (e # bs) b = of_bool (in_block (fst e) (snd e) b) + cover_blocks bs b"
  "cover_blocks (bs @ bs') b = cover_blocks bs b + cover_blocks bs' b"
  by (auto simp: cover_blocks_def split: prod.splits)

definition array_blocks :: "nat list \<Rightarrow> (byte list \<times> u32) list \<Rightarrow> (nat \<times> nat) list" where
  "array_blocks poss ds = zip poss (map (\<lambda>d. length (fst d)) ds)"

definition nodes_ok :: "(byte list \<times> u32) list \<Rightarrow> bool" where
  "nodes_ok ds \<longleftrightarrow> (\<forall>d\<in>set ds. 0 < length (fst d) \<and> length (fst d) mod 8 = 0)"

lemma write_array_file:
  assumes "write_array env d cs (g, lg) = Inr (pos, g', lg')" "4 \<le> length d"
  shows "get_free_space env (length d) g = Inr (pos, g')" "\<not> in_block pos (length d) b \<Longrightarrow> file_bytes lg' b = file_bytes lg b"
    "read_mem (file_bytes lg') pos (length d) = le_bytes 4 cs @ drop 4 d"
proof -
  have f: "file_bytes lg' = write_mem (write_mem (file_bytes lg) pos (le_bytes 4 cs)) (pos + 4) (drop 4 d)"
    and "get_free_space env (length d) g = Inr (pos, g')"
    using assms(1) by (auto simp: write_array_def Let_def bind_result_eq_Inr)
  then show "get_free_space env (length d) g = Inr (pos, g')" by simp
  show "file_bytes lg' b = file_bytes lg b" if "\<not> in_block pos (length d) b"
    using that assms(2) by (auto simp: f write_mem_def in_block_def)
  show "read_mem (file_bytes lg') pos (length d) = le_bytes 4 cs @ drop 4 d"
    using assms(2) by (intro nth_equalityI) (auto simp: f write_mem_def nth_append)
qed

lemma write_arrays_spec:
  "write_arrays env ds (g, lg) = Inr (poss, g', lg') \<Longrightarrow> writer_ok g \<Longrightarrow> env_ok env \<Longrightarrow> nodes_ok ds \<Longrightarrow>
   writer_ok g' \<and> frame g g' \<and> length poss = length ds \<and>
   (\<forall>b. cover_free g' b + cover_blocks (array_blocks poss ds) b = cover_free g b + grown g g' b) \<and>
   (\<forall>b. cover_blocks (array_blocks poss ds) b = 0 \<longrightarrow> file_bytes lg' b = file_bytes lg b) \<and>
   (\<forall>(pos, sz)\<in>set (array_blocks poss ds). chunk_ok (m_logical_size g') sz pos)"
proof (induction ds arbitrary: g lg poss)
  case Nil
  then show ?case by (simp add: array_blocks_def)
next
  case (Cons a ds)
  obtain d cs where a: "a = (d, cs)" by (cases a)
  have d: "0 < length d" "length d mod 8 = 0" "nodes_ok ds" using Cons.prems(4) a by (simp_all add: nodes_ok_def)
  have "8 \<le> length d" using d(1,2) by (intro dvd_imp_le) (simp_all add: mod_eq_0_iff_dvd)
  then have d4: "4 \<le> length d" by simp
  obtain pos g1 lg1 poss' where w: "write_array env d cs (g, lg) = Inr (pos, g1, lg1)" "write_arrays env ds (g1, lg1) = Inr (poss', g', lg')"
      "poss = pos # poss'"
    using Cons.prems(1) a by (auto simp: bind_result_eq_Inr)
  note W = write_array_file [OF w(1) d4]
  have G: "writer_ok g1" "frame g g1" "chunk_ok (m_logical_size g1) (length d) pos"
      "\<And>b. cover_free g1 b + of_bool (in_block pos (length d) b) = cover_free g b + grown g g1 b"
    using get_free_space_spec [OF Cons.prems(2,3) d(1,2)] W(1) by simp_all
  note IH = Cons.IH [OF w(2) G(1) Cons.prems(3) d(3)]
  have L: "m_logical_size g \<le> m_logical_size g1" "m_logical_size g1 \<le> m_logical_size g'" using G(2) IH by (simp_all add: frame_def)
  have bl: "array_blocks poss (a # ds) = (pos, length d) # array_blocks poss' ds" using w(3) a by (simp add: array_blocks_def)
  have "cover_free g' b + cover_blocks (array_blocks poss (a # ds)) b = cover_free g b + grown g g' b" for b
  proof -
    have "cover_free g' b + cover_blocks (array_blocks poss' ds) b = cover_free g1 b + grown g1 g' b" using IH by blast
    then show ?thesis using G(4) [of b] grown_trans [OF L, of b] unfolding bl cover_blocks_simps fst_conv snd_conv by linarith
  qed
  moreover have "file_bytes lg' b = file_bytes lg b" if "cover_blocks (array_blocks poss (a # ds)) b = 0" for b
    using that IH W(2) unfolding bl by auto
  moreover have "chunk_ok (m_logical_size g') (length d) pos" using G(3) L(2) by (simp add: chunk_ok_def)
  moreover have "frame g g'" using frame_trans [OF G(2)] IH by blast
  ultimately show ?case using IH w(3) a unfolding bl by auto
qed

subsection \<open>Dating back\<close>

text \<open>The bytes of the entries up to a version.\<close>

definition old_bytes :: "(nat \<times> nat \<times> nat) list \<Rightarrow> nat \<Rightarrow> nat set" where
  "old_bytes xs v = {b. \<exists>(pos, len, x)\<in>set xs. x \<le> v \<and> in_block pos len b}"

lemma coalesce_spec:
  "coalesce ee xs e v = (e', v') \<Longrightarrow> v \<le> v' \<and> (\<forall>b. e \<le> b \<and> b < e' \<longrightarrow> b \<in> old_bytes xs v') \<and> e \<le> e' \<and>
   (\<forall>N. v \<le> N \<longrightarrow> (\<forall>(p, l, x)\<in>set xs. x \<le> N) \<longrightarrow> v' \<le> N)"
proof (induction ee xs e v rule: coalesce.induct)
  case (2 ee pos len x rest e v)
  show ?case
  proof (cases "pos = e \<and> e < ee")
    case True
    then have c: "coalesce ee rest (e + len) (max v x) = (e', v')" using 2(2) by simp
    note IH = 2(1) [OF True c]
    have "b \<in> old_bytes ((pos, len, x) # rest) v'" if "e \<le> b" "b < e'" for b
    proof (cases "b < e + len")
      case True
      then show ?thesis using IH that \<open>pos = e \<and> e < ee\<close> by (auto simp: old_bytes_def in_block_def)
    next
      case False
      then have "b \<in> old_bytes rest v'" using IH that by simp
      then show ?thesis by (auto simp: old_bytes_def)
    qed
    then show ?thesis using IH by auto
  next
    case False
    then show ?thesis using 2(2) by auto
  qed
qed (auto simp: old_bytes_def)

lemma find_cover_spec:
  assumes run: "find_cover_for ref sz fl = Some v" and len: "\<And>ps ls vs. fl_lists fl = Some (ps, ls, vs) \<Longrightarrow> length ls = length ps \<and> length vs = length ps"
    and b: "ref \<le> b" "b < ref + sz" "b < fl_logical_file_size fl"
  obtains ps ls vs where "fl_lists fl = Some (ps, ls, vs)" "b \<in> old_bytes (zip ps (zip ls vs)) v"
proof -
  let ?ee = "min (ref + sz) (fl_logical_file_size fl)"
  have ee: "b < ?ee" "\<not> ?ee \<le> ref" using b by auto
  then obtain ps ls vs where fl: "fl_lists fl = Some (ps, ls, vs)" using run by (auto simp: find_cover_for_def Let_def split: option.splits if_splits)
  let ?u = "length (takeWhile (\<lambda>p. p \<le> ref) ps)" and ?xs = "zip ps (zip ls vs)"
  obtain e' where u: "?u \<noteq> 0" "\<not> ps ! (?u - 1) + ls ! (?u - 1) \<le> ref"
    and c: "coalesce ?ee (drop (?u - 1 + 1) ?xs) (ps ! (?u - 1) + ls ! (?u - 1)) (vs ! (?u - 1)) = (e', v)" "\<not> e' < ?ee"
    using run ee fl by (auto simp: find_cover_for_def Let_def split: if_splits prod.splits)
  let ?i = "?u - 1"
  have i: "?i < length ps" "?i < ?u" using u(1) length_takeWhile_le [of "\<lambda>p. p \<le> ref" ps] by linarith+
  have lens: "length ls = length ps" "length vs = length ps" using len [OF fl] by simp_all
  have start: "ps ! ?i \<le> ref" using nth_mem [OF i(2)] takeWhile_nth [OF i(2)] by (metis set_takeWhileD)
  note C = coalesce_spec [OF c(1)]
  have "b \<in> old_bytes ?xs v"
  proof (cases "b < ps ! ?i + ls ! ?i")
    case True
    have "(ps ! ?i, ls ! ?i, vs ! ?i) \<in> set ?xs" using i(1) lens by (auto simp: set_zip)
    moreover have "vs ! ?i \<le> v \<and> in_block (ps ! ?i) (ls ! ?i) b" using True start b(1) C by (simp add: in_block_def)
    ultimately show ?thesis unfolding old_bytes_def by blast
  next
    case False
    moreover have "b < e'" using c(2) ee(1) by linarith
    ultimately have "b \<in> old_bytes (drop (?i + 1) ?xs) v" using C by (meson not_less)
    then show ?thesis unfolding old_bytes_def using set_drop_subset [of "?i + 1" ?xs] by blast
  qed
  then show thesis using that fl by blast
qed

subsection \<open>Snapshots\<close>

text \<open>
  A reachable snapshot: the bytes of the file it uses, and the free list that the commit left
  which made it. The entries of a free list are dated: an entry of version \<open>v\<close> is not used by the
  reachable snapshots from \<open>v\<close> on.
\<close>

record snapshot =
  sn_version :: nat
  sn_top :: nat
  sn_size :: nat
  sn_uses :: "nat set"
  sn_free :: "free_space_entry list"

definition unused :: "nat set \<Rightarrow> nat \<Rightarrow> nat \<Rightarrow> bool" where
  "unused U pos sz \<longleftrightarrow> (\<forall>b\<in>U. \<not> in_block pos sz b)"

definition apart :: "free_space_entry list \<Rightarrow> bool" where
  "apart es \<longleftrightarrow> sorted_wrt (\<lambda>a b. space_ref a + space_size a \<le> space_ref b) es"

definition dated :: "snapshot list \<Rightarrow> nat \<Rightarrow> nat \<Rightarrow> nat \<Rightarrow> nat \<Rightarrow> bool" where
  "dated snaps N pos sz v \<longleftrightarrow> (\<forall>s\<in>set snaps. v \<le> sn_version s \<longrightarrow> sn_version s \<le> N \<longrightarrow> unused (sn_uses s) pos sz)"

definition snapshot_ok :: "snapshot list \<Rightarrow> snapshot \<Rightarrow> bool" where
  "snapshot_ok snaps t \<longleftrightarrow>
     (\<forall>s\<in>set snaps. sn_version s \<le> sn_version t \<longrightarrow> sn_uses s \<subseteq> {..<sn_size t}) \<and>
     (\<forall>e\<in>set (sn_free t). released_at_version e \<le> sn_version t \<and>
        dated snaps (sn_version t) (space_ref e) (space_size e) (released_at_version e)) \<and>
     entries_ok (sn_size t) (sn_free t) \<and> apart (sn_free t) \<and> 0 < sn_size t \<and> sn_size t mod 8 = 0"

definition snapshots_ok :: "snapshot list \<Rightarrow> bool" where
  "snapshots_ok snaps \<longleftrightarrow> snaps \<noteq> [] \<and> sorted_wrt (<) (map sn_version snaps) \<and> (\<forall>t\<in>set snaps. snapshot_ok snaps t)"

definition stored_lists :: "snapshot \<Rightarrow> nat list \<times> nat list \<times> nat list" where
  "stored_lists s = (map space_ref (sn_free s), map space_size (sn_free s), map released_at_version (sn_free s))"

definition stored :: "old_free_list \<Rightarrow> snapshot \<Rightarrow> bool" where
  "stored fl s \<longleftrightarrow> fl_version fl = sn_version s \<and> fl_logical_file_size fl = sn_size s \<and>
     (fl_lists fl = None \<or> fl_lists fl = Some (stored_lists s))"

lemma set_zip_lists: "set (zip (map f es) (zip (map g es) (map h es))) = (\<lambda>e. (f e, g e, h e)) ` set es"
  by (induction es) auto

lemma get_earlier_stored:
  assumes st: "list_all2 stored fls snaps" and sorted: "sorted_wrt (<) (map sn_version snaps)" and first: "snaps \<noteq> []" "sn_version (hd snaps) < v"
  obtains s where "s \<in> set snaps" "stored (get_earlier v fls) s" "sn_version s < v"
    "\<And>t. t \<in> set snaps \<Longrightarrow> sn_version t < v \<Longrightarrow> sn_version t \<le> sn_version s"
proof -
  let ?n = "length (takeWhile (\<lambda>s. sn_version s < v) snaps)"
  have tw: "length (takeWhile (\<lambda>e. fl_version e < v) fls) = ?n" using st by (induction) (auto simp: stored_def)
  have "0 < ?n" using first by (cases snaps) simp_all
  moreover have "?n \<le> length snaps" by (rule length_takeWhile_le)
  ultimately have n: "0 < ?n" "?n \<le> length snaps" by simp_all
  have len: "length fls = length snaps" using st by (rule list_all2_lengthD)
  have "get_earlier v fls = takeWhile (\<lambda>e. fl_version e < v) fls ! (?n - 1)"
    unfolding get_earlier_def using n tw by (subst last_conv_nth) (auto simp del: takeWhile_eq_Nil_iff)
  also have "\<dots> = fls ! (?n - 1)" using n tw by (intro takeWhile_nth) simp
  finally have g: "get_earlier v fls = fls ! (?n - 1)" .
  have mono: "sn_version (snaps ! i) \<le> sn_version (snaps ! j)" if "i \<le> j" "j < length snaps" for i j
    using sorted that by (cases "i = j") (simp_all add: sorted_wrt_iff_nth_less less_imp_le)
  let ?s = "snaps ! (?n - 1)"
  have i: "?n - 1 < length snaps" using n by linarith
  have "stored (get_earlier v fls) ?s" using list_all2_nthD2 [OF st i] g by simp
  moreover have "sn_version ?s < v" using n takeWhile_nth [of "?n - 1" "\<lambda>s. sn_version s < v" snaps] nth_mem [of "?n - 1" "takeWhile (\<lambda>s. sn_version s < v) snaps"]
    by (metis One_nat_def diff_less set_takeWhileD zero_less_one)
  moreover have "sn_version t \<le> sn_version ?s" if t: "t \<in> set snaps" "sn_version t < v" for t
  proof -
    obtain j where j: "j < length snaps" "t = snaps ! j" using t(1) by (auto simp: in_set_conv_nth)
    have "j < ?n"
    proof (rule ccontr)
      assume "\<not> j < ?n"
      then have nl: "?n < length snaps" "?n \<le> j" using j(1) by simp_all
      have "\<not> sn_version (snaps ! ?n) < v" by (rule nth_length_takeWhile [OF nl(1)])
      moreover have "sn_version (snaps ! ?n) \<le> sn_version t"
        using mono [OF nl(2) j(1)] j(2) by simp
      ultimately show False using t(2) by simp
    qed
    then have "j \<le> ?n - 1" by linarith
    then show ?thesis using mono [OF _ i] j(2) by simp
  qed
  ultimately show thesis using that nth_mem [OF i] by blast
qed

lemma find_cover_le:
  assumes run: "find_cover_for ref sz fl = Some v" and st: "stored fl s" and N: "\<And>e. e \<in> set (sn_free s) \<Longrightarrow> released_at_version e \<le> N"
  shows "v \<le> N"
proof (cases "min (ref + sz) (fl_logical_file_size fl) \<le> ref")
  case True
  then show ?thesis using run by (simp add: find_cover_for_def Let_def)
next
  case False
  let ?es = "sn_free s" and ?ee = "min (ref + sz) (fl_logical_file_size fl)"
  have fl: "fl_lists fl = Some (stored_lists s)" using run False st by (auto simp: find_cover_for_def Let_def stored_def split: option.splits if_splits)
  let ?u = "length (takeWhile (\<lambda>p. p \<le> ref) (map space_ref ?es))"
  obtain e' where u: "?u \<noteq> 0" and c: "coalesce ?ee (drop (?u - 1 + 1) (zip (map space_ref ?es) (zip (map space_size ?es) (map released_at_version ?es))))
      (map space_ref ?es ! (?u - 1) + map space_size ?es ! (?u - 1)) (map released_at_version ?es ! (?u - 1)) = (e', v)"
    using run False fl by (auto simp: find_cover_for_def Let_def stored_lists_def split: if_splits prod.splits)
  have i: "?u - 1 < length ?es" using u length_takeWhile_le [of "\<lambda>p. p \<le> ref" "map space_ref ?es"] by (metis One_nat_def diff_less le_neq_implies_less length_map less_imp_diff_less less_one neq0_conv zero_less_one)
  have "map released_at_version ?es ! (?u - 1) \<le> N" using N nth_mem [OF i] i by simp
  moreover have "\<forall>(p, l, x)\<in>set (drop (?u - 1 + 1) (zip (map space_ref ?es) (zip (map space_size ?es) (map released_at_version ?es)))). x \<le> N"
    using N set_drop_subset set_zip_lists [of space_ref ?es space_size released_at_version] by fastforce
  ultimately show ?thesis using coalesce_spec [OF c] by blast
qed

lemma backdate_loop_spec:
  assumes ok: "snapshots_ok snaps" and st: "list_all2 stored fls snaps" and oldest: "oldest = sn_version (hd snaps)"
    and d: "dated snaps N pos sz v"
  shows "\<exists>v'. backdate_loop fls oldest pos sz v = Some v' \<and> v' \<le> v \<and> dated snaps N pos sz v'"
  using d
proof (induction v rule: less_induct)
  case (less v)
  show ?case
  proof (cases "v = 0 \<or> v \<le> oldest \<or> find_cover_for pos sz (get_earlier v fls) = None")
    case True
    then have "backdate_loop fls oldest pos sz v = Some v" by (subst backdate_loop.simps) auto
    then show ?thesis using less.prems by blast
  next
    case False
    then obtain c where c: "find_cover_for pos sz (get_earlier v fls) = Some c" and v: "oldest < v" by auto
    have so: "snaps \<noteq> []" "sorted_wrt (<) (map sn_version snaps)" using ok by (simp_all add: snapshots_ok_def)
    obtain e where e: "e \<in> set snaps" "stored (get_earlier v fls) e" "sn_version e < v"
        "\<And>t. t \<in> set snaps \<Longrightarrow> sn_version t < v \<Longrightarrow> sn_version t \<le> sn_version e"
      using get_earlier_stored [OF st so(2,1)] v oldest by blast
    have eok: "snapshot_ok snaps e" using ok e(1) by (simp add: snapshots_ok_def)
    have "c \<le> sn_version e" using eok by (intro find_cover_le [OF c e(2)]) (simp add: snapshot_ok_def)
    then have cv: "c < v" using e(3) by simp
    have "dated snaps N pos sz c"
      unfolding dated_def unused_def
    proof (intro ballI impI)
      fix s b assume s: "s \<in> set snaps" "c \<le> sn_version s" "sn_version s \<le> N" and b: "b \<in> sn_uses s"
      show "\<not> in_block pos sz b"
      proof (cases "v \<le> sn_version s")
        case True
        then show ?thesis using less.prems s b by (auto simp: dated_def unused_def)
      next
        case False
        then have se: "sn_version s \<le> sn_version e" using e(4) [OF s(1)] by simp
        show ?thesis
        proof
          assume ib: "in_block pos sz b"
          have "b < sn_size e" using eok s(1) se b by (auto simp: snapshot_ok_def)
          then have bl: "b < fl_logical_file_size (get_earlier v fls)" using e(2) by (simp add: stored_def)
          have len: "length ls = length ps \<and> length vs = length ps" if "fl_lists (get_earlier v fls) = Some (ps, ls, vs)" for ps ls vs
            using that e(2) by (auto simp: stored_def stored_lists_def)
          have ib': "pos \<le> b" "b < pos + sz" using ib by (simp_all add: in_block_def)
          obtain ps ls vs where fl: "fl_lists (get_earlier v fls) = Some (ps, ls, vs)" "b \<in> old_bytes (zip ps (zip ls vs)) c"
            using find_cover_spec [OF c len ib' bl] by blast
          then obtain x where x: "x \<in> set (sn_free e)" "released_at_version x \<le> c" "in_block (space_ref x) (space_size x) b"
            using e(2) set_zip_lists [of space_ref "sn_free e" space_size released_at_version]
            by (auto simp: stored_def stored_lists_def old_bytes_def)
          then have "unused (sn_uses s) (space_ref x) (space_size x)"
            using eok s(1,2) se unfolding snapshot_ok_def dated_def by (meson le_trans)
          then show False using x(3) b by (simp add: unused_def)
        qed
      qed
    qed
    from less.IH [OF cv this] obtain v' where "backdate_loop fls oldest pos sz c = Some v'" "v' \<le> c" "dated snaps N pos sz v'" by blast
    moreover have "backdate_loop fls oldest pos sz v = backdate_loop fls oldest pos sz c" using False c by (subst backdate_loop.simps) auto
    ultimately show ?thesis using cv by auto
  qed
qed

lemma old_freelists_stored:
  assumes ok: "snapshots_ok snaps" and top: "m_top_ref_map g = map (\<lambda>s. (sn_version s, (sn_top s, sn_size s))) snaps"
    and oldest: "m_oldest_reachable_version g = sn_version (hd snaps)"
    and load: "\<And>s. s \<in> set snaps \<Longrightarrow> load_free_list m (sn_top s) = None \<or> load_free_list m (sn_top s) = Some (stored_lists s)"
  shows "list_all2 stored (old_freelists m g) snaps"
proof -
  have "\<not> sn_version s < sn_version (hd snaps)" if "s \<in> set snaps" for s
    using ok that by (cases snaps) (auto simp: snapshots_ok_def)
  then have "filter (\<lambda>(version, info). \<not> version < m_oldest_reachable_version g) (m_top_ref_map g) = m_top_ref_map g"
    by (auto simp: top oldest filter_id_conv)
  then show ?thesis unfolding old_freelists_def
    using load by (auto simp: top list_all2_conv_all_nth stored_def)
qed

text \<open>The pinned entries after dating back: the same blocks, with dates that are still right.\<close>

definition redated :: "snapshot list \<Rightarrow> nat \<Rightarrow> free_space_entry \<Rightarrow> free_space_entry \<Rightarrow> bool" where
  "redated snaps N e e' \<longleftrightarrow> space_ref e' = space_ref e \<and> space_size e' = space_size e \<and> released_at_version e' \<le> released_at_version e \<and>
     dated snaps N (space_ref e') (space_size e') (released_at_version e')"

lemma backdate_spec:
  assumes ok: "snapshots_ok snaps" and top: "m_top_ref_map g = map (\<lambda>s. (sn_version s, (sn_top s, sn_size s))) snaps"
    and oldest: "m_oldest_reachable_version g = sn_version (hd snaps)"
    and load: "\<And>s. s \<in> set snaps \<Longrightarrow> load_free_list m (sn_top s) = None \<or> load_free_list m (sn_top s) = Some (stored_lists s)"
    and d: "\<And>e. e \<in> set (m_not_free_in_file g) \<Longrightarrow> dated snaps N (space_ref e) (space_size e) (released_at_version e)"
  shows "\<exists>es. backdate m g = Some (g\<lparr>m_not_free_in_file := es\<rparr>) \<and> list_all2 (redated snaps N) (m_not_free_in_file g) es"
proof -
  let ?fls = "old_freelists m g"
  have st: "list_all2 stored ?fls snaps" using load by (rule old_freelists_stored [OF ok top oldest])
  have single: "\<exists>e'. backdate_single_entry ?fls g e = Some e' \<and> redated snaps N e e'" if e: "e \<in> set (m_not_free_in_file g)" for e
  proof (cases "released_at_version e = m_current_version g")
    case True
    then show ?thesis using d [OF e] by (simp add: backdate_single_entry_def redated_def)
  next
    case False
    obtain v where "backdate_loop ?fls (m_oldest_reachable_version g) (space_ref e) (space_size e) (released_at_version e) = Some v"
        "v \<le> released_at_version e" "dated snaps N (space_ref e) (space_size e) v"
      using backdate_loop_spec [OF ok st oldest d [OF e]] by blast
    then show ?thesis using False by (simp add: backdate_single_entry_def redated_def)
  qed
  let ?es = "map (the \<circ> backdate_single_entry ?fls g) (m_not_free_in_file g)"
  have "None \<notin> set (map (backdate_single_entry ?fls g) (m_not_free_in_file g))" using single by force
  then have "backdate m g = Some (g\<lparr>m_not_free_in_file := ?es\<rparr>)" by (simp add: backdate_def Let_def)
  moreover have "list_all2 (redated snaps N) (m_not_free_in_file g) ?es"
    using single by (auto simp: list_all2_conv_all_nth) (metis nth_mem option.sel)
  ultimately show ?thesis by blast
qed

end
