(* ===== verification/List_Nodes.thy ===== *)
theory List_Nodes
  imports Group_Writer Array_Spec
begin

text \<open>
  The arrays of numbers that a commit writes, the free lists and the top array, and what the next
  commit reads from them.
\<close>

definition holds_list :: "mem \<Rightarrow> nat \<Rightarrow> nat list \<Rightarrow> bool" where
  "holds_list m ref vs \<longleftrightarrow> get_size_from_header m ref = length vs \<and>
     (\<forall>i<length vs. array_get m (init_from_ref m ref) i = int (vs ! i))"

definition image_ok :: "nat \<Rightarrow> nat list \<Rightarrow> bool" where
  "image_ok w vs \<longleftrightarrow> valid_width w \<and> (\<forall>v\<in>set vs. fits_width w (int v)) \<and> length vs \<le> max_array_size"

lemma length_image [simp]: "length (array_image h w vs) = calc_byte_size wtype_Bits (length vs) w"
  by (simp add: array_image_def Let_def)

lemma fold_set_direct:
  assumes "valid_width w" "\<forall>v\<in>set vs. fits_width w (int v)" "k \<le> length vs"
  shows "(\<forall>i<k. get_direct w (fold (\<lambda>i m. set_direct w m d i (int (vs ! i))) [0..<k] m) d i = int (vs ! i)) \<and>
    (\<forall>x<d. fold (\<lambda>i m. set_direct w m d i (int (vs ! i))) [0..<k] m x = m x)"
  using assms(3)
proof (induction k)
  case (Suc k)
  let ?m = "fold (\<lambda>i m. set_direct w m d i (int (vs ! i))) [0..<k] m"
  have f: "fits_width w (int (vs ! k))" using assms(2) Suc.prems by simp
  have "set_direct w ?m d k (int (vs ! k)) x = ?m x" if "x < d" for x
    using that by (intro set_direct_frame [OF assms(1)]) simp
  then show ?case using Suc.IH Suc.prems get_set_direct [OF assms(1) f, of ?m d k] by (auto simp: less_Suc_eq)
qed simp

lemma image_read:
  assumes ok: "image_ok w vs" and same: "\<And>k. 4 \<le> k \<Longrightarrow> k < length (array_image h w vs) \<Longrightarrow> m (ref + k) = array_image h w vs ! k"
  shows "holds_list m ref vs \<and> get_width_from_header m ref = w"
proof -
  let ?n = "length vs" and ?len = "calc_byte_size wtype_Bits (length vs) w"
  define m0 where "m0 = init_header (\<lambda>_. 0) 0 False h False wtype_Bits w ?n 8"
  define m1 where "m1 = fold (\<lambda>i m. set_direct w m 8 i (int (vs ! i))) [0..<?n] m0"
  have img: "array_image h w vs = read_mem m1 0 ?len" by (simp add: array_image_def Let_def m1_def m0_def header_size_def)
  have w: "valid_width w" "\<forall>v\<in>set vs. fits_width w (int v)" "?n \<le> max_array_size" using ok by (simp_all add: image_ok_def)
  note F = fold_set_direct [OF w(1,2) order_refl, of 8 m0, folded m1_def]
  have len: "8 + payload_bytes ?n w \<le> ?len" using round_up_8(1) [of "payload_bytes ?n w"] by (simp add: calc_byte_size_bits)
  have eq: "m (ref + k) = m1 k" if "4 \<le> k" "k < ?len" for k using same [of k] that by (simp add: img)
  have hdr: "m (ref + k) = m0 k" if "4 \<le> k" "k < 8" for k using eq [of k] that F len by simp
  have g: "get_size_from_header m ref = get_size_from_header m0 0" "get_width_from_header m ref = get_width_from_header m0 0"
    using hdr [of 4] hdr [of 5] hdr [of 6] hdr [of 7] by (simp_all add: header_getters)
  have f: "get_size_from_header m ref = ?n" "get_width_from_header m ref = w"
    unfolding g m0_def by (simp_all add: header_simps w)
  have "array_get m (init_from_ref m ref) i = int (vs ! i)" if i: "i < ?n" for i
  proof -
    have "get_direct w m (ref + 8) i = get_direct w m1 8 i"
    proof (rule get_direct_eqI [OF w(1)])
      fix j assume j: "j < w"
      have "i * w + j < (i + 1) * w" using j by simp
      also have "\<dots> \<le> ?n * w" using i by (intro mult_le_mono1) simp
      finally have "(i * w + j) div 8 < payload_bytes ?n w" unfolding payload_bytes_def by linarith
      then have "m (ref + (8 + (i * w + j) div 8)) = m1 (8 + (i * w + j) div 8)" using len by (intro eq) simp_all
      then show "mbit m (ref + 8) (i * w + j) = mbit m1 8 (i * w + j)" by (simp add: mbit_def add.assoc)
    qed
    then show ?thesis using F i f(2) by (simp add: array_get_def m_data_eq)
  qed
  then show ?thesis using f by (simp add: holds_list_def)
qed

lemma write_array_at_file:
  assumes "4 \<le> length d"
  shows "4 \<le> k \<Longrightarrow> k < length d \<Longrightarrow> file_bytes (write_array_at ref d lg) (ref + k) = d ! k"
    "\<not> in_block ref (length d) b \<Longrightarrow> file_bytes (write_array_at ref d lg) b = file_bytes lg b"
  using assms by (auto simp: write_array_at_def Let_def write_mem_def in_block_def)

lemma unat_int: "v < 2 ^ 64 \<Longrightarrow> unat (of_int (int v) :: u64) = v"
  by (simp add: unat_of_nat take_bit_nat_eq_self_iff)

lemma holds_list_values:
  assumes "holds_list m ref vs" "\<forall>v\<in>set vs. v < 2 ^ 64"
  shows "array_values m ref = vs"
proof (rule nth_equalityI)
  show "length (array_values m ref) = length vs" using assms(1) by (simp add: array_values_def Let_def holds_list_def)
  fix i assume "i < length (array_values m ref)"
  then have i: "i < length vs" using assms(1) by (simp add: array_values_def Let_def holds_list_def)
  then have "array_values m ref ! i = unat (of_int (int (vs ! i)) :: u64)" using assms(1) by (simp add: array_values_def Let_def holds_list_def)
  also have "\<dots> = vs ! i" using assms(2) i by (intro unat_int) simp
  finally show "array_values m ref ! i = vs ! i" .
qed

text \<open>An array whose node lies in a set of bytes does not change as long as these bytes do not.\<close>

definition list_node :: "mem \<Rightarrow> nat set \<Rightarrow> nat \<Rightarrow> nat list \<Rightarrow> bool" where
  "list_node m U ref vs \<longleftrightarrow> holds_list m ref vs \<and> node_span m ref \<subseteq> U"

lemma size_from_header_cong:
  assumes "\<And>a. a \<in> node_span m ref \<Longrightarrow> m' a = m a"
  shows "get_size_from_header m' ref = get_size_from_header m ref" "get_width_from_header m' ref = get_width_from_header m ref"
proof -
  have "init_from_ref m' ref = init_from_ref m ref" using assms by (rule init_from_ref_cong)
  then show "get_size_from_header m' ref = get_size_from_header m ref" "get_width_from_header m' ref = get_width_from_header m ref"
    by (metis init_from_ref_simps(1), metis init_from_ref_simps(2))
qed

lemma list_node_cong:
  assumes n: "list_node m U ref vs" and same: "\<And>a. a \<in> U \<Longrightarrow> m' a = m a"
  shows "list_node m' U ref vs"
proof -
  have s: "m' a = m a" if "a \<in> node_span m ref" for a using n that same by (auto simp: list_node_def)
  have i: "init_from_ref m' ref = init_from_ref m ref" by (rule init_from_ref_cong) (rule s)
  have "array_get m' (init_from_ref m' ref) k = int (vs ! k)" if "k < length vs" for k
    using array_get_cong [of m ref m' k, OF s] that n i by (simp add: list_node_def holds_list_def)
  moreover have "get_size_from_header m' ref = get_size_from_header m ref" "node_span m' ref = node_span m ref"
    using size_from_header_cong [of m ref m', OF s] by (simp_all add: node_span_def)
  ultimately show ?thesis using n by (simp add: list_node_def holds_list_def)
qed

lemma image_list_node:
  assumes ok: "image_ok w vs" and same: "\<And>k. 4 \<le> k \<Longrightarrow> k < length (array_image h w vs) \<Longrightarrow> m (ref + k) = array_image h w vs ! k"
  shows "list_node m {ref..<ref + calc_byte_size wtype_Bits (length vs) w} ref vs"
proof -
  have r: "holds_list m ref vs" "get_width_from_header m ref = w" using image_read [OF ok same] by auto
  have "calc_byte_len (length vs) w \<le> calc_byte_size wtype_Bits (length vs) w" by (rule calc_byte_size_bounds)
  then show ?thesis using r by (auto simp: list_node_def node_span_def holds_list_def)
qed

lemma list_node_mono: "list_node m U ref vs \<Longrightarrow> U \<subseteq> U' \<Longrightarrow> list_node m U' ref vs"
  by (auto simp: list_node_def)

lemma calc_byte_size_ge: "8 \<le> calc_byte_size t n w"
  by (simp add: calc_byte_size_def Let_def header_size_def)

lemma write_array_at_nodes:
  assumes ok: "image_ok w vs"
  shows "list_node (file_bytes (write_array_at ref (array_image h w vs) lg)) {ref..<ref + calc_byte_size wtype_Bits (length vs) w} ref vs"
    "\<And>U r xs. list_node (file_bytes lg) U r xs \<Longrightarrow> U \<inter> {ref..<ref + calc_byte_size wtype_Bits (length vs) w} = {} \<Longrightarrow>
       list_node (file_bytes (write_array_at ref (array_image h w vs) lg)) U r xs"
    "\<And>b. b < ref \<or> ref + calc_byte_size wtype_Bits (length vs) w \<le> b \<Longrightarrow> file_bytes (write_array_at ref (array_image h w vs) lg) b = file_bytes lg b"
proof -
  have l: "4 \<le> length (array_image h w vs)" using calc_byte_size_ge [of wtype_Bits "length vs" w] by simp
  note W = write_array_at_file [OF l, where ref = ref and lg = lg]
  show "list_node (file_bytes (write_array_at ref (array_image h w vs) lg)) {ref..<ref + calc_byte_size wtype_Bits (length vs) w} ref vs"
    using W(1) by (rule image_list_node [OF ok])
  show out: "file_bytes (write_array_at ref (array_image h w vs) lg) b = file_bytes lg b"
    if "b < ref \<or> ref + calc_byte_size wtype_Bits (length vs) w \<le> b" for b
    using that by (intro W(2)) (auto simp: in_block_def)
  show "list_node (file_bytes (write_array_at ref (array_image h w vs) lg)) U r xs"
    if "list_node (file_bytes lg) U r xs" "U \<inter> {ref..<ref + calc_byte_size wtype_Bits (length vs) w} = {}" for U r xs
  proof (rule list_node_cong [OF that(1)])
    fix a assume "a \<in> U"
    then have "a \<notin> {ref..<ref + calc_byte_size wtype_Bits (length vs) w}" using that(2) by blast
    then show "file_bytes (write_array_at ref (array_image h w vs) lg) a = file_bytes lg a" by (intro out) auto
  qed
qed

text \<open>Four arrays one after the other.\<close>

lemma write_four:
  assumes ok: "image_ok w0 v0" "image_ok w1 v1" "image_ok w2 v2" "image_ok w3 v3"
    and r: "r1 = r0 + calc_byte_size wtype_Bits (length v0) w0" "r2 = r1 + calc_byte_size wtype_Bits (length v1) w1"
      "r3 = r2 + calc_byte_size wtype_Bits (length v2) w2" "r4 = r3 + calc_byte_size wtype_Bits (length v3) w3"
    and f: "f = file_bytes (write_array_at r3 (array_image h3 w3 v3) (write_array_at r2 (array_image h2 w2 v2)
      (write_array_at r1 (array_image h1 w1 v1) (write_array_at r0 (array_image h0 w0 v0) lg))))"
  shows "list_node f {r0..<r4} r0 v0" "list_node f {r0..<r4} r1 v1" "list_node f {r0..<r4} r2 v2" "list_node f {r0..<r4} r3 v3"
    "\<And>b. b < r0 \<or> r4 \<le> b \<Longrightarrow> f b = file_bytes lg b"
proof -
  have n: "list_node f {r0..<r1} r0 v0" "list_node f {r1..<r2} r1 v1" "list_node f {r2..<r3} r2 v2" "list_node f {r3..<r4} r3 v3"
    unfolding f r by (intro write_array_at_nodes ok; force)+
  show "list_node f {r0..<r4} r0 v0" "list_node f {r0..<r4} r1 v1" "list_node f {r0..<r4} r2 v2" "list_node f {r0..<r4} r3 v3"
    using list_node_mono [OF n(1), of "{r0..<r4}"] list_node_mono [OF n(2), of "{r0..<r4}"] list_node_mono [OF n(3), of "{r0..<r4}"]
      list_node_mono [OF n(4), of "{r0..<r4}"] r by (simp_all add: ivl_subset)
  show "f b = file_bytes lg b" if "b < r0 \<or> r4 \<le> b" for b
  proof -
    have "b < r1 \<or> r4 \<le> b" "b < r2 \<or> r4 \<le> b" "b < r3 \<or> r4 \<le> b" "r1 \<le> r2" "r2 \<le> r3" "r3 \<le> r4" "r0 \<le> r1" using that r by linarith+
    then show ?thesis unfolding f
      using that write_array_at_nodes(3) [OF ok(1), of b r0] write_array_at_nodes(3) [OF ok(2), of b r1]
        write_array_at_nodes(3) [OF ok(3), of b r2] write_array_at_nodes(3) [OF ok(4), of b r3]
      unfolding r(1-4) [symmetric] by (metis le_trans order.strict_trans2)
  qed
qed

text \<open>A top array and the lists it refers to.\<close>

definition top_node :: "mem \<Rightarrow> nat set \<Rightarrow> nat \<Rightarrow> nat \<Rightarrow> nat \<Rightarrow> nat list \<times> nat list \<times> nat list \<Rightarrow> bool" where
  "top_node m U top_ref L v fls \<longleftrightarrow> top_ref \<noteq> 0 \<and> L < 2 ^ 62 \<and> 0 < v \<and> v < 2 ^ 62 \<and>
     (\<forall>x\<in>set (fst fls) \<union> set (fst (snd fls)) \<union> set (snd (snd fls)). x < 2 ^ 63) \<and>
     (\<exists>tops. list_node m U top_ref tops \<and> s_version_ndx < length tops \<and> (\<forall>x\<in>set tops. x < 2 ^ 63) \<and>
        tops ! s_file_size_ndx = nat (make_tagged L) \<and> tops ! s_version_ndx = nat (make_tagged v) \<and>
        tops ! s_free_pos_ndx \<noteq> 0 \<and> tops ! s_free_size_ndx \<noteq> 0 \<and> tops ! s_free_version_ndx \<noteq> 0 \<and>
        list_node m U (tops ! s_free_pos_ndx) (fst fls) \<and> list_node m U (tops ! s_free_size_ndx) (fst (snd fls)) \<and>
        list_node m U (tops ! s_free_version_ndx) (snd (snd fls)))"

lemma top_node_cong: "top_node m U r L v ls \<Longrightarrow> (\<And>a. a \<in> U \<Longrightarrow> m' a = m a) \<Longrightarrow> top_node m' U r L v ls"
  unfolding top_node_def using list_node_cong [of m U _ _ m'] by blast

lemma top_node_mono: "top_node m U r L v ls \<Longrightarrow> U \<subseteq> U' \<Longrightarrow> top_node m U' r L v ls"
  unfolding top_node_def using list_node_mono [of m U _ _ U'] by blast

lemma make_tagged_eq: "x < 2 ^ 62 \<Longrightarrow> nat (make_tagged x) = 2 * x + 1"
proof -
  assume x: "x < 2 ^ 62"
  have "push_bit 1 (of_nat x) OR 1 = (push_bit 1 (of_nat x) + 1 :: u64)"
    by (rule disjunctive_add [symmetric]) (metis bit_push_bit_iff bit_1_iff not_one_le_zero)
  then have "push_bit 1 (of_nat x) OR 1 = (of_nat (2 * x + 1) :: u64)" by (simp add: push_bit_eq_mult)
  moreover have "uint (of_nat (2 * x + 1) :: u64) = int (2 * x + 1)"
    using x unfolding uint_nat unat_of_nat by (simp add: take_bit_nat_eq_self_iff)
  moreover have "sint (of_nat (2 * x + 1) :: u64) = int (2 * x + 1)"
    unfolding sint_uint calculation(2) using x by (intro signed_take_bit_int_eq_self) simp_all
  ultimately show ?thesis by (simp add: make_tagged_def)
qed

lemma get_as_int_tagged: "x < 2 ^ 62 \<Longrightarrow> get_as_int (int (2 * x + 1)) = x"
proof -
  assume x: "x < 2 ^ 62"
  have u: "unat (of_nat (2 * x + 1) :: u64) = 2 * x + 1"
    using x by (simp add: unat_of_nat take_bit_nat_eq_self_iff del: of_nat_add of_nat_mult of_nat_Suc)
  have "unat (drop_bit 1 (of_nat (2 * x + 1) :: u64)) = (2 * x + 1) div 2"
    unfolding unat_drop_bit_eq u by (simp add: drop_bit_eq_div)
  then show ?thesis by (simp add: get_as_int_def)
qed

lemma top_node_read:
  assumes "top_node m U r L v (ps, ls, vs)"
  shows "load_free_list m r = Some (ps, ls, vs)" "get_logical_file_size m r = L" "get_version m r = v"
proof -
  obtain tops where t: "list_node m U r tops" "s_version_ndx < length tops" "\<forall>x\<in>set tops. x < 2 ^ 63"
      "tops ! s_file_size_ndx = 2 * L + 1" "tops ! s_version_ndx = 2 * v + 1"
      "list_node m U (tops ! s_free_pos_ndx) ps" "list_node m U (tops ! s_free_size_ndx) ls" "list_node m U (tops ! s_free_version_ndx) vs"
    and b: "r \<noteq> 0" "L < 2 ^ 62" "0 < v" "v < 2 ^ 62" "\<forall>x\<in>set ps \<union> set ls \<union> set vs. x < 2 ^ 63"
    using assms by (auto simp: top_node_def make_tagged_eq)
  have g: "array_get m (init_from_ref m r) i = int (tops ! i)" if "i < length tops" for i
    using t(1) that by (simp add: list_node_def holds_list_def)
  have len: "get_size_from_header m r = length tops" using t(1) by (simp add: list_node_def holds_list_def)
  have ref: "array_get_as_ref m (init_from_ref m r) i = tops ! i" if i: "i < length tops" for i
  proof -
    have "tops ! i < 2 ^ 64" using t(3) nth_mem [OF i] by fastforce
    then show ?thesis using g [OF i] by (simp add: array_get_as_ref_def to_ref_def unat_int del: of_int_of_nat_eq)
  qed
  have vals: "array_values m x = xs" if "list_node m U x xs" "set xs \<subseteq> set ps \<union> set ls \<union> set vs" for x xs
  proof (rule holds_list_values)
    show "holds_list m x xs" using that(1) by (simp add: list_node_def)
    have "v < 2 ^ 63" if "v \<in> set xs" for v using that b(5) \<open>set xs \<subseteq> set ps \<union> set ls \<union> set vs\<close> by blast
    then show "\<forall>v\<in>set xs. v < 2 ^ 64" by fastforce
  qed
  note n = s_version_ndx_def s_file_size_ndx_def s_free_pos_ndx_def s_free_size_ndx_def s_free_version_ndx_def
  have l7: "6 < length tops" using t(2) by (simp add: n)
  show "load_free_list m r = Some (ps, ls, vs)"
    using b(1) len l7 ref vals [OF t(6)] vals [OF t(7)] vals [OF t(8)] by (auto simp add: load_free_list_def Let_def n)
  show "get_logical_file_size m r = L" using b(1,2) len l7 g [of 2] t(4) get_as_int_tagged [OF b(2)] by (simp add: get_logical_file_size_def Let_def n)
  show "get_version m r = v" using b(1,3,4) len l7 g [of 6] t(5) get_as_int_tagged [OF b(4)] by (simp add: get_version_def Let_def n)
qed

end
