(* ===== verification/Commit_Space.thy ===== *)
theory Commit_Space
  imports Backdating List_Nodes
begin

text \<open>
  What a commit does to the space of the file.
\<close>

subsection \<open>Shrinking the file\<close>

definition nf_entries :: "nat \<Rightarrow> (nat \<times> nat) list \<Rightarrow> free_space_entry list" where
  "nf_entries v nf = map (\<lambda>(ref, sz). space_entry ref sz v) nf"

definition locked :: "(nat \<times> nat) list \<Rightarrow> group_writer \<Rightarrow> free_space_entry list" where
  "locked nf g = m_not_free_in_file g @ nf_entries (m_current_version g) nf"

lemma cover_entries_member:
  "e \<in> set es \<Longrightarrow> in_block (space_ref e) (space_size e) b \<Longrightarrow> 1 \<le> cover_entries es b"
  using cover_entries_pos [of e es b] by simp

lemma cover_member: "(sz, pos) \<in> set m \<Longrightarrow> in_block pos sz b \<Longrightarrow> 1 \<le> cover m b"
  by (induction m) auto

text \<open>A chunk that is apart from the end of the file ends before it.\<close>

lemma chunk_before_end:
  assumes "chunk_ok L s p" "\<And>b. in_block p s b \<Longrightarrow> \<not> in_block q (L - q) b" "q < L" "q \<le> L'"
  shows "chunk_ok L' s p"
proof -
  have "\<not> q < p + s"
  proof
    assume "q < p + s"
    then have "in_block p s (max p q)" "in_block q (L - q) (max p q)" using assms(1,3) by (auto simp: in_block_def chunk_ok_def)
    then show False using assms(2) by blast
  qed
  then show ?thesis using assms(1,4) by (simp add: chunk_ok_def)
qed

lemma round_up_env:
  assumes "env_ok env"
  shows "n \<le> round_up_to_page_size (page_size env) n" "round_up_to_page_size (page_size env) n mod 8 = 0"
proof -
  obtain k where k: "3 \<le> k" "page_size env = 2 ^ k" using assms by (auto simp: env_ok_def)
  have "8 dvd page_size env" using le_imp_power_dvd [OF k(1), of "2 :: nat"] k(2) by simp
  moreover have "page_size env dvd round_up_to_page_size (page_size env) n" by (simp add: round_up_to_page_size_def)
  ultimately show "round_up_to_page_size (page_size env) n mod 8 = 0" by (meson dvd_trans mod_eq_0_iff_dvd)
  show "n \<le> round_up_to_page_size (page_size env) n" by (rule round_up_bounds) (simp add: k(2))
qed

lemma shrink_file_spec:
  assumes ok: "writer_ok g" and env: "env_ok env" and nf: "entries_ok (m_logical_size g) (nf_entries (m_current_version g) nf)"
    and one: "\<And>b. cover_free g b + cover_entries (locked nf g) b \<le> 1"
  defines "g' \<equiv> shrink_file env g"
  shows "writer_ok g' \<and> entries_ok (m_logical_size g') (nf_entries (m_current_version g) nf) \<and> m_size_map g' = m_size_map g \<and>
    length (m_under_evacuation g') \<le> length (m_under_evacuation g) \<and> m_not_free_in_file g' = m_not_free_in_file g \<and>
    m_current_version g' = m_current_version g \<and> m_free_positions g' = m_free_positions g \<and> m_free_lengths g' = m_free_lengths g \<and>
    m_free_versions g' = m_free_versions g \<and>
    (\<forall>b. cover_free g' b = (if b < m_logical_size g' then cover_free g b + grown g g' b else 0)) \<and>
    (\<forall>b. m_logical_size g' \<le> b \<and> b < m_logical_size g \<longrightarrow> 1 \<le> cover_free g b)"
proof -
  let ?L = "m_logical_size g"
  have out: "cover_free g b = 0" if "?L \<le> b" for b
    using ok that by (auto simp: writer_ok_def cover_free_def cover_def cover_entries_def filter_empty_conv map_ok_def entries_ok_def chunk_ok_def in_block_def)
  show ?thesis
  proof (cases "\<exists>e. m_under_evacuation g = [e] \<and> space_ref e + space_size e = ?L")
    case False
    then have "g' = g" by (auto simp: g'_def shrink_file_def Let_def length_Suc_conv)
    then show ?thesis using ok nf out by (auto simp: not_less)
  next
    case True
    then obtain e where e: "m_under_evacuation g = [e]" "space_ref e + space_size e = ?L" by blast
    let ?p = "space_ref e" and ?L' = "round_up_to_page_size (page_size env) (space_ref e)"
    have ch: "chunk_ok ?L (space_size e) ?p" using ok e(1) by (simp add: writer_ok_def entries_ok_def)
    have r: "?p \<le> ?L'" "?L' mod 8 = 0" using round_up_env [OF env] by simp_all
    have g': "m_logical_size g' = ?L'" "m_size_map g' = m_size_map g" "m_not_free_in_file g' = m_not_free_in_file g"
        "m_under_evacuation g' = (if ?L' = ?p then [] else [e\<lparr>space_size := ?L' - ?p\<rparr>])"
        "m_current_version g' = m_current_version g" "m_free_positions g' = m_free_positions g" "m_free_lengths g' = m_free_lengths g"
        "m_free_versions g' = m_free_versions g"
      using e r by (auto simp: g'_def shrink_file_def Let_def)
    have pl: "?p < ?L" "?L - ?p = space_size e" using ch e(2) by (auto simp: chunk_ok_def)
    have apart: "\<not> in_block ?p (?L - ?p) b" if "1 \<le> cover (m_size_map g) b + cover_entries (locked nf g) b" for b
      using one [of b] that e(1) pl(2) by (auto simp: cover_free_def split: if_splits)
    have m: "chunk_ok ?L' s p" if sp: "(s, p) \<in> set (m_size_map g)" for s p
    proof (rule chunk_before_end [OF _ _ pl(1) r(1)])
      show "chunk_ok ?L s p" using ok sp by (auto simp: writer_ok_def map_ok_def)
      show "\<not> in_block ?p (?L - ?p) b" if "in_block p s b" for b
        using apart [of b] cover_member [OF sp that] by linarith
    qed
    then have m: "map_ok ?L' (m_size_map g)" by (auto simp: map_ok_def)
    have es: "entries_ok ?L' (locked nf g)" unfolding entries_ok_def
    proof
      fix x assume x: "x \<in> set (locked nf g)"
      have "chunk_ok ?L (space_size x) (space_ref x)" using x ok nf by (auto simp: locked_def writer_ok_def entries_ok_def)
      then show "chunk_ok ?L' (space_size x) (space_ref x)"
        using chunk_before_end [OF _ _ pl(1) r(1)] apart cover_entries_member [OF x] by (meson trans_le_add2)
    qed
    have "chunk_ok ?L' (?L' - ?p) ?p" if "?L' \<noteq> ?p" using that r ch by (auto simp: chunk_ok_def mod_eq_0_iff_dvd)
    then have "writer_ok g'" using ok m es ch r by (auto simp: writer_ok_def g' entries_ok_def locked_def chunk_ok_def)
    moreover have "cover_free g' b = (if b < m_logical_size g' then cover_free g b + grown g g' b else 0)" for b
    proof -
      have "cover (m_size_map g) b = 0" if "?L' \<le> b"
        using m that by (auto simp: cover_def filter_empty_conv map_ok_def chunk_ok_def in_block_def)
      then show ?thesis using g'(1,2,4) e pl r by (auto simp: cover_free_def in_block_def)
    qed
    moreover have "1 \<le> cover_free g b" if "m_logical_size g' \<le> b" "b < ?L" for b
      using that g'(1) e r(1) by (simp add: cover_free_def in_block_def)
    ultimately show ?thesis using g' es e(1) by (auto simp: entries_ok_def locked_def)
  qed
qed

subsection \<open>The new free lists\<close>

text \<open>What is known when the commit writes its free lists: no byte has two uses.\<close>

definition lists_ready :: "file_env \<Rightarrow> (nat \<times> nat) list \<Rightarrow> group_writer \<Rightarrow> bool" where
  "lists_ready env nf g \<longleftrightarrow> writer_ok g \<and> env_ok env \<and> m_free_positions g = [] \<and> m_free_lengths g = [] \<and> m_free_versions g = [] \<and>
     entries_ok (m_logical_size g) (nf_entries (m_current_version g) nf) \<and> (\<forall>b. cover_free g b + cover_entries (locked nf g) b \<le> 1)"

lemma cover_free_out: "writer_ok g \<Longrightarrow> m_logical_size g \<le> b \<Longrightarrow> cover_free g b = 0"
  by (auto simp: writer_ok_def cover_free_def cover_def cover_entries_def filter_empty_conv map_ok_def entries_ok_def chunk_ok_def in_block_def)

lemma cover_entries_out: "entries_ok L es \<Longrightarrow> L \<le> b \<Longrightarrow> cover_entries es b = 0"
  by (auto simp: cover_entries_def filter_empty_conv entries_ok_def chunk_ok_def in_block_def)

lemma locked_ok: "lists_ready env nf g \<Longrightarrow> entries_ok (m_logical_size g) (locked nf g)"
  by (auto simp: lists_ready_def locked_def entries_ok_def writer_ok_def)

lemma all_free_ok:
  assumes "writer_ok g" "entries_ok (m_logical_size g) (nf_entries (m_current_version g) nf)"
  shows "entries_ok (m_logical_size g) (all_free nf g)"
  using assms by (auto simp: all_free_def entries_ok_def writer_ok_def map_ok_def nf_entries_def)

text \<open>The widths and refs of the three lists, the slots that are set, and what is written.\<close>

definition positions_width :: "nat \<Rightarrow> nat \<Rightarrow> group_writer \<Rightarrow> nat" where
  "positions_width reserve_pos needed g = max (list_width (m_free_positions g)) (bit_width (int (reserve_pos + needed)))"

definition sizes_ref :: "nat \<Rightarrow> nat \<Rightarrow> group_writer \<Rightarrow> nat" where
  "sizes_ref reserve_pos needed g = reserve_pos + calc_byte_size wtype_Bits (length (m_free_positions g)) (positions_width reserve_pos needed g)"

definition versions_ref :: "nat \<Rightarrow> nat \<Rightarrow> group_writer \<Rightarrow> nat" where
  "versions_ref reserve_pos needed g =
     sizes_ref reserve_pos needed g + calc_byte_size wtype_Bits (length (m_free_positions g)) (list_width (m_free_lengths g))"

definition new_top_ref :: "nat \<Rightarrow> nat \<Rightarrow> group_writer \<Rightarrow> nat" where
  "new_top_ref reserve_pos needed g =
     versions_ref reserve_pos needed g + calc_byte_size wtype_Bits (length (m_free_positions g)) (list_width (m_free_versions g))"

definition set_slots :: "nat \<Rightarrow> nat \<Rightarrow> nat list \<Rightarrow> group_writer \<Rightarrow> nat list" where
  "set_slots reserve_pos needed m_top g =
     m_top[s_free_pos_ndx := reserve_pos, s_free_size_ndx := sizes_ref reserve_pos needed g,
           s_free_version_ndx := versions_ref reserve_pos needed g, s_version_ndx := nat (make_tagged (m_current_version g))]"

definition store_lists :: "nat \<Rightarrow> nat \<Rightarrow> nat list \<Rightarrow> nat \<Rightarrow> group_writer \<Rightarrow> group_writer \<Rightarrow> write_log \<Rightarrow> write_log" where
  "store_lists reserve_pos needed tops tw g0 g lg =
     write_array_at (new_top_ref reserve_pos needed g0) (array_image True tw tops)
       (write_array_at (versions_ref reserve_pos needed g0) (array_image False (list_width (m_free_versions g0)) (m_free_versions g))
         (write_array_at (sizes_ref reserve_pos needed g0) (array_image False (list_width (m_free_lengths g0)) (m_free_lengths g))
           (write_array_at reserve_pos (array_image False (positions_width reserve_pos needed g0) (m_free_positions g)) lg)))"

lemma finish_lists_eq:
  assumes "finish_lists env m_top w needed rs rp ndx (g, lg) = (tr, er, g', lg')" "start_compaction env rs needed (set_slots rp needed m_top g) g = (tops, g5)"
  shows "tr = new_top_ref rp needed g" "er = tr + calc_byte_size wtype_Bits (length tops) (max w (list_width tops))"
    "g' = g5\<lparr>m_free_positions := (m_free_positions g5)[ndx := er], m_free_lengths := (m_free_lengths g5)[ndx := rp + rs - er],
             m_free_space_size := m_free_space_size g5 + (rp + rs - er)\<rparr>"
    "lg' = store_lists rp needed tops (max w (list_width tops)) g g' lg"
proof -
  note d = new_top_ref_def versions_ref_def sizes_ref_def positions_width_def
  have sc: "start_compaction env rs needed (m_top[s_free_pos_ndx := rp, s_free_size_ndx := sizes_ref rp needed g,
      s_free_version_ndx := versions_ref rp needed g, s_version_ndx := nat (make_tagged (m_current_version g))]) g = (tops, g5)"
    using assms(2) by (simp add: set_slots_def)
  have run: "(tr, er, g', lg') =
    (let end_ref = new_top_ref rp needed g + calc_byte_size wtype_Bits (length tops) (max w (list_width tops));
         g6 = g5\<lparr>m_free_positions := (m_free_positions g5)[ndx := end_ref], m_free_lengths := (m_free_lengths g5)[ndx := rp + rs - end_ref],
             m_free_space_size := m_free_space_size g5 + (rp + rs - end_ref)\<rparr>
     in (new_top_ref rp needed g, end_ref, g6, store_lists rp needed tops (max w (list_width tops)) g g6 lg))"
    unfolding assms(1) [symmetric] finish_lists_def Let_def prod.case store_lists_def
    unfolding positions_width_def [symmetric] unfolding sizes_ref_def [symmetric] unfolding versions_ref_def [symmetric]
    unfolding new_top_ref_def [symmetric] sc prod.case by (rule refl)
  then show "tr = new_top_ref rp needed g" "er = tr + calc_byte_size wtype_Bits (length tops) (max w (list_width tops))"
    "g' = g5\<lparr>m_free_positions := (m_free_positions g5)[ndx := er], m_free_lengths := (m_free_lengths g5)[ndx := rp + rs - er],
             m_free_space_size := m_free_space_size g5 + (rp + rs - er)\<rparr>"
    "lg' = store_lists rp needed tops (max w (list_width tops)) g g' lg"
    by (simp_all add: Let_def)
qed

lemma write_freelists_Inr:
  assumes "write_freelists env m_top w nf (g, lg) = Inr (rp, tr, er, rs, g', lg')"
  defines "needed \<equiv> max_free_space_needed (length m_top) nf g"
  obtains i g2 ndx g4 slots tops g5 where "reserve_free_space env (needed + 8) g = Inr (i, g2)"
    "m_size_map g2 ! i = (rs, rp)" "recreate_freelist rp nf (shrink_file env g2) = Inr (ndx, g4)"
    "slots = set_slots rp needed ((if shrinks g2 then m_top[s_evacuation_point_ndx := 0] else m_top)
       [s_file_size_ndx := nat (make_tagged (m_logical_size (shrink_file env g2)))]) g4"
    "start_compaction env rs needed slots g4 = (tops, g5)"
    "tr = new_top_ref rp needed g4" "er = tr + calc_byte_size wtype_Bits (length tops) (max w (list_width tops))"
    "g' = g5\<lparr>m_free_positions := (m_free_positions g5)[ndx := er], m_free_lengths := (m_free_lengths g5)[ndx := rp + rs - er],
             m_free_space_size := m_free_space_size g5 + (rp + rs - er)\<rparr>"
    "lg' = store_lists rp needed tops (max w (list_width tops)) g4 g' lg"
proof -
  let ?top = "\<lambda>g2. (if shrinks g2 then m_top[s_evacuation_point_ndx := 0] else m_top)
       [s_file_size_ndx := nat (make_tagged (m_logical_size (shrink_file env g2)))]"
  from assms(1) obtain x where x: "reserve_free_space env (needed + 8) g = Inr x"
    unfolding write_freelists_def Let_def needed_def prod.case bind_result_eq_Inr by blast
  obtain i g2 where r: "reserve_free_space env (needed + 8) g = Inr (i, g2)" using x by (cases x) simp
  have rest: "(case m_size_map g2 ! i of (rs, rp) \<Rightarrow> bind_result (recreate_freelist rp nf (shrink_file env g2)) (\<lambda>(ndx, g4).
        case finish_lists env (?top g2) w needed rs rp ndx (g4, lg) of (tr, er, g', lg') \<Rightarrow> Inr (rp, tr, er, rs, g', lg'))) = Inr (rp, tr, er, rs, g', lg')"
    using assms(1) r unfolding write_freelists_def Let_def needed_def prod.case by (simp split del: if_split add: split_def)
  obtain rs' rp' where m': "m_size_map g2 ! i = (rs', rp')" by (cases "m_size_map g2 ! i")
  obtain ndx g4 where c': "recreate_freelist rp' nf (shrink_file env g2) = Inr (ndx, g4)" using rest m' by (auto simp: bind_result_eq_Inr)
  have "rs' = rs" "rp' = rp" and f: "finish_lists env (?top g2) w needed rs' rp' ndx (g4, lg) = (tr, er, g', lg')"
    using rest m' c' by (auto split: prod.splits)
  note m = m' [unfolded this(1,2)] and c = c' [unfolded this(1,2)] and f = f [unfolded this(1,2)]
  obtain tops g5 where t: "start_compaction env rs needed (set_slots rp needed ((if shrinks g2 then m_top[s_evacuation_point_ndx := 0] else m_top)
       [s_file_size_ndx := nat (make_tagged (m_logical_size (shrink_file env g2)))]) g4) g4 = (tops, g5)" by fastforce
  show thesis using that [OF r m c refl t] finish_lists_eq [OF f t] by blast
qed

lemma write_freelists_reserve:
  assumes ready: "lists_ready env nf g" and r: "reserve_free_space env (max_free_space_needed ts nf g + 8) g = Inr (i, g2)"
  defines "g3 \<equiv> shrink_file env g2"
  shows "reserved g (max_free_space_needed ts nf g + 8) i g2" "lists_ready env nf g3" "m_size_map g3 = m_size_map g2"
    "locked nf g3 = locked nf g" "length (m_under_evacuation g3) \<le> length (m_under_evacuation g2)" "m_not_free_in_file g3 = m_not_free_in_file g"
    "\<And>b. b < m_logical_size g3 \<Longrightarrow> cover_free g3 b = cover_free g b + of_bool (m_logical_size g \<le> b)"
    "\<And>b. m_logical_size g3 \<le> b \<Longrightarrow> m_logical_size g \<le> b \<or> 1 \<le> cover_free g b" "m_current_version g3 = m_current_version g"
proof -
  note d = ready [unfolded lists_ready_def]
  have ok: "writer_ok g" and env: "env_ok env" using d by simp_all
  show R: "reserved g (max_free_space_needed ts nf g + 8) i g2"
    using reserve_free_space_spec [OF ok env, of "max_free_space_needed ts nf g + 8"] r by (simp add: outcome_def)
  have ok2: "writer_ok g2" "frame g g2" and c2: "\<And>b. cover_free g2 b = cover_free g b + grown g g2 b" using R by (simp_all add: reserved_def)
  have lock: "locked nf g2 = locked nf g" and L2: "m_logical_size g \<le> m_logical_size g2" and v2: "m_current_version g2 = m_current_version g"
    using ok2(2) by (simp_all add: locked_def frame_def)
  have one2: "cover_free g2 b + cover_entries (locked nf g2) b \<le> 1" for b
    using c2 [of b] d lock cover_free_out [OF ok, of b] cover_entries_out [OF locked_ok [OF ready], of b] by (auto split: if_splits)
  have nf2: "entries_ok (m_logical_size g2) (nf_entries (m_current_version g2) nf)" using d v2 entries_ok_mono [OF _ L2] by simp
  note S = shrink_file_spec [OF ok2(1) env nf2 one2, folded g3_def]
  show lock3: "locked nf g3 = locked nf g" using S lock by (simp add: locked_def)
  show c3: "cover_free g3 b = cover_free g b + of_bool (m_logical_size g \<le> b)" if "b < m_logical_size g3" for b
    using S c2 [of b] that L2 by auto
  have one: "cover_free g b + cover_entries (locked nf g) b \<le> 1" for b using d by simp
  have one3: "cover_free g3 b + cover_entries (locked nf g3) b \<le> 1" for b
    using c3 [of b] S lock3 cover_free_out [OF ok, of b] cover_entries_out [OF locked_ok [OF ready], of b] one [of b]
    by (cases "b < m_logical_size g3"; cases "m_logical_size g \<le> b") auto
  show "lists_ready env nf g3" using S d ok2(2) one3 by (simp add: lists_ready_def frame_def)
  show "m_logical_size g \<le> b \<or> 1 \<le> cover_free g b" if "m_logical_size g3 \<le> b" for b
  proof (cases "b < m_logical_size g2")
    case True
    then have "1 \<le> cover_free g2 b" using S that by blast
    then show ?thesis using c2 [of b] by (cases "m_logical_size g \<le> b") simp_all
  qed (use L2 in simp)
  show "m_size_map g3 = m_size_map g2" "length (m_under_evacuation g3) \<le> length (m_under_evacuation g2)" "m_not_free_in_file g3 = m_not_free_in_file g"
    "m_current_version g3 = m_current_version g" using S ok2(2) by (simp_all add: frame_def)
qed

lemma cover_locked: "cover_entries (all_free nf g) b = cover_free g b + cover_entries (locked nf g) b"
  by (simp add: cover_all_free locked_def nf_entries_def)

lemma all_free_member:
  assumes "e \<in> set (all_free nf g)"
  shows "e \<in> set (locked nf g) \<or> released_at_version e = 0 \<and> (\<forall>b. in_block (space_ref e) (space_size e) b \<longrightarrow> 1 \<le> cover_free g b)"
proof -
  from assms consider p s where "(s, p) \<in> set (m_size_map g)" "e = space_entry p s 0" | "e \<in> set (locked nf g)"
    | x where "x \<in> set (m_under_evacuation g)" "e = space_entry (space_ref x) (space_size x) 0"
    by (force simp: all_free_def locked_def nf_entries_def)
  then show ?thesis
  proof cases
    case 1
    then show ?thesis using cover_member [OF 1(1)] by (auto simp: cover_free_def intro: trans_le_add1)
  next
    case 3
    then show ?thesis using cover_entries_member [OF 3(1)] by (auto simp: cover_free_def intro: trans_le_add2)
  qed simp
qed

lemma apart_same_start:
  assumes "apart es" "\<And>e. e \<in> set es \<Longrightarrow> 0 < space_size e" "a \<in> set es" "b \<in> set es" "space_ref a = space_ref b"
  shows "a = b"
  using assms(1-4)
proof (induction es)
  case (Cons x es)
  have "space_ref x + space_size x \<le> space_ref y \<and> 0 < space_size x" if "y \<in> set es" for y
    using Cons.prems(1,2) that by (auto simp: apart_def)
  then have ne: "space_ref x \<noteq> space_ref y" if "y \<in> set es" for y using that by fastforce
  have IH: "a \<in> set es \<Longrightarrow> b \<in> set es \<Longrightarrow> a = b" using Cons.IH Cons.prems(1,2) by (simp add: apart_def)
  show ?case using Cons.prems(3,4) IH ne [of a] ne [of b] assms(5) by auto
qed simp

lemma recreate_ready:
  assumes ready: "lists_ready env nf g" and r: "recreate_freelist rp nf g = Inr (ndx, g')" and m: "(rs, rp) \<in> set (m_size_map g)"
  shows "free_list g' = sort_key space_ref (all_free nf g)" "ndx < length (free_list g')" "free_list g' ! ndx = space_entry rp rs 0"
    "apart (free_list g')" "m_free_positions g' = map space_ref (free_list g')" "m_free_lengths g' = map space_size (free_list g')"
    "m_free_versions g' = map released_at_version (free_list g')" "m_logical_size g' = m_logical_size g"
    "m_current_version g' = m_current_version g" "\<And>b. cover_entries (free_list g') b = cover_free g b + cover_entries (locked nf g) b"
    "entries_ok (m_logical_size g) (free_list g')"
proof -
  note d = ready [unfolded lists_ready_def]
  have ok: "entries_ok (m_logical_size g) (all_free nf g)" using d by (intro all_free_ok) simp_all
  have pos: "0 < space_size e" if "e \<in> set (all_free nf g)" for e using ok that by (auto simp: entries_ok_def chunk_ok_def)
  have one: "cover_entries (all_free nf g) b \<le> 1" for b using d by (simp add: cover_locked)
  have rp: "rp \<in> snd ` set (m_size_map g)" using m by force
  obtain ndx' g'' where R: "recreate_freelist rp nf g = Inr (ndx', g'')" "free_list g'' = sort_key space_ref (all_free nf g)"
     "ndx' < length (free_list g'')" "space_ref (free_list g'' ! ndx') = rp" "apart (free_list g'')"
     "m_free_positions g'' = map space_ref (free_list g'')" "m_free_lengths g'' = map space_size (free_list g'')"
     "m_free_versions g'' = map released_at_version (free_list g'')" "m_logical_size g'' = m_logical_size g" "m_current_version g'' = m_current_version g"
    using recreate_freelist_spec [OF _ _ _ pos one rp] d unfolding apart_def by blast
  then have e: "ndx' = ndx" "g'' = g'" using r by simp_all
  note R = R [unfolded e]
  show "free_list g' = sort_key space_ref (all_free nf g)" "ndx < length (free_list g')"
    "apart (free_list g')" "m_free_positions g' = map space_ref (free_list g')" "m_free_lengths g' = map space_size (free_list g')"
    "m_free_versions g' = map released_at_version (free_list g')" "m_logical_size g' = m_logical_size g" "m_current_version g' = m_current_version g" by (fact R)+
  have mem: "set (free_list g') = set (all_free nf g)" using R(2) by simp
  have "space_entry rp rs 0 \<in> set (free_list g')" using m unfolding mem by (force simp: all_free_def)
  then show "free_list g' ! ndx = space_entry rp rs 0"
    using pos by (intro apart_same_start [OF R(5)]) (simp_all add: mem R(3,4) flip: mem)
  show "cover_entries (free_list g') b = cover_free g b + cover_entries (locked nf g) b" for b
    using cover_entries_mset [of "free_list g'" "all_free nf g" b] R(2) by (simp add: cover_locked)
  show "entries_ok (m_logical_size g) (free_list g')" using ok unfolding entries_ok_def mem .
qed

lemma calc_byte_size_mod: "calc_byte_size t n w mod 8 = 0"
  by (simp add: calc_byte_size_def Let_def mod_eq_0_iff_dvd header_size_def)

lemma start_compaction_cases:
  assumes "start_compaction env rs needed tops g = (tops', g')"
  obtains "tops' = tops" "g' = g"
  | limit where "tops' = (tops @ replicate (12 - length tops) 0)[11 := nat (make_tagged limit)]" "g' = g\<lparr>m_evacuation_limit := limit\<rparr>"
      "env_ok env \<Longrightarrow> m_logical_size g < 2 ^ 60 \<Longrightarrow> limit < 2 ^ 62"
proof -
  define used where "used = m_logical_size g - (m_free_space_size g + rs - needed - m_locked_space_size g)"
  let ?limit = "max 0x10000 (round_up_to_page_size (page_size env) (used + used div 2))"
  have "?limit < 2 ^ 62" if e: "env_ok env" and l: "m_logical_size g < 2 ^ 60"
  proof -
    obtain k where k: "k \<le> 26" "page_size env = 2 ^ k" using e by (auto simp: env_ok_def)
    have "page_size env \<le> 2 ^ 26" using power_increasing [OF k(1), of "2 :: nat"] k(2) by simp
    moreover have "round_up_to_page_size (page_size env) (used + used div 2) < used + used div 2 + page_size env"
      using k(2) by (intro round_up_bounds) simp
    moreover have "used < 2 ^ 60" using l by (simp add: used_def)
    ultimately show ?thesis by simp
  qed
  then show thesis using assms that unfolding start_compaction_def Let_def s_evacuation_point_ndx_def used_def [symmetric] by (auto split: if_splits)
qed

lemma start_compaction_fields:
  assumes "start_compaction env rs needed tops g = (tops', g')"
  shows "m_free_positions g' = m_free_positions g" "m_free_lengths g' = m_free_lengths g" "m_free_versions g' = m_free_versions g"
    "m_logical_size g' = m_logical_size g" "length tops \<le> length tops'" "length tops' \<le> max (length tops) 12" "free_list g' = free_list g"
    "m_current_version g' = m_current_version g"
  by (rule start_compaction_cases [OF assms]; simp add: free_list_def)+

lemma start_compaction_slot:
  assumes "start_compaction env rs needed tops g = (tops', g')" "i < length tops" "i < 11"
  shows "tops' ! i = tops ! i"
  using assms(2,3) by (cases rule: start_compaction_cases [OF assms(1)]) (simp_all add: nth_append)

text \<open>Cutting off the beginning of an entry keeps the entries apart.\<close>

lemma apart_update:
  assumes "apart es" "i < length es" "space_ref (es ! i) \<le> space_ref e" "space_ref e + space_size e = space_ref (es ! i) + space_size (es ! i)"
  shows "apart (es[i := e])"
  using assms unfolding apart_def sorted_wrt_iff_nth_less
  by (auto simp: nth_list_update) (metis le_trans)

lemma free_list_eqI:
  "m_free_positions g = map space_ref es \<Longrightarrow> m_free_lengths g = map space_size es \<Longrightarrow> m_free_versions g = map released_at_version es \<Longrightarrow>
   free_list g = es"
  by (rule nth_equalityI) (simp_all add: free_list_def space_entry_def)

text \<open>
  The states between: \<open>g3\<close> after the room has been reserved and the file shrunk, \<open>g4\<close> with the new lists.
\<close>

definition list_steps :: "file_env \<Rightarrow> nat list \<Rightarrow> nat \<Rightarrow> (nat \<times> nat) list \<Rightarrow> group_writer \<Rightarrow> nat \<Rightarrow> nat \<Rightarrow> nat \<Rightarrow> nat \<Rightarrow> group_writer \<Rightarrow>
    nat \<Rightarrow> group_writer \<Rightarrow> nat \<Rightarrow> group_writer \<Rightarrow> nat list \<Rightarrow> bool" where
  "list_steps env m_top w nf g rp tr er rs g' needed g3 ndx g4 tops \<longleftrightarrow>
     lists_ready env nf g3 \<and> locked nf g3 = locked nf g \<and> m_logical_size g' = m_logical_size g3 \<and> (rs, rp) \<in> set (m_size_map g3) \<and> needed + 8 \<le> rs \<and>
     (\<forall>b < m_logical_size g3. cover_free g3 b = cover_free g b + of_bool (m_logical_size g \<le> b)) \<and>
     (\<forall>b. m_logical_size g3 \<le> b \<longrightarrow> m_logical_size g \<le> b \<or> 1 \<le> cover_free g b) \<and>
     recreate_freelist rp nf g3 = Inr (ndx, g4) \<and> tr = new_top_ref rp needed g4 \<and>
     er = tr + calc_byte_size wtype_Bits (length tops) (max w (list_width tops)) \<and>
     m_free_positions g' = (m_free_positions g4)[ndx := er] \<and> m_free_lengths g' = (m_free_lengths g4)[ndx := rp + rs - er] \<and>
     m_free_versions g' = m_free_versions g4 \<and> m_logical_size g4 = m_logical_size g' \<and> m_current_version g4 = m_current_version g \<and>
     (needed + 8 \<le> 2 ^ 25 \<longrightarrow> length (m_free_positions g4) + 7 \<le>
        length (m_size_map g) + length nf + length (m_not_free_in_file g) + length (m_under_evacuation g) + 10)"

text \<open>The slots of the new top array.\<close>

definition new_slots :: "file_env \<Rightarrow> nat list \<Rightarrow> nat \<Rightarrow> nat \<Rightarrow> nat \<Rightarrow> group_writer \<Rightarrow> group_writer \<Rightarrow> nat list \<Rightarrow> bool" where
  "new_slots env m_top rp rs needed g' g4 tops \<longleftrightarrow>
     (\<exists>m_top' g5. (m_top' = m_top \<or> m_top' = m_top[s_evacuation_point_ndx := 0]) \<and>
        start_compaction env rs needed (set_slots rp needed (m_top'[s_file_size_ndx := nat (make_tagged (m_logical_size g'))]) g4) g4 = (tops, g5))"

lemma new_slots_length:
  assumes "new_slots env m_top rp rs needed g' g4 tops"
  shows "length tops \<le> max (length m_top) 12"
proof -
  obtain m_top' g5 where t: "m_top' = m_top \<or> m_top' = m_top[s_evacuation_point_ndx := 0]"
      "start_compaction env rs needed (set_slots rp needed (m_top'[s_file_size_ndx := nat (make_tagged (m_logical_size g'))]) g4) g4 = (tops, g5)"
    using assms unfolding new_slots_def by blast
  have "length (set_slots rp needed (m_top'[s_file_size_ndx := nat (make_tagged (m_logical_size g'))]) g4) = length m_top"
    using t(1) by (auto simp: set_slots_def)
  then show ?thesis using start_compaction_fields(6) [OF t(2)] by simp
qed

lemma write_freelists_steps:
  assumes ready: "lists_ready env nf g" and run: "write_freelists env m_top w nf (g, lg) = Inr (rp, tr, er, rs, g', lg')"
  defines "needed \<equiv> max_free_space_needed (length m_top) nf g"
  obtains g3 ndx g4 tops where "list_steps env m_top w nf g rp tr er rs g' needed g3 ndx g4 tops"
    "new_slots env m_top rp rs needed g' g4 tops" "lg' = store_lists rp needed tops (max w (list_width tops)) g4 g' lg"
proof -
  obtain i g2 ndx g4 slots tops g5 where W: "reserve_free_space env (needed + 8) g = Inr (i, g2)"
    "m_size_map g2 ! i = (rs, rp)" "recreate_freelist rp nf (shrink_file env g2) = Inr (ndx, g4)"
    "slots = set_slots rp needed ((if shrinks g2 then m_top[s_evacuation_point_ndx := 0] else m_top)
       [s_file_size_ndx := nat (make_tagged (m_logical_size (shrink_file env g2)))]) g4"
    "start_compaction env rs needed slots g4 = (tops, g5)"
    "tr = new_top_ref rp needed g4" "er = tr + calc_byte_size wtype_Bits (length tops) (max w (list_width tops))"
    "g' = g5\<lparr>m_free_positions := (m_free_positions g5)[ndx := er], m_free_lengths := (m_free_lengths g5)[ndx := rp + rs - er],
             m_free_space_size := m_free_space_size g5 + (rp + rs - er)\<rparr>"
    "lg' = store_lists rp needed tops (max w (list_width tops)) g4 g' lg"
    using write_freelists_Inr [OF run] unfolding needed_def by blast
  let ?g3 = "shrink_file env g2" and ?M = "length (m_size_map g) + length nf + length (m_not_free_in_file g) + length (m_under_evacuation g)"
  note V = write_freelists_reserve [OF ready W(1) [unfolded needed_def]] and C = start_compaction_fields [OF W(5)]
  have i: "i < length (m_size_map g2)" and rs: "needed + 8 \<le> rs" using V(1) W(2) by (simp_all add: reserved_def needed_def)
  have m: "(rs, rp) \<in> set (m_size_map ?g3)" using i W(2) V(3) nth_mem by metis
  note R = recreate_ready [OF V(2) W(3) m]
  have L: "m_logical_size g' = m_logical_size ?g3" using W(8) C(4) R(8) by simp
  have n: "length (m_free_positions g4) + 7 \<le> ?M + 10" if small: "needed + 8 \<le> 2 ^ 25"
  proof -
    have rd: "writer_ok g" "env_ok env" using ready by (simp_all add: lists_ready_def)
    have "length (m_free_positions g4) = length (m_size_map g2) + length (m_not_free_in_file g) + length nf + length (m_under_evacuation ?g3)"
      using V(3,6) R(1,5) by (simp add: all_free_def)
    then show ?thesis using reserve_entries [OF rd _ small W(1)] V(5) by simp
  qed
  have G: "m_free_positions g' = (m_free_positions g4)[ndx := er]" "m_free_lengths g' = (m_free_lengths g4)[ndx := rp + rs - er]"
      "m_free_versions g' = m_free_versions g4" "m_logical_size g4 = m_logical_size g'" "m_current_version g4 = m_current_version g"
    using W(8) C(1-4) R(9) V(9) by simp_all
  have "list_steps env m_top w nf g rp tr er rs g' needed ?g3 ndx g4 tops"
    unfolding list_steps_def using V(2,4,7,8) L m rs W(3,6,7) G n by blast
  moreover have "new_slots env m_top rp rs needed g' g4 tops"
    unfolding new_slots_def L using W(4,5) by (intro exI [of _ "if shrinks g2 then m_top[s_evacuation_point_ndx := 0] else m_top"] exI [of _ g5]) simp
  ultimately show thesis using that W(9) by blast
qed

lemma write_freelists_spec:
  assumes ready: "lists_ready env nf g" and run: "write_freelists env m_top w nf (g, lg) = Inr (rp, tr, er, rs, g', lg')" and fit: "er < rp + rs"
  shows "apart (free_list g')" "entries_ok (m_logical_size g') (free_list g')" "m_free_positions g' = map space_ref (free_list g')"
    "m_free_lengths g' = map space_size (free_list g')" "m_free_versions g' = map released_at_version (free_list g')"
    "chunk_ok (m_logical_size g') rs rp" "er mod 8 = 0" "rp \<le> tr" "tr < er" "0 < m_logical_size g'" "m_logical_size g' mod 8 = 0"
    "\<And>b. b < m_logical_size g' \<Longrightarrow> cover_entries (free_list g') b + of_bool (in_block rp (er - rp) b) =
       cover_free g b + cover_entries (locked nf g) b + of_bool (m_logical_size g \<le> b)"
    "\<And>e. e \<in> set (free_list g') \<Longrightarrow> e \<in> set (locked nf g) \<or>
       released_at_version e = 0 \<and> (\<forall>b. in_block (space_ref e) (space_size e) b \<longrightarrow> 1 \<le> cover_free g b \<or> m_logical_size g \<le> b)"
    "\<And>b. in_block rp rs b \<Longrightarrow> 1 \<le> cover_free g b \<or> m_logical_size g \<le> b"
    "\<And>b. m_logical_size g' \<le> b \<Longrightarrow> m_logical_size g \<le> b \<or> 1 \<le> cover_free g b"
proof -
  define needed where "needed = max_free_space_needed (length m_top) nf g"
  obtain g3 ndx g4 tops where steps: "list_steps env m_top w nf g rp tr er rs g' needed g3 ndx g4 tops"
      and slots: "new_slots env m_top rp rs needed g' g4 tops" and log: "lg' = store_lists rp needed tops (max w (list_width tops)) g4 g' lg"
    unfolding needed_def by (rule write_freelists_steps [OF ready run])
  from steps have S: "lists_ready env nf g3" "locked nf g3 = locked nf g" "m_logical_size g' = m_logical_size g3" "(rs, rp) \<in> set (m_size_map g3)" "needed + 8 \<le> rs"
    "\<And>b. b < m_logical_size g3 \<Longrightarrow> cover_free g3 b = cover_free g b + of_bool (m_logical_size g \<le> b)"
    "\<And>b. m_logical_size g3 \<le> b \<Longrightarrow> m_logical_size g \<le> b \<or> 1 \<le> cover_free g b"
    "recreate_freelist rp nf g3 = Inr (ndx, g4)" "tr = new_top_ref rp needed g4"
    "er = tr + calc_byte_size wtype_Bits (length tops) (max w (list_width tops))"
    "m_free_positions g' = (m_free_positions g4)[ndx := er]" "m_free_lengths g' = (m_free_lengths g4)[ndx := rp + rs - er]"
    "m_free_versions g' = m_free_versions g4"
    by (simp_all add: list_steps_def)
  note R = recreate_ready [OF S(1,8,4)]
  have ch: "chunk_ok (m_logical_size g') rs rp" using S(1,3,4) by (auto simp: lists_ready_def writer_ok_def map_ok_def)
  let ?e = "space_entry er (rp + rs - er) 0" and ?es = "free_list g4"
  have P: "m_free_positions g' = map space_ref (?es[ndx := ?e])" "m_free_lengths g' = map space_size (?es[ndx := ?e])"
      "m_free_versions g' = map released_at_version (?es[ndx := ?e])"
    using S(11-13) R(2,3,5-7) by (simp_all add: map_update) (metis list_update_id map_update space_entry_simps(3))
  have fl: "free_list g' = ?es[ndx := ?e]" using P by (rule free_list_eqI)
  show "m_free_positions g' = map space_ref (free_list g')" "m_free_lengths g' = map space_size (free_list g')"
    "m_free_versions g' = map released_at_version (free_list g')" using P fl by simp_all
  show tr: "rp \<le> tr" using S(9) by (simp add: new_top_ref_def versions_ref_def sizes_ref_def)
  show er: "tr < er" using S(10) by (simp add: calc_byte_size_def Let_def header_size_def)
  show er8: "er mod 8 = 0"
    using S(9,10) calc_byte_size_mod ch by (simp add: mod_eq_0_iff_dvd chunk_ok_def new_top_ref_def versions_ref_def sizes_ref_def)
  show "chunk_ok (m_logical_size g') rs rp" by (fact ch)
  show "0 < m_logical_size g'" "m_logical_size g' mod 8 = 0" using S(1,3) by (simp_all add: lists_ready_def writer_ok_def)
  show "apart (free_list g')" unfolding fl by (rule apart_update [OF R(4,2)]) (use R(3) fit tr er in simp_all)
  have "chunk_ok (m_logical_size g') (rp + rs - er) er" using ch fit tr er er8 by (auto simp: chunk_ok_def mod_eq_0_iff_dvd)
  then show "entries_ok (m_logical_size g') (free_list g')"
    using R(11) set_update_subset_insert [of ?es ndx ?e] unfolding fl S(3) [symmetric] entries_ok_def by auto
  have split: "of_bool (in_block rp rs b) = (of_bool (in_block rp (er - rp) b) + of_bool (in_block er (rp + rs - er) b) :: nat)" for b
    using in_block_split [of "er - rp" rs rp b] fit tr er by (simp add: add.commute)
  show "cover_entries (free_list g') b + of_bool (in_block rp (er - rp) b) =
      cover_free g b + cover_entries (locked nf g) b + of_bool (m_logical_size g \<le> b)" if "b < m_logical_size g'" for b
    using cover_entries_update [OF R(2), of ?e b] split [of b] S(2,3) S(6) [of b] that R(10) [of b] R(3) fl by simp
  have free3: "1 \<le> cover_free g b \<or> m_logical_size g \<le> b" if "1 \<le> cover_free g3 b" for b
  proof -
    have "b < m_logical_size g3" using that cover_free_out [of g3 b] S(1) by (fastforce simp: lists_ready_def not_less)
    then show ?thesis using S(6) that by (cases "m_logical_size g \<le> b") simp_all
  qed
  show res: "1 \<le> cover_free g b \<or> m_logical_size g \<le> b" if "in_block rp rs b" for b
    using cover_member [OF S(4) that] by (intro free3) (simp add: cover_free_def)
  show "e \<in> set (locked nf g) \<or> released_at_version e = 0 \<and>
      (\<forall>b. in_block (space_ref e) (space_size e) b \<longrightarrow> 1 \<le> cover_free g b \<or> m_logical_size g \<le> b)" if mem: "e \<in> set (free_list g')" for e
  proof -
    consider "e = ?e" | "e \<in> set (all_free nf g3)" using mem set_update_subset_insert [of ?es ndx ?e] R(1) unfolding fl by auto
    then show ?thesis
    proof cases
      case 1
      then show ?thesis using res fit tr er by (auto simp: in_block_def)
    next
      case 2
      then show ?thesis using all_free_member [OF 2] free3 S(2) by metis
    qed
  qed
  show "m_logical_size g \<le> b \<or> 1 \<le> cover_free g b" if "m_logical_size g' \<le> b" for b using S(3,7) that by simp
qed

subsection \<open>The reserved room is enough\<close>

lemma bit_width_nat: "x < 2 ^ 63 \<Longrightarrow> bit_width (int x) \<le> 64" "x < 2 ^ 31 \<Longrightarrow> bit_width (int x) \<le> 32"
  using bit_width_cases [of "int x"] by (simp_all add: int64_def)

lemma list_width_le: "(\<And>x. x \<in> set xs \<Longrightarrow> bit_width (int x) \<le> W) \<Longrightarrow> list_width xs \<le> W"
proof -
  have "w \<le> W \<Longrightarrow> fold (\<lambda>x w. max w (bit_width (int x))) xs w \<le> W" if "\<And>x. x \<in> set xs \<Longrightarrow> bit_width (int x) \<le> W" for w
    using that by (induction xs arbitrary: w) simp_all
  then show "(\<And>x. x \<in> set xs \<Longrightarrow> bit_width (int x) \<le> W) \<Longrightarrow> list_width xs \<le> W" by (simp add: list_width_def)
qed

lemma calc_byte_size_width:
  "w \<le> 64 \<Longrightarrow> calc_byte_size wtype_Bits n w \<le> 8 * n + 8" "w \<le> 32 \<Longrightarrow> calc_byte_size wtype_Bits n w \<le> 4 * n + 15"
proof -
  have *: "calc_byte_size wtype_Bits n w = ((n * w + 7) div 8 + 7) div 8 * 8 + 8"
    by (simp add: calc_byte_size_def Let_def header_size_def drop_bit_eq_div)
  have "(n * w + 7) div 8 \<le> 8 * n" if "w \<le> 64" using mult_le_mono2 [OF that, of n] by linarith
  then show "w \<le> 64 \<Longrightarrow> calc_byte_size wtype_Bits n w \<le> 8 * n + 8" unfolding * by simp
  have "(n * w + 7) div 8 \<le> 4 * n" if "w \<le> 32" using mult_le_mono2 [OF that, of n] by linarith
  then show "w \<le> 32 \<Longrightarrow> calc_byte_size wtype_Bits n w \<le> 4 * n + 15" unfolding * by simp
qed

lemma lists_size_bound:
  assumes es: "\<And>p. p \<in> set (m_free_positions g) \<Longrightarrow> p < L" "\<And>s. s \<in> set (m_free_lengths g) \<Longrightarrow> s < L" and top: "rp + needed < L"
    and big: "L \<le> 2 ^ 63" "\<And>v. v \<in> set (m_free_versions g) \<Longrightarrow> v < 2 ^ 63"
  shows "new_top_ref rp needed g \<le> rp + 24 * length (m_free_positions g) + 24"
    "L \<le> 2 ^ 31 \<Longrightarrow> new_top_ref rp needed g \<le> rp + 16 * length (m_free_positions g) + 38"
proof -
  let ?n = "length (m_free_positions g)" and ?pw = "positions_width rp needed g"
  have b: "bit_width (int x) \<le> 64" if "x < L" for x using that big(1) by (intro bit_width_nat(1)) linarith
  have p: "?pw \<le> 64" using list_width_le [of "m_free_positions g" 64] b es b [OF top] by (simp add: positions_width_def)
  have l: "list_width (m_free_lengths g) \<le> 64" using list_width_le [of "m_free_lengths g" 64] b es by simp
  have v: "list_width (m_free_versions g) \<le> 64" using list_width_le [of "m_free_versions g" 64] bit_width_nat(1) big(2) by simp
  show "new_top_ref rp needed g \<le> rp + 24 * ?n + 24"
    using calc_byte_size_width(1) [OF p, of ?n] calc_byte_size_width(1) [OF l, of ?n]
      calc_byte_size_width(1) [OF v, of ?n] unfolding new_top_ref_def versions_ref_def sizes_ref_def by linarith
  assume L: "L \<le> 2 ^ 31"
  have b: "bit_width (int x) \<le> 32" if "x < L" for x using that L by (intro bit_width_nat(2)) linarith
  have "?pw \<le> 32" using list_width_le [of "m_free_positions g" 32] b es b [OF top] by (simp add: positions_width_def)
  moreover have "list_width (m_free_lengths g) \<le> 32" using list_width_le [of "m_free_lengths g" 32] b es by simp
  ultimately show "new_top_ref rp needed g \<le> rp + 16 * ?n + 38"
    using calc_byte_size_width(2) [of ?pw ?n] calc_byte_size_width(2) [of "list_width (m_free_lengths g)" ?n]
      calc_byte_size_width(1) [OF v, of ?n] unfolding new_top_ref_def versions_ref_def sizes_ref_def by linarith
qed

lemma new_slots_values:
  assumes slots: "new_slots env m_top rp rs needed g' g4 tops" and old: "\<forall>x\<in>set m_top. x < 2 ^ 63"
    and small: "env_ok env" "m_logical_size g' = m_logical_size g4" "m_logical_size g4 < 2 ^ 60" "m_current_version g4 < 2 ^ 62" "new_top_ref rp needed g4 < 2 ^ 63"
  shows "\<forall>x\<in>set tops. x < 2 ^ 63"
proof -
  obtain m_top' g5 where t: "m_top' = m_top \<or> m_top' = m_top[s_evacuation_point_ndx := 0]"
      "start_compaction env rs needed (set_slots rp needed (m_top'[s_file_size_ndx := nat (make_tagged (m_logical_size g'))]) g4) g4 = (tops, g5)"
    using slots unfolding new_slots_def by blast
  have upd: "\<forall>x\<in>set (xs[i := y]). x < 2 ^ 63" if "\<forall>x\<in>set xs. x < 2 ^ 63" "y < 2 ^ 63" for xs :: "nat list" and i y
    using that set_update_subset_insert [of xs i y] by blast
  have tag: "nat (make_tagged x) < 2 ^ 63" if "x < 2 ^ 62" for x using make_tagged_eq [OF that] that by simp
  have refs: "rp < 2 ^ 63" "sizes_ref rp needed g4 < 2 ^ 63" "versions_ref rp needed g4 < 2 ^ 63"
    using small(5) unfolding new_top_ref_def versions_ref_def sizes_ref_def by linarith+
  have "\<forall>x\<in>set m_top'. x < 2 ^ 63" using t(1) upd [OF old, of 0] old by auto
  then have s: "\<forall>x\<in>set (set_slots rp needed (m_top'[s_file_size_ndx := nat (make_tagged (m_logical_size g'))]) g4). x < 2 ^ 63"
    unfolding set_slots_def using refs tag small(2-4) by (intro upd) simp_all
  show ?thesis
  proof (cases rule: start_compaction_cases [OF t(2)])
    case 1
    then show ?thesis using s by simp
  next
    case (2 limit)
    have "\<forall>x\<in>set (set_slots rp needed (m_top'[s_file_size_ndx := nat (make_tagged (m_logical_size g'))]) g4 @
        replicate (12 - length (set_slots rp needed (m_top'[s_file_size_ndx := nat (make_tagged (m_logical_size g'))]) g4)) 0). x < 2 ^ 63"
      using s by auto
    from upd [OF this tag [OF 2(3) [OF small(1,3)]]] show ?thesis unfolding 2(1) by simp
  qed
qed

text \<open>
  The sizes for which the reserved room is certainly enough. A file below 128 MB is expected to stay
  below 2 GB in the commit, which makes four bytes for a position and a size enough.
\<close>

definition lists_small :: "nat list \<Rightarrow> nat \<Rightarrow> (nat \<times> nat) list \<Rightarrow> group_writer \<Rightarrow> group_writer \<Rightarrow> bool" where
  "lists_small m_top w nf g g' \<longleftrightarrow> max_free_space_needed (length m_top) nf g + 8 \<le> 2 ^ 25 \<and> s_version_ndx < length m_top \<and> valid_width w \<and>
     (2 ^ 27 \<le> m_logical_size g \<or> m_logical_size g' \<le> 2 ^ 31) \<and> m_logical_size g' < 2 ^ 60 \<and> (\<forall>x\<in>set m_top. x < 2 ^ 63) \<and>
     m_current_version g < 2 ^ 62 \<and> (\<forall>e\<in>set (locked nf g). released_at_version e < 2 ^ 63)"

lemma list_steps_fit:
  assumes env: "env_ok env" and steps: "list_steps env m_top w nf g rp tr er rs g' needed g3 ndx g4 tops" and slots: "new_slots env m_top rp rs needed g' g4 tops"
    and needed: "needed = max_free_space_needed (length m_top) nf g" and small: "lists_small m_top w nf g g'"
  shows "er \<le> rp + needed" "\<forall>x\<in>set tops. x < 2 ^ 63" "\<forall>x\<in>set (m_free_positions g4). x < m_logical_size g'"
    "\<forall>x\<in>set (m_free_lengths g4). x < m_logical_size g'" "\<forall>x\<in>set (m_free_versions g4). x < 2 ^ 63" "rp + needed < m_logical_size g'"
    "length (m_free_positions g4) \<le> max_array_size" "length tops \<le> max_array_size"
proof -
  let ?M = "length (m_size_map g) + length nf + length (m_not_free_in_file g) + length (m_under_evacuation g)"
  from steps small have S: "lists_ready env nf g3" "locked nf g3 = locked nf g" "m_logical_size g' = m_logical_size g3" "(rs, rp) \<in> set (m_size_map g3)" "needed + 8 \<le> rs"
    "recreate_freelist rp nf g3 = Inr (ndx, g4)" "tr = new_top_ref rp needed g4"
    "er = tr + calc_byte_size wtype_Bits (length tops) (max w (list_width tops))" "length (m_free_positions g4) + 7 \<le> ?M + 10"
    "m_logical_size g4 = m_logical_size g'" "m_current_version g4 = m_current_version g"
    by (simp_all add: list_steps_def lists_small_def needed)
  have big: "m_logical_size g' < 2 ^ 60" "\<forall>e\<in>set (locked nf g). released_at_version e < 2 ^ 63" "\<forall>x\<in>set m_top. x < 2 ^ 63" "m_current_version g < 2 ^ 62"
      "needed + 8 \<le> 2 ^ 25" "s_version_ndx < length m_top" "w \<le> 64" "2 ^ 27 \<le> m_logical_size g \<or> m_logical_size g' \<le> 2 ^ 31"
    using small by (auto simp: lists_small_def needed valid_width_def)
  note R = recreate_ready [OF S(1,6,4)]
  have ch: "chunk_ok (m_logical_size g') rs rp" using S(1,3,4) by (auto simp: lists_ready_def writer_ok_def map_ok_def)
  have es: "p < m_logical_size g'" if "p \<in> set (m_free_positions g4)" for p using that R(5,11) S(3) by (auto simp: entries_ok_def chunk_ok_def)
  have ls: "s < m_logical_size g'" if "s \<in> set (m_free_lengths g4)" for s using that R(6,11) S(3) by (fastforce simp: entries_ok_def chunk_ok_def)
  show top: "rp + needed < m_logical_size g'" using ch S(5) by (simp add: chunk_ok_def)
  have vs: "v < 2 ^ 63" if v: "v \<in> set (m_free_versions g4)" for v
  proof -
    obtain e where e: "e \<in> set (all_free nf g3)" "v = released_at_version e" using v R(1,7) by auto
    from all_free_member [OF e(1)] show ?thesis using big(2) S(2) e(2) by auto
  qed
  have N: "needed = 8 + 8 * length m_top + (if m_logical_size g < 2 ^ 27 then 16 else 24) * (?M + 10)"
    by (simp add: needed max_free_space_needed_def get_max_byte_size_def size_per_free_list_entry_def header_size_def Let_def algebra_simps)
  have L63: "m_logical_size g' \<le> 2 ^ 63" using big(1) by simp
  note B = lists_size_bound [of g4 "m_logical_size g'" rp needed, OF es ls top L63 vs]
  have n: "24 * length (m_free_positions g4) \<le> 2 * needed" using N S(9) by (simp split: if_splits)
  have nt: "new_top_ref rp needed g4 < 2 ^ 63" using B(1) big(1,5) top n by simp
  show tv: "\<forall>x\<in>set tops. x < 2 ^ 63"
    using new_slots_values [OF slots big(3) env S(10) [symmetric] _ _ nt] big(1,4) S(10,11) by simp
  have "list_width tops \<le> 64" using tv bit_width_nat(1) by (intro list_width_le) simp
  then have tw: "max w (list_width tops) \<le> 64" using big(7) by simp
  have tl: "length tops \<le> length m_top + 5" using new_slots_length [OF slots] big(6) by (simp add: s_version_ndx_def)
  have t: "calc_byte_size wtype_Bits (length tops) (max w (list_width tops)) \<le> 8 * length m_top + 48"
    using calc_byte_size_width(1) [OF tw, of "length tops"] tl by linarith
  have et: "er \<le> tr + (8 * length m_top + 48)" using t S(8) by simp
  show "er \<le> rp + needed"
  proof (cases "m_logical_size g < 2 ^ 27")
    case True
    then have "tr \<le> rp + 16 * length (m_free_positions g4) + 38" "needed = 8 + 8 * length m_top + 16 * (?M + 10)"
      using B(2) big(8) N S(7) by simp_all
    then show ?thesis using et S(9) by simp
  next
    case False
    then have "needed = 8 + 8 * length m_top + 24 * (?M + 10)" using N by simp
    moreover have "tr \<le> rp + 24 * length (m_free_positions g4) + 24" using B(1) S(7) by simp
    ultimately show ?thesis using et S(9) by simp
  qed
  show "\<forall>x\<in>set (m_free_positions g4). x < m_logical_size g'" "\<forall>x\<in>set (m_free_lengths g4). x < m_logical_size g'"
    "\<forall>x\<in>set (m_free_versions g4). x < 2 ^ 63" using es ls vs by blast+
  show "length (m_free_positions g4) \<le> max_array_size" "length tops \<le> max_array_size"
    using N S(9) big(5) tl by (simp_all add: max_array_size_def split: if_splits)
qed

lemma lists_fit:
  assumes ready: "lists_ready env nf g" and run: "write_freelists env m_top w nf (g, lg) = Inr (rp, tr, er, rs, g', lg')"
    and small: "lists_small m_top w nf g g'"
  shows "er \<le> rp + max_free_space_needed (length m_top) nf g" "er + 8 \<le> rp + rs"
proof -
  define needed where "needed = max_free_space_needed (length m_top) nf g"
  obtain g3 ndx g4 tops where steps: "list_steps env m_top w nf g rp tr er rs g' needed g3 ndx g4 tops"
      and slots: "new_slots env m_top rp rs needed g' g4 tops" and log: "lg' = store_lists rp needed tops (max w (list_width tops)) g4 g' lg"
    unfolding needed_def by (rule write_freelists_steps [OF ready run])
  have "env_ok env" using ready by (simp add: lists_ready_def)
  then have "er \<le> rp + needed" using list_steps_fit(1) [OF _ steps slots needed_def small] by simp
  moreover have "needed + 8 \<le> rs" using steps by (simp add: list_steps_def)
  ultimately show "er \<le> rp + max_free_space_needed (length m_top) nf g" "er + 8 \<le> rp + rs" by (simp_all add: needed_def)
qed

subsection \<open>The stored lists\<close>

lemma valid_width_max: "valid_width a \<Longrightarrow> valid_width b \<Longrightarrow> valid_width (max a b)"
  by (simp add: max_def)

lemma list_width_ok:
  assumes "\<forall>x\<in>set xs. x < 2 ^ 63"
  shows "valid_width (list_width xs)" "\<forall>x\<in>set xs. fits_width (list_width xs) (int x)"
proof -
  let ?f = "\<lambda>x w. max w (bit_width (int x))"
  have "valid_width (fold ?f xs w) \<and> w \<le> fold ?f xs w \<and> (\<forall>x\<in>set xs. fits_width (fold ?f xs w) (int x))" if "valid_width w" for w
    using assms that
  proof (induction xs arbitrary: w)
    case (Cons a xs)
    have i: "int64 (int a)" using Cons.prems(1) by (simp add: int64_def)
    have v: "valid_width (?f a w)" using Cons.prems(2) bit_width_valid [OF i] by (rule valid_width_max)
    note IH = Cons.IH [OF _ v]
    have le: "?f a w \<le> fold ?f xs (?f a w)" and vf: "valid_width (fold ?f xs (?f a w))" using IH Cons.prems(1) by simp_all
    have "fits_width (fold ?f xs (?f a w)) (int a)"
      using fits_width_mono [OF bit_width_valid [OF i] vf _ fits_bit_width [OF i]] le by simp
    then show ?case using IH Cons.prems(1) by simp
  qed simp
  from this [of 0] show "valid_width (list_width xs)" "\<forall>x\<in>set xs. fits_width (list_width xs) (int x)"
    by (simp_all add: list_width_def valid_width_def)
qed

lemma fits_width_le: "fits_width w (int y) \<Longrightarrow> x \<le> y \<Longrightarrow> fits_width w (int x)"
  by (auto simp: fits_width_def lbound_for_width_def split: if_splits)

lemma new_slots_nth:
  assumes "new_slots env m_top rp rs needed g' g4 tops" "s_version_ndx < length m_top"
  shows "s_version_ndx < length tops" "tops ! s_file_size_ndx = nat (make_tagged (m_logical_size g'))" "tops ! s_free_pos_ndx = rp"
    "tops ! s_free_size_ndx = sizes_ref rp needed g4" "tops ! s_free_version_ndx = versions_ref rp needed g4"
    "tops ! s_version_ndx = nat (make_tagged (m_current_version g4))"
proof -
  obtain m_top' g5 where t: "m_top' = m_top \<or> m_top' = m_top[s_evacuation_point_ndx := 0]"
      "start_compaction env rs needed (set_slots rp needed (m_top'[s_file_size_ndx := nat (make_tagged (m_logical_size g'))]) g4) g4 = (tops, g5)"
    using assms(1) unfolding new_slots_def by blast
  have l: "6 < length m_top'" using t(1) assms(2) by (auto simp: s_version_ndx_def)
  note n = s_version_ndx_def s_file_size_ndx_def s_free_pos_ndx_def s_free_size_ndx_def s_free_version_ndx_def
  note st = start_compaction_slot [OF t(2)] start_compaction_fields(5) [OF t(2)]
  show "s_version_ndx < length tops" using st(2) l by (simp add: set_slots_def n)
  show "tops ! s_file_size_ndx = nat (make_tagged (m_logical_size g'))" "tops ! s_free_pos_ndx = rp"
    "tops ! s_free_size_ndx = sizes_ref rp needed g4" "tops ! s_free_version_ndx = versions_ref rp needed g4"
    "tops ! s_version_ndx = nat (make_tagged (m_current_version g4))"
    using st(1) l by (simp_all add: set_slots_def n)
qed

lemma image_ok_update:
  assumes "valid_width w" "\<forall>x\<in>set xs. fits_width w (int x)" "fits_width w (int y)" "length xs \<le> max_array_size"
  shows "image_ok w (xs[i := y])"
  using assms set_update_subset_insert [of xs i y] unfolding image_ok_def by auto

lemma lists_stored:
  assumes ready: "lists_ready env nf g" and run: "write_freelists env m_top w nf (g, lg) = Inr (rp, tr, er, rs, g', lg')"
    and small: "lists_small m_top w nf g g'" and v: "0 < m_current_version g"
  shows "top_node (file_bytes lg') {rp..<er} tr (m_logical_size g') (m_current_version g)
      (m_free_positions g', m_free_lengths g', m_free_versions g')"
    "\<And>b. b < rp \<or> er \<le> b \<Longrightarrow> file_bytes lg' b = file_bytes lg b"
proof -
  define needed where "needed = max_free_space_needed (length m_top) nf g"
  obtain g3 ndx g4 tops where steps: "list_steps env m_top w nf g rp tr er rs g' needed g3 ndx g4 tops"
      and slots: "new_slots env m_top rp rs needed g' g4 tops" and log: "lg' = store_lists rp needed tops (max w (list_width tops)) g4 g' lg"
    unfolding needed_def by (rule write_freelists_steps [OF ready run])
  have env: "env_ok env" using ready by (simp add: lists_ready_def)
  note F = list_steps_fit [OF env steps slots needed_def small]
  from steps have S: "lists_ready env nf g3" "m_logical_size g' = m_logical_size g3" "(rs, rp) \<in> set (m_size_map g3)" "recreate_freelist rp nf g3 = Inr (ndx, g4)" "tr = new_top_ref rp needed g4"
    "er = tr + calc_byte_size wtype_Bits (length tops) (max w (list_width tops))"
    "m_free_positions g' = (m_free_positions g4)[ndx := er]" "m_free_lengths g' = (m_free_lengths g4)[ndx := rp + rs - er]"
    "m_free_versions g' = m_free_versions g4" "m_current_version g4 = m_current_version g" "needed + 8 \<le> rs"
    by (simp_all add: list_steps_def)
  note R = recreate_ready [OF S(1,4,3)]
  have D: "valid_width w" "m_logical_size g' < 2 ^ 60" "m_current_version g < 2 ^ 62" "s_version_ndx < length m_top"
    using small by (simp_all add: lists_small_def)
  have ch: "chunk_ok (m_logical_size g') rs rp" using S(1-3) by (auto simp: lists_ready_def writer_ok_def map_ok_def)
  have pb: "\<forall>x\<in>set (m_free_positions g4). x < 2 ^ 63" "\<forall>x\<in>set (m_free_lengths g4). x < 2 ^ 63" using F(3,4) D(2) by fastforce+
  note lp = list_width_ok [OF pb(1)] and ll = list_width_ok [OF pb(2)] and lv = list_width_ok [OF F(5)] and lt = list_width_ok [OF F(2)]
  have i64: "int64 (int (rp + needed))" using F(6) D(2) by (simp add: int64_def)
  let ?pw = "positions_width rp needed g4"
  have pw: "valid_width ?pw" unfolding positions_width_def by (intro valid_width_max lp(1) bit_width_valid i64)
  have fp: "fits_width ?pw (int x)" if "x \<in> set (m_free_positions g4)" for x
    using fits_width_mono [OF lp(1) pw _ bspec [OF lp(2) that]] by (simp add: positions_width_def)
  have "fits_width ?pw (int (rp + needed))"
    using fits_width_mono [OF bit_width_valid [OF i64] pw _ fits_bit_width [OF i64]] by (simp add: positions_width_def)
  then have fe: "fits_width ?pw (int er)" using F(1) by (rule fits_width_le)
  have len: "length (m_free_lengths g4) = length (m_free_positions g4)" "length (m_free_versions g4) = length (m_free_positions g4)" using R(5-7) by simp_all
  have mem: "rs \<in> set (m_free_lengths g4)" using R(2,3,6) nth_mem [of ndx "m_free_lengths g4"] by simp
  have "rp \<le> tr" unfolding S(5) by (simp add: new_top_ref_def versions_ref_def sizes_ref_def)
  then have "rp + rs - er \<le> rs" unfolding S(6) by linarith
  then have fr: "fits_width (list_width (m_free_lengths g4)) (int (rp + rs - er))" using ll(2) mem fits_width_le by blast
  have ok0: "image_ok ?pw (m_free_positions g')" unfolding S(7) using pw fp fe F(7) by (intro image_ok_update) simp_all
  have ok1: "image_ok (list_width (m_free_lengths g4)) (m_free_lengths g')"
    unfolding S(8) using ll fr F(7) len by (intro image_ok_update) simp_all
  have ok2: "image_ok (list_width (m_free_versions g4)) (m_free_versions g')" unfolding S(9) image_ok_def using lv F(7) len by simp
  have wt: "valid_width (max w (list_width tops))" using D(1) lt(1) by (rule valid_width_max)
  have ok3: "image_ok (max w (list_width tops)) tops"
    unfolding image_ok_def using wt F(8) lt(2) fits_width_mono [OF lt(1) wt] by simp
  have refs: "sizes_ref rp needed g4 = rp + calc_byte_size wtype_Bits (length (m_free_positions g')) ?pw"
      "versions_ref rp needed g4 = sizes_ref rp needed g4 + calc_byte_size wtype_Bits (length (m_free_lengths g')) (list_width (m_free_lengths g4))"
      "tr = versions_ref rp needed g4 + calc_byte_size wtype_Bits (length (m_free_versions g')) (list_width (m_free_versions g4))"
    using S(5,7-9) len by (simp_all add: new_top_ref_def versions_ref_def sizes_ref_def)
  have f: "file_bytes lg' = file_bytes (write_array_at tr (array_image True (max w (list_width tops)) tops)
     (write_array_at (versions_ref rp needed g4) (array_image False (list_width (m_free_versions g4)) (m_free_versions g'))
       (write_array_at (sizes_ref rp needed g4) (array_image False (list_width (m_free_lengths g4)) (m_free_lengths g'))
         (write_array_at rp (array_image False ?pw (m_free_positions g')) lg))))"
    using log S(5) by (simp add: store_lists_def)
  note N = write_four [OF ok0 ok1 ok2 ok3 refs S(6) f]
  show "file_bytes lg' b = file_bytes lg b" if "b < rp \<or> er \<le> b" for b using N(5) that .
  have vals: "\<forall>x\<in>set (m_free_positions g') \<union> set (m_free_lengths g') \<union> set (m_free_versions g'). x < 2 ^ 63"
    using set_update_subset_insert [of "m_free_positions g4" ndx er] set_update_subset_insert [of "m_free_lengths g4" ndx "rp + rs - er"]
      pb F(1,5,6) D(2) ch unfolding S(7-9) by (fastforce simp: chunk_ok_def)
  have "tr \<noteq> 0" "rp \<noteq> 0" "sizes_ref rp needed g4 \<noteq> 0" "versions_ref rp needed g4 \<noteq> 0" using ch refs by (simp_all add: chunk_ok_def)
  then show "top_node (file_bytes lg') {rp..<er} tr (m_logical_size g') (m_current_version g) (m_free_positions g', m_free_lengths g', m_free_versions g')"
    unfolding top_node_def using v D(2,3) vals N(1-4) new_slots_nth [OF slots D(4)] F(2) S(10)
    by (intro conjI exI [of _ tops]) simp_all
qed

end
