(* ===== verification/Commit_Run.thy ===== *)
theory Commit_Run
  imports Commit_Space
begin

text \<open>
  Commits one after the other. A database is a list of reachable snapshots and the bytes of the file.
  A snapshot stops being reachable, except the latest one, or a transaction commits: then the writer is
  made from the top array of the latest snapshot, takes the space for its arrays and lists, and leaves
  a new snapshot. No byte of a reachable snapshot is ever overwritten.
\<close>

subsection \<open>Databases\<close>

text \<open>What a snapshot looks like in the file. Before the first commit there is no top array.\<close>

definition on_disk :: "mem \<Rightarrow> snapshot \<Rightarrow> bool" where
  "on_disk f s \<longleftrightarrow> sn_top s = 0 \<and> sn_free s = [] \<and> sn_size s = 24 \<or>
     top_node f (sn_uses s) (sn_top s) (sn_size s) (sn_version s) (stored_lists s)"

definition db_ok :: "snapshot list \<Rightarrow> mem \<Rightarrow> bool" where
  "db_ok snaps f \<longleftrightarrow> snapshots_ok snaps \<and>
     (\<forall>s\<in>set snaps. on_disk f s \<and> {..<24} \<subseteq> sn_uses s \<and> 0 < sn_version s \<and> sn_version s < 2 ^ 62 \<and> sn_size s < 2 ^ 60)"

definition snapshot_map :: "snapshot list \<Rightarrow> top_ref_map" where
  "snapshot_map snaps = map (\<lambda>s. (sn_version s, (sn_top s, sn_size s))) snaps"

text \<open>
  What a writer is told about the snapshots: the oldest one, and all of them when some that are not the
  oldest have become unreachable, which is when it looks at the others.
\<close>

definition reported :: "snapshot list \<Rightarrow> bool \<Rightarrow> top_ref_map \<Rightarrow> bool" where
  "reported snaps un tops \<longleftrightarrow> tops \<noteq> [] \<and> fst (hd tops) = sn_version (hd snaps) \<and> (un \<longrightarrow> tops = snapshot_map snaps)"

lemma reported_map: "snaps \<noteq> [] \<Longrightarrow> reported snaps un (snapshot_map snaps)"
  by (simp add: reported_def snapshot_map_def hd_map)

text \<open>
  The top array of a transaction that starts from a snapshot: what the writer reads of it, the slots
  of the file size and of the free lists, is as in the file.
\<close>

definition transaction_top :: "mem \<Rightarrow> snapshot \<Rightarrow> nat list \<Rightarrow> bool" where
  "transaction_top f s m_top \<longleftrightarrow>
     (if sn_top s = 0 then length m_top = 3 \<and> m_top ! s_file_size_ndx = nat (make_tagged 24)
      else s_version_ndx < length m_top \<and>
        (\<forall>i\<in>{s_file_size_ndx, s_free_pos_ndx, s_free_size_ndx, s_free_version_ndx}. m_top ! i = array_values f (sn_top s) ! i))"

definition evacuation_ok :: "evacuation_point \<Rightarrow> bool" where
  "evacuation_ok ev \<longleftrightarrow> (case ev of no_evacuation \<Rightarrow> True | new_limit v \<Rightarrow> v mod 8 = 0 | evacuation_state arr \<Rightarrow> nat (arr ! 0) mod 8 = 0)"

lemma prepare_evacuation_fields:
  assumes "evacuation_ok ev" "m_evacuation_limit g mod 8 = 0"
  obtains l bo pr where "prepare_evacuation ev r g = g\<lparr>m_evacuation_limit := l, m_backoff := bo, m_evacuation_progress := pr\<rparr>" "l mod 8 = 0"
proof (cases ev)
  case no_evacuation
  then show thesis using that [where l = "m_evacuation_limit g" and bo = "m_backoff g" and pr = "m_evacuation_progress g"] assms(2) by (simp add: prepare_evacuation_def)
next
  case (new_limit v)
  then show thesis using that [where l = v and bo = "m_backoff g" and pr = "m_evacuation_progress g"] assms(1) by (simp add: prepare_evacuation_def evacuation_ok_def)
next
  case (evacuation_state arr)
  let ?g1 = "g\<lparr>m_evacuation_limit := nat (arr ! 0), m_backoff := arr ! 1\<rparr>"
  let ?bo = "if arr ! 1 > 0 then arr ! 1 - 1 else arr ! 1"
  let ?pr = "if arr ! 1 > 0 then m_evacuation_progress g else m_evacuation_progress g @ map nat (drop 2 arr)"
  let ?up = "nat (arr ! 0) > 0 \<and> r > nat (arr ! 0)"
  have "prepare_evacuation ev r g = g\<lparr>m_evacuation_limit := (if ?up then 0 else nat (arr ! 0)), m_backoff := (if ?up then 10 else ?bo), m_evacuation_progress := ?pr\<rparr>"
    by (simp add: prepare_evacuation_def evacuation_state Let_def)
  then show thesis using that assms(1) by (simp add: evacuation_ok_def evacuation_state)
qed

lemma top_node_values:
  assumes "top_node m U r L v (ps, ls, vs)"
  shows "s_version_ndx < length (array_values m r)" "array_values m r ! s_file_size_ndx = 2 * L + 1"
    "array_values m r ! s_free_pos_ndx \<noteq> 0" "array_values m r ! s_free_size_ndx \<noteq> 0" "array_values m r ! s_free_version_ndx \<noteq> 0"
    "array_values m (array_values m r ! s_free_pos_ndx) = ps" "array_values m (array_values m r ! s_free_size_ndx) = ls"
    "array_values m (array_values m r ! s_free_version_ndx) = vs"
proof -
  obtain tops where t: "list_node m U r tops" "s_version_ndx < length tops" "\<forall>x\<in>set tops. x < 2 ^ 63" "L < 2 ^ 62"
      "tops ! s_file_size_ndx = nat (make_tagged L)" "tops ! s_free_pos_ndx \<noteq> 0" "tops ! s_free_size_ndx \<noteq> 0" "tops ! s_free_version_ndx \<noteq> 0"
      "list_node m U (tops ! s_free_pos_ndx) ps" "list_node m U (tops ! s_free_size_ndx) ls" "list_node m U (tops ! s_free_version_ndx) vs"
    and b: "\<forall>x\<in>set ps. x < 2 ^ 63" "\<forall>x\<in>set ls. x < 2 ^ 63" "\<forall>x\<in>set vs. x < 2 ^ 63"
    using assms by (auto simp: top_node_def)
  have vals: "array_values m x = xs" if "list_node m U x xs" "\<forall>x\<in>set xs. x < 2 ^ 63" for x xs
    using that by (intro holds_list_values) (fastforce simp: list_node_def)+
  note tv = vals [OF t(1,3)]
  show "s_version_ndx < length (array_values m r)" "array_values m r ! s_file_size_ndx = 2 * L + 1"
    "array_values m r ! s_free_pos_ndx \<noteq> 0" "array_values m r ! s_free_size_ndx \<noteq> 0" "array_values m r ! s_free_version_ndx \<noteq> 0"
    using t tv make_tagged_eq by simp_all
  show "array_values m (array_values m r ! s_free_pos_ndx) = ps" "array_values m (array_values m r ! s_free_size_ndx) = ls"
    "array_values m (array_values m r ! s_free_version_ndx) = vs"
    unfolding tv by (fact vals [OF t(9) b(1)] vals [OF t(10) b(2)] vals [OF t(11) b(3)])+
qed

lemma writer_of_snapshot:
  assumes db: "db_ok snaps f" and top: "transaction_top f (last snaps) m_top" and ev: "evacuation_ok ev" and rep: "reported snaps un tops"
  obtains m_top' g where "commit_writer f m_top ev v tops un fsz = Inr (m_top', g)" "fresh_writer g"
    "free_list g = sn_free (last snaps)" "m_logical_size g = sn_size (last snaps)" "m_oldest_reachable_version g = sn_version (hd snaps)"
    "m_current_version g = v" "m_any_new_unreachables g \<longrightarrow> m_top_ref_map g = snapshot_map snaps" "s_version_ndx < length m_top'"
proof -
  let ?t = "last snaps"
  have ne: "snaps \<noteq> []" and t: "?t \<in> set snaps" using db by (auto simp: db_ok_def snapshots_ok_def)
  have tok: "snapshot_ok snaps ?t" "on_disk f ?t" "sn_size ?t < 2 ^ 60" using db t by (auto simp: db_ok_def snapshots_ok_def)
  have eo: "entries_ok (sn_size ?t) (sn_free ?t)" "0 < sn_size ?t" "sn_size ?t mod 8 = 0" using tok(1) by (simp_all add: snapshot_ok_def)
  note n = s_version_ndx_def s_file_size_ndx_def s_free_pos_ndx_def s_free_size_ndx_def s_free_version_ndx_def
  have "\<exists>m_top' g. new_group_writer f m_top fsz = Inr (m_top', g) \<and> s_version_ndx < length m_top' \<and> m_free_positions g = map space_ref (sn_free ?t) \<and>
      m_free_lengths g = map space_size (sn_free ?t) \<and> m_free_versions g = map released_at_version (sn_free ?t) \<and> m_logical_size g = sn_size ?t \<and>
      m_size_map g = [] \<and> m_under_evacuation g = [] \<and> m_not_free_in_file g = [] \<and> m_evacuation_limit g = 0"
  proof (cases "sn_top ?t = 0")
    case True
    then have fr: "sn_free ?t = []" "sn_size ?t = 24" using tok(2) by (auto simp: on_disk_def top_node_def)
    obtain a b c where m: "m_top = [a, b, c]" using top True by (auto simp: transaction_top_def length_Suc_conv numeral_3_eq_3)
    have "c = nat (make_tagged 24)" using top True m by (simp add: transaction_top_def n)
    then have "get_as_int (int c) = 24" using make_tagged_eq [of 24] get_as_int_tagged [of 24] by simp
    then show ?thesis using fr m by (simp add: new_group_writer_def Let_def n numeral_eq_Suc)
  next
    case False
    then have "top_node f (sn_uses ?t) (sn_top ?t) (sn_size ?t) (sn_version ?t) (stored_lists ?t)" using tok(2) by (simp add: on_disk_def)
    then obtain ps ls vs where st: "stored_lists ?t = (ps, ls, vs)" and tn: "top_node f (sn_uses ?t) (sn_top ?t) (sn_size ?t) (sn_version ?t) (ps, ls, vs)"
      by (cases "stored_lists ?t") auto
    note V = top_node_values [OF tn]
    have fl: "ps = map space_ref (sn_free ?t)" "ls = map space_size (sn_free ?t)" "vs = map released_at_version (sn_free ?t)"
      using st by (simp_all add: stored_lists_def)
    have m: "s_version_ndx < length m_top" "m_top ! s_file_size_ndx = 2 * sn_size ?t + 1" "m_top ! s_free_pos_ndx = array_values f (sn_top ?t) ! s_free_pos_ndx"
        "m_top ! s_free_size_ndx = array_values f (sn_top ?t) ! s_free_size_ndx" "m_top ! s_free_version_ndx = array_values f (sn_top ?t) ! s_free_version_ndx"
      using top False V(2) by (simp_all add: transaction_top_def)
    have ap: "(m_top @ replicate (s_version_ndx + 1 - length m_top) 0) = m_top" using m(1) by simp
    have sz: "get_as_int (int (2 * sn_size ?t + 1)) = sn_size ?t" using tok(3) by (intro get_as_int_tagged) simp
    show ?thesis unfolding new_group_writer_def Let_def ap m(2-5) V(6-8) sz using V(3-5) m(1) by (simp add: fl)
  qed
  then obtain m_top' g0 where N: "new_group_writer f m_top fsz = Inr (m_top', g0)" "s_version_ndx < length m_top'" "m_free_positions g0 = map space_ref (sn_free ?t)"
      "m_free_lengths g0 = map space_size (sn_free ?t)" "m_free_versions g0 = map released_at_version (sn_free ?t)" "m_logical_size g0 = sn_size ?t"
      "m_size_map g0 = []" "m_under_evacuation g0 = []" "m_not_free_in_file g0 = []" "m_evacuation_limit g0 = 0" by blast
  let ?g1 = "set_versions v tops un g0"
  obtain l bo pr where P: "prepare_evacuation ev (m_top' ! s_free_pos_ndx) ?g1 = ?g1\<lparr>m_evacuation_limit := l, m_backoff := bo, m_evacuation_progress := pr\<rparr>" "l mod 8 = 0"
    by (rule prepare_evacuation_fields [OF ev, of ?g1]) (simp add: set_versions_def N(10))
  let ?g = "?g1\<lparr>m_evacuation_limit := l, m_backoff := bo, m_evacuation_progress := pr\<rparr>"
  have fl: "free_list ?g = sn_free ?t" by (rule free_list_eqI) (simp_all add: set_versions_def N)
  have "fresh_writer ?g" unfolding fresh_writer_def fl using N P(2) eo tok(3) by (simp add: set_versions_def)
  moreover have "commit_writer f m_top ev v tops un fsz = Inr (m_top', ?g)"
    using N(1) P(1) by (simp add: commit_writer_def Let_def)
  ultimately show thesis using fl N(2,6) rep by (intro that [of m_top' ?g]) (simp_all add: set_versions_def reported_def)
qed

subsection \<open>The first half of a commit\<close>

definition unused_byte :: "snapshot list \<Rightarrow> nat \<Rightarrow> bool" where
  "unused_byte snaps b \<longleftrightarrow> (\<forall>s\<in>set snaps. b \<notin> sn_uses s)"

text \<open>The blocks of the latest snapshot that the transaction has freed, the file header not among them.\<close>

definition freed_ok :: "snapshot \<Rightarrow> (nat \<times> nat) list \<Rightarrow> bool" where
  "freed_ok t nf \<longleftrightarrow> (\<forall>(pos, sz)\<in>set nf. chunk_ok (sn_size t) sz pos) \<and>
     (\<forall>b. cover_blocks nf b \<le> 1 \<and> (1 \<le> cover_blocks nf b \<longrightarrow> b \<in> sn_uses t \<and> 24 \<le> b))"

lemma cover_nf: "cover_entries (nf_entries v nf) b = cover_blocks nf b"
  by (induction nf) (auto simp: nf_entries_def cover_blocks_def)

lemma latest_version: "snapshots_ok snaps \<Longrightarrow> s \<in> set snaps \<Longrightarrow> sn_version s \<le> sn_version (last snaps) \<and> sn_version (hd snaps) \<le> sn_version s"
proof -
  assume ok: "snapshots_ok snaps" and s: "s \<in> set snaps"
  then have ne: "snaps \<noteq> []" and so: "sorted (map sn_version snaps)" by (auto simp: snapshots_ok_def intro: strict_sorted_imp_sorted)
  obtain i where i: "i < length snaps" "s = snaps ! i" using s by (auto simp: in_set_conv_nth)
  have "map sn_version snaps ! i \<le> map sn_version snaps ! (length snaps - 1)" "map sn_version snaps ! 0 \<le> map sn_version snaps ! i"
    using i(1) by (intro sorted_nth_mono [OF so]; simp)+
  then show ?thesis using i ne by (simp add: last_conv_nth hd_conv_nth)
qed

text \<open>What is allocatable, and what lies behind the end of the file, is not used by any reachable snapshot.\<close>

lemma free_unused:
  assumes db: "db_ok snaps f"
  shows "1 \<le> cover_entries (filter (\<lambda>e. \<not> sn_version (hd snaps) < released_at_version e) (sn_free (last snaps))) b \<Longrightarrow> unused_byte snaps b"
    "sn_size (last snaps) \<le> b \<Longrightarrow> unused_byte snaps b"
    "b \<in> sn_uses (last snaps) \<Longrightarrow> cover_entries (sn_free (last snaps)) b = 0"
proof -
  let ?t = "last snaps"
  have so: "snapshots_ok snaps" using db by (simp add: db_ok_def)
  have t: "?t \<in> set snaps" using so by (simp add: snapshots_ok_def)
  have tok: "snapshot_ok snaps ?t" using so t by (simp add: snapshots_ok_def)
  have dated: "unused (sn_uses s) (space_ref e) (space_size e)" if "e \<in> set (sn_free ?t)" "s \<in> set snaps" "released_at_version e \<le> sn_version s" for e s
    using tok that latest_version [OF so that(2)] by (simp add: snapshot_ok_def dated_def)
  show "unused_byte snaps b" if c: "1 \<le> cover_entries (filter (\<lambda>e. \<not> sn_version (hd snaps) < released_at_version e) (sn_free ?t)) b"
  proof -
    obtain e where e: "e \<in> set (sn_free ?t)" "released_at_version e \<le> sn_version (hd snaps)" "in_block (space_ref e) (space_size e) b"
      using c by (auto simp: cover_entries_def Suc_le_eq length_greater_0_conv filter_empty_conv simp flip: neq0_conv)
    then show ?thesis unfolding unused_byte_def using dated [OF e(1)] latest_version [OF so] e(2,3) unfolding unused_def by (meson le_trans)
  qed
  show "unused_byte snaps b" if "sn_size ?t \<le> b"
    using tok that latest_version [OF so] unfolding unused_byte_def snapshot_ok_def by (meson lessThan_iff not_le subsetD)
  show "cover_entries (sn_free ?t) b = 0" if "b \<in> sn_uses ?t"
  proof -
    have "\<not> in_block (space_ref e) (space_size e) b" if e: "e \<in> set (sn_free ?t)" for e
      using dated [OF e t] tok e \<open>b \<in> sn_uses ?t\<close> by (auto simp: snapshot_ok_def unused_def)
    then show ?thesis by (simp add: cover_entries_def filter_empty_conv)
  qed
qed

lemma apart_cover: "apart es \<Longrightarrow> cover_entries es b \<le> 1"
proof (induction es)
  case (Cons e es)
  have "cover_entries es b = 0" if "in_block (space_ref e) (space_size e) b"
    using Cons.prems that by (fastforce simp: apart_def cover_entries_def filter_empty_conv in_block_def)
  then show ?case using Cons by (auto simp: apart_def)
qed simp

lemma redated_cover: "list_all2 (redated snaps N) es es' \<Longrightarrow> cover_entries es' b = cover_entries es b"
  by (induction rule: list_all2_induct) (auto simp: redated_def)

lemma redated_ok: "list_all2 (redated snaps N) es es' \<Longrightarrow> entries_ok L es \<Longrightarrow> entries_ok L es'"
  by (induction rule: list_all2_induct) (auto simp: redated_def entries_ok_def)

lemma set_backoff_eq: "\<exists>bo. set_backoff h g = g\<lparr>m_backoff := bo\<rparr>"
proof (cases "h \<and> (m_evacuation_limit g \<noteq> 0 \<or> m_backoff g \<noteq> 0) \<and> m_backoff g = 0 \<and> m_evacuation_progress g = []")
  case False
  then show ?thesis by (intro exI [of _ "m_backoff g"]) (simp add: set_backoff_def)
qed (auto simp: set_backoff_def)

text \<open>
  What holds when the arrays have been written to the blocks \<open>bl\<close>: what is free is unused, the blocks,
  the bytes that are free and those that are kept are apart, and the dates of the pinned entries are right.
\<close>

definition trees_done :: "file_env \<Rightarrow> snapshot list \<Rightarrow> (nat \<times> nat) list \<Rightarrow> nat \<Rightarrow> mem \<Rightarrow> (nat \<times> nat) list \<Rightarrow> group_writer \<Rightarrow> write_log \<Rightarrow> bool" where
  "trees_done env snaps nf v f bl g lg \<longleftrightarrow> lists_ready env nf g \<and> m_current_version g = v \<and>
     (\<forall>b. 1 \<le> cover_free g b \<or> m_logical_size g \<le> b \<or> 1 \<le> cover_blocks bl b \<longrightarrow> unused_byte snaps b) \<and>
     (\<forall>b. 1 \<le> cover_blocks bl b \<or> b \<in> sn_uses (last snaps) \<and> cover_blocks nf b = 0 \<longrightarrow>
        cover_free g b = 0 \<and> cover_entries (locked nf g) b = 0 \<and> b < m_logical_size g) \<and>
     (\<forall>e\<in>set (m_not_free_in_file g). released_at_version e \<le> sn_version (last snaps) \<and>
        dated snaps (sn_version (last snaps)) (space_ref e) (space_size e) (released_at_version e)) \<and>
     (\<forall>b. cover_blocks bl b = 0 \<longrightarrow> file_bytes lg b = f b)"

text \<open>The accounting behind it: free and pinned entries of the latest snapshot, and the file extension.\<close>

lemma trees_accounts:
  assumes db: "db_ok snaps f" and nf: "freed_ok (last snaps) nf" and ok: "writer_ok g" and env: "env_ok env"
    and L: "sn_size (last snaps) \<le> m_logical_size g" and clear: "m_free_positions g = []" "m_free_lengths g = []" "m_free_versions g = []"
    and v: "m_current_version g = v" and bl: "\<forall>(pos, sz)\<in>set bl. chunk_ok (m_logical_size g) sz pos"
    and pins: "\<And>b. cover_entries (m_not_free_in_file g) b =
      cover_entries (filter (\<lambda>e. sn_version (hd snaps) < released_at_version e) (sn_free (last snaps))) b"
    and acc: "\<And>b. cover_free g b + cover_blocks bl b =
      cover_entries (filter (\<lambda>e. \<not> sn_version (hd snaps) < released_at_version e) (sn_free (last snaps))) b +
      of_bool (sn_size (last snaps) \<le> b \<and> b < m_logical_size g)"
    and dates: "\<forall>e\<in>set (m_not_free_in_file g). released_at_version e \<le> sn_version (last snaps) \<and>
        dated snaps (sn_version (last snaps)) (space_ref e) (space_size e) (released_at_version e)"
    and bytes: "\<And>b. cover_blocks bl b = 0 \<Longrightarrow> file_bytes lg b = f b"
  shows "trees_done env snaps nf v f bl g lg"
proof -
  let ?t = "last snaps" and ?fr = "filter (\<lambda>e. \<not> sn_version (hd snaps) < released_at_version e) (sn_free (last snaps))"
  let ?pi = "filter (\<lambda>e. sn_version (hd snaps) < released_at_version e) (sn_free (last snaps))"
  have t: "snapshot_ok snaps ?t" using db by (simp add: db_ok_def snapshots_ok_def)
  have fp: "cover_entries ?pi b + cover_entries ?fr b = cover_entries (sn_free ?t) b" for b
    using cover_entries_filter_split [of "sn_free ?t" b "\<lambda>e. sn_version (hd snaps) < released_at_version e"] by simp
  have one: "cover_entries (sn_free ?t) b \<le> 1" for b using t by (intro apart_cover) (simp add: snapshot_ok_def)
  have out: "cover_entries (sn_free ?t) b = 0" if "sn_size ?t \<le> b" for b
    using t that by (intro cover_entries_out) (simp_all add: snapshot_ok_def)
  have nf1: "cover_blocks nf b \<le> 1" "1 \<le> cover_blocks nf b \<Longrightarrow> b \<in> sn_uses ?t" for b using nf by (simp_all add: freed_ok_def)
  have lock: "cover_entries (locked nf g) b = cover_entries ?pi b + cover_blocks nf b" for b by (simp add: locked_def pins cover_nf)
  have used: "cover_entries (sn_free ?t) b = 0 \<and> b < sn_size ?t" if u: "b \<in> sn_uses ?t" for b
  proof -
    have "?t \<in> set snaps" using db by (simp add: db_ok_def snapshots_ok_def)
    then have "\<not> sn_size ?t \<le> b" using free_unused(2) [OF db, of b] u unfolding unused_byte_def by blast
    then show ?thesis using free_unused(3) [OF db u] by simp
  qed
  have nfo: "entries_ok (m_logical_size g) (nf_entries v nf)"
    using nf L unfolding freed_ok_def entries_ok_def nf_entries_def chunk_ok_def by fastforce
  have tot: "cover_free g b + cover_blocks bl b + cover_entries (locked nf g) b \<le> 1" for b
  proof (cases "1 \<le> cover_blocks nf b")
    case True
    then show ?thesis using used [OF nf1(2) [OF True]] acc [of b] lock [of b] fp [of b] nf1(1) [of b] by simp
  next
    case False
    then have "cover_blocks nf b = 0" by simp
    then show ?thesis using acc [of b] lock [of b] fp [of b] one [of b] out [of b] by (cases "sn_size ?t \<le> b") simp_all
  qed
  have "cover_free g b + cover_entries (locked nf g) b \<le> 1" for b using tot [of b] by linarith
  then have ready: "lists_ready env nf g" unfolding lists_ready_def using ok env clear nfo v by simp
  have un: "unused_byte snaps b" if c: "1 \<le> cover_free g b \<or> m_logical_size g \<le> b \<or> 1 \<le> cover_blocks bl b" for b
  proof (cases "sn_size ?t \<le> b")
    case True
    then show ?thesis by (rule free_unused(2) [OF db])
  next
    case False
    then have "1 \<le> cover_entries ?fr b" using acc [of b] c L by auto
    then show ?thesis by (rule free_unused(1) [OF db])
  qed
  have bl': "b < m_logical_size g" if "1 \<le> cover_blocks bl b" for b
    using that bl by (auto simp: cover_blocks_def Suc_le_eq length_greater_0_conv filter_empty_conv chunk_ok_def in_block_def simp flip: neq0_conv)
  have sep: "cover_free g b = 0 \<and> cover_entries (locked nf g) b = 0 \<and> b < m_logical_size g"
    if c: "1 \<le> cover_blocks bl b \<or> b \<in> sn_uses ?t \<and> cover_blocks nf b = 0" for b
  proof (cases "1 \<le> cover_blocks bl b")
    case True
    then show ?thesis using tot [of b] bl' [of b] by simp
  next
    case False
    then have u: "b \<in> sn_uses ?t" "cover_blocks nf b = 0" using c by auto
    then show ?thesis using used [OF u(1)] acc [of b] lock [of b] fp [of b] L by auto
  qed
  show ?thesis unfolding trees_done_def using ready v un sep dates bytes by blast
qed

lemma on_disk_load:
  assumes "on_disk f s" "\<And>b. b \<in> sn_uses s \<Longrightarrow> f' b = f b"
  shows "on_disk f' s" "load_free_list f' (sn_top s) = None \<or> load_free_list f' (sn_top s) = Some (stored_lists s)"
proof -
  show d: "on_disk f' s" using assms(1) top_node_cong [of f "sn_uses s" _ _ _ _ f'] assms(2) unfolding on_disk_def by blast
  obtain ps ls vs where st: "stored_lists s = (ps, ls, vs)" by (cases "stored_lists s")
  show "load_free_list f' (sn_top s) = None \<or> load_free_list f' (sn_top s) = Some (stored_lists s)"
  proof (cases "sn_top s = 0")
    case True
    then show ?thesis by (simp add: load_free_list_def)
  next
    case False
    then have "top_node f' (sn_uses s) (sn_top s) (sn_size s) (sn_version s) (ps, ls, vs)" using d by (simp add: on_disk_def st)
    then show ?thesis using top_node_read(1) st by simp
  qed
qed

lemma write_trees_spec:
  assumes db: "db_ok snaps f" and env: "env_ok env" and nodes: "nodes_ok arrays" and nf: "freed_ok (last snaps) nf"
    and fresh: "fresh_writer g0" and g0: "free_list g0 = sn_free (last snaps)" "m_logical_size g0 = sn_size (last snaps)"
      "m_oldest_reachable_version g0 = sn_version (hd snaps)" "m_current_version g0 = v" "m_any_new_unreachables g0 \<longrightarrow> m_top_ref_map g0 = snapshot_map snaps"
    and f: "file_bytes lg = f"
  shows "write_trees env arrays tp (g0, lg) \<noteq> None \<and>
    (\<forall>refs g lg'. write_trees env arrays tp (g0, lg) = Some (Inr (refs, g, lg')) \<longrightarrow>
       trees_done env snaps nf v f (array_blocks refs arrays) g lg' \<and> length refs = length arrays)"
proof -
  let ?t = "last snaps" and ?old = "sn_version (hd snaps)"
  have so: "snapshots_ok snaps" and t: "snapshot_ok snaps ?t" using db by (auto simp: db_ok_def snapshots_ok_def)
  obtain g1 where R: "read_in_freelist g0 = Inr g1" "writer_ok g1" "m_logical_size g1 = sn_size ?t"
     "m_not_free_in_file g1 = filter (\<lambda>e. ?old < released_at_version e) (sn_free ?t)"
     "\<And>b. cover_free g1 b = cover_entries (filter (\<lambda>e. \<not> ?old < released_at_version e) (sn_free ?t)) b"
     "m_free_positions g1 = []" "m_free_lengths g1 = []" "m_free_versions g1 = []" "m_current_version g1 = v"
     "m_oldest_reachable_version g1 = ?old" "m_top_ref_map g1 = m_top_ref_map g0" "m_any_new_unreachables g1 = m_any_new_unreachables g0"
    using read_in_freelist_spec [OF fresh] unfolding g0(1-4) by blast
  show ?thesis
  proof (cases "write_arrays env arrays (g1, lg)")
    case (Inl e)
    then show ?thesis using R(1) by (simp add: write_trees_def)
  next
    case (Inr q)
    obtain refs g2 lg2 where q: "q = (refs, g2, lg2)" by (cases q)
    let ?bl = "array_blocks refs arrays"
    note W = write_arrays_spec [OF Inr [unfolded q] R(2) env nodes]
    have F: "frame g1 g2" using W by blast
    obtain bo where bo: "set_backoff (length (tp refs) > s_evacuation_point_ndx) g2 = g2\<lparr>m_backoff := bo\<rparr>" using set_backoff_eq by blast
    let ?g2 = "g2\<lparr>m_backoff := bo\<rparr>"
    have acc: "cover_free g2 b + cover_blocks ?bl b = cover_entries (filter (\<lambda>e. \<not> ?old < released_at_version e) (sn_free ?t)) b +
        of_bool (sn_size ?t \<le> b \<and> b < m_logical_size g2)" for b using W R(3,5) by simp
    have dates: "\<forall>e\<in>set (m_not_free_in_file g2). released_at_version e \<le> sn_version ?t \<and>
        dated snaps (sn_version ?t) (space_ref e) (space_size e) (released_at_version e)"
      using t F R(4) by (auto simp: snapshot_ok_def frame_def)
    have fin: "trees_done env snaps nf v f ?bl g lg2"
      if g: "g = ?g2\<lparr>m_not_free_in_file := es\<rparr>" and es: "list_all2 (redated snaps (sn_version ?t)) (m_not_free_in_file g2) es" for g es
    proof (rule trees_accounts [OF db nf])
      show "writer_ok g" using W redated_ok [OF es] unfolding g writer_ok_def by simp
      show "cover_entries (m_not_free_in_file g) b = cover_entries (filter (\<lambda>e. ?old < released_at_version e) (sn_free ?t)) b" for b
        using redated_cover [OF es, of b] F R(4) by (simp add: g frame_def)
      show "\<forall>e\<in>set (m_not_free_in_file g). released_at_version e \<le> sn_version ?t \<and> dated snaps (sn_version ?t) (space_ref e) (space_size e) (released_at_version e)"
        using es dates unfolding g by (auto simp: list_all2_conv_all_nth in_set_conv_nth redated_def) (metis le_trans nth_mem)
      show "cover_free g b + cover_blocks ?bl b = cover_entries (filter (\<lambda>e. \<not> ?old < released_at_version e) (sn_free ?t)) b +
        of_bool (sn_size ?t \<le> b \<and> b < m_logical_size g)" for b using acc [of b] by (simp add: g cover_free_def)
    qed (use W env F R(3,6-9) f in \<open>auto simp: g frame_def\<close>)
    show ?thesis
    proof (cases "m_any_new_unreachables g2")
      case False
      have "list_all2 (redated snaps (sn_version ?t)) (m_not_free_in_file g2) (m_not_free_in_file g2)"
        using dates by (auto simp: list_all2_same redated_def)
      then have "trees_done env snaps nf v f ?bl ?g2 lg2" by (intro fin [of _ "m_not_free_in_file g2"]) simp_all
      then show ?thesis using False Inr q R(1) bo W by (auto simp: write_trees_def Let_def)
    next
      case True
      have un: "unused_byte snaps b" if "1 \<le> cover_blocks ?bl b" for b
        using acc [of b] that free_unused(1,2) [OF db, of b] by (cases "sn_size ?t \<le> b") auto
      have same: "file_bytes lg2 b = f b" if "s \<in> set snaps" "b \<in> sn_uses s" for s b
        using that un [of b] W f unfolding unused_byte_def by (metis Suc_leI neq0_conv One_nat_def)
      have load: "load_free_list (file_bytes lg2) (sn_top s) = None \<or> load_free_list (file_bytes lg2) (sn_top s) = Some (stored_lists s)" if "s \<in> set snaps" for s
        using on_disk_load(2) [of f s "file_bytes lg2"] same [OF that] db that by (auto simp: db_ok_def)
      have fr: "m_top_ref_map ?g2 = map (\<lambda>s. (sn_version s, (sn_top s, sn_size s))) snaps" "m_oldest_reachable_version ?g2 = ?old"
        using F R(10-12) g0(5) True by (simp_all add: frame_def snapshot_map_def)
      obtain es where B: "backdate (file_bytes lg2) ?g2 = Some (?g2\<lparr>m_not_free_in_file := es\<rparr>)" "list_all2 (redated snaps (sn_version ?t)) (m_not_free_in_file ?g2) es"
        using backdate_spec [OF so fr load, of "sn_version ?t"] dates by auto
      have "trees_done env snaps nf v f ?bl (?g2\<lparr>m_not_free_in_file := es\<rparr>) lg2" using B(2) by (intro fin [of _ es]) simp_all
      then show ?thesis using True Inr q R(1) bo W B(1) by (auto simp: write_trees_def Let_def)
    qed
  qed
qed

subsection \<open>The new snapshot\<close>

definition new_snapshot :: "snapshot list \<Rightarrow> (nat \<times> nat) list \<Rightarrow> (nat \<times> nat) list \<Rightarrow> nat \<Rightarrow> nat \<Rightarrow> nat \<Rightarrow> nat \<Rightarrow> group_writer \<Rightarrow> snapshot" where
  "new_snapshot snaps nf bl v rp tr er g =
     \<lparr>sn_version = v, sn_top = tr, sn_size = m_logical_size g,
      sn_uses = {b \<in> sn_uses (last snaps). cover_blocks nf b = 0} \<union> {b. 1 \<le> cover_blocks bl b} \<union> {rp..<er}, sn_free = free_list g\<rparr>"

lemma unused_entry: "(\<And>b. in_block pos sz b \<Longrightarrow> unused_byte snaps b) \<Longrightarrow> s \<in> set snaps \<Longrightarrow> unused (sn_uses s) pos sz"
  by (auto simp: unused_def unused_byte_def)

lemma new_free_list:
  assumes db: "db_ok snaps f" and td: "trees_done env snaps nf v f bl g lg" and v: "sn_version (last snaps) < v"
    and run: "write_freelists env m_top w nf (g, lg) = Inr (rp, tr, er, rs, g', lg')" and small: "lists_small m_top w nf g g'"
    and e: "e \<in> set (free_list g')"
  shows "released_at_version e \<le> v" "s \<in> set snaps \<Longrightarrow> released_at_version e \<le> sn_version s \<Longrightarrow> unused (sn_uses s) (space_ref e) (space_size e)"
proof -
  have T: "lists_ready env nf g" "m_current_version g = v" "\<And>b. 1 \<le> cover_free g b \<or> m_logical_size g \<le> b \<Longrightarrow> unused_byte snaps b"
      "\<And>e. e \<in> set (m_not_free_in_file g) \<Longrightarrow> released_at_version e \<le> sn_version (last snaps) \<and>
        dated snaps (sn_version (last snaps)) (space_ref e) (space_size e) (released_at_version e)"
    using td by (auto simp: trees_done_def)
  have "er < rp + rs" using lists_fit(2) [OF T(1) run small] by simp
  from write_freelists_spec(13) [OF T(1) run this e]
  consider "e \<in> set (m_not_free_in_file g)" | "released_at_version e = v"
    | "released_at_version e = 0" "\<And>b. in_block (space_ref e) (space_size e) b \<Longrightarrow> unused_byte snaps b"
    using T(2,3) by (auto simp: locked_def nf_entries_def)
  note c = this
  have so: "snapshots_ok snaps" using db by (simp add: db_ok_def)
  show "released_at_version e \<le> v" using c v T(4) by (metis le0 le_trans less_imp_le order_refl)
  assume s: "s \<in> set snaps" "released_at_version e \<le> sn_version s"
  have le: "sn_version s \<le> sn_version (last snaps)" using latest_version [OF so s(1)] by simp
  from c show "unused (sn_uses s) (space_ref e) (space_size e)"
  proof cases
    case 1
    then show ?thesis using T(4) s le by (auto simp: dated_def)
  next
    case 2
    then show ?thesis using s(2) le v by simp
  next
    case 3
    then show ?thesis using unused_entry s(1) by blast
  qed
qed

lemma commit_keeps:
  assumes db: "db_ok snaps f" and td: "trees_done env snaps nf v f bl g lg" and v: "sn_version (last snaps) < v" and nf: "freed_ok (last snaps) nf"
    and run: "write_freelists env m_top w nf (g, lg) = Inr (rp, tr, er, rs, g', lg')" and small: "lists_small m_top w nf g g'"
  defines "t' \<equiv> new_snapshot snaps nf bl v rp tr er g'"
  shows "\<forall>s\<in>set snaps. \<forall>b\<in>sn_uses s. file_bytes lg' b = f b" "db_ok (snaps @ [t']) (file_bytes lg')"
proof -
  have T: "lists_ready env nf g" "m_current_version g = v" "\<And>b. 1 \<le> cover_free g b \<or> m_logical_size g \<le> b \<or> 1 \<le> cover_blocks bl b \<Longrightarrow> unused_byte snaps b"
      "\<And>b. 1 \<le> cover_blocks bl b \<or> b \<in> sn_uses (last snaps) \<and> cover_blocks nf b = 0 \<Longrightarrow>
         cover_free g b = 0 \<and> cover_entries (locked nf g) b = 0 \<and> b < m_logical_size g"
      "\<And>b. cover_blocks bl b = 0 \<Longrightarrow> file_bytes lg b = f b"
    using td by (auto simp: trees_done_def)
  have fit: "er < rp + rs" using lists_fit(2) [OF T(1) run small] by simp
  note S = write_freelists_spec [OF T(1) run fit]
  have v0: "0 < m_current_version g" using v T(2) by simp
  note D = lists_stored [OF T(1) run small v0]
  have reserve: "unused_byte snaps b" if "in_block rp rs b" for b using S(14) [OF that] T(3) by blast
  show same: "\<forall>s\<in>set snaps. \<forall>b\<in>sn_uses s. file_bytes lg' b = f b"
  proof (intro ballI)
    fix s b assume s: "s \<in> set snaps" "b \<in> sn_uses s"
    then have u: "\<not> unused_byte snaps b" by (auto simp: unused_byte_def)
    then have "\<not> in_block rp rs b" using reserve by blast
    then have "b < rp \<or> er \<le> b" using fit by (auto simp: in_block_def)
    moreover have "cover_blocks bl b = 0" using T(3) [of b] u by (cases "cover_blocks bl b = 0") auto
    ultimately show "file_bytes lg' b = f b" using D(2) T(5) by simp
  qed
  have so: "snapshots_ok snaps" and olds: "\<And>s. s \<in> set snaps \<Longrightarrow> on_disk f s \<and> {..<24} \<subseteq> sn_uses s \<and> 0 < sn_version s \<and> sn_version s < 2 ^ 62 \<and> sn_size s < 2 ^ 60"
    using db by (auto simp: db_ok_def)
  have ver: "sn_version s < v" if "s \<in> set snaps" for s using latest_version [OF so that] v by simp
  have inside: "b < m_logical_size g'" if "\<not> unused_byte snaps b" for b using S(15) [of b] T(3) that by (meson not_le)
  have uses: "b < m_logical_size g' \<and> cover_entries (free_list g') b = 0" if b: "b \<in> sn_uses t'" for b
  proof (cases "b \<in> {rp..<er}")
    case True
    then have "b < m_logical_size g'" "in_block rp (er - rp) b" using S(6) fit by (auto simp: chunk_ok_def in_block_def)
    moreover have "cover_free g b + cover_entries (locked nf g) b + of_bool (m_logical_size g \<le> b) \<le> 1"
      using T(1) cover_free_out [of g b] cover_entries_out [OF locked_ok [OF T(1)], of b] by (auto simp: lists_ready_def)
    ultimately show ?thesis using S(12) [of b] by auto
  next
    case False
    then have "1 \<le> cover_blocks bl b \<or> b \<in> sn_uses (last snaps) \<and> cover_blocks nf b = 0" using b by (auto simp: t'_def new_snapshot_def)
    note z = T(4) [OF this]
    have "b < m_logical_size g'"
    proof (rule ccontr)
      assume "\<not> b < m_logical_size g'"
      then show False using S(15) [of b] z by simp
    qed
    then show ?thesis using S(12) [of b] z False by (simp add: in_block_def)
  qed
  have "snapshot_ok (snaps @ [t']) s" if s: "s \<in> set snaps" for s
    using so s ver [OF s] by (auto simp: snapshots_ok_def snapshot_ok_def dated_def t'_def new_snapshot_def)
  moreover have "snapshot_ok (snaps @ [t']) t'"
  proof -
    have "unused (sn_uses t') (space_ref e) (space_size e)" if "e \<in> set (free_list g')" for e
      using uses cover_entries_member [OF that] by (fastforce simp: unused_def)
    moreover have "sn_uses s \<subseteq> {..<m_logical_size g'}" if "s \<in> set snaps" for s using inside that by (auto simp: unused_byte_def)
    moreover have "sn_uses t' \<subseteq> {..<m_logical_size g'}" using uses by blast
    ultimately show ?thesis using new_free_list [OF db td v run small] S(1,2,10,11)
      by (auto simp: snapshot_ok_def dated_def t'_def new_snapshot_def)
  qed
  ultimately have "snapshots_ok (snaps @ [t'])"
    using so ver by (auto simp: snapshots_ok_def sorted_wrt_append t'_def new_snapshot_def)
  moreover have "on_disk (file_bytes lg') s" if "s \<in> set snaps" for s using on_disk_load(1) olds [OF that] same that by blast
  moreover have "on_disk (file_bytes lg') t'"
    using top_node_mono [OF D(1), of "sn_uses t'"] S(3-5) T(2) by (auto simp: on_disk_def t'_def new_snapshot_def stored_lists_def)
  moreover have "{..<24} \<subseteq> sn_uses t'"
  proof -
    have "last snaps \<in> set snaps" using so by (simp add: snapshots_ok_def)
    then have "{..<24} \<subseteq> sn_uses (last snaps)" using olds by blast
    moreover have "cover_blocks nf b = 0" if "b < 24" for b using nf that unfolding freed_ok_def by (metis One_nat_def Suc_leI neq0_conv not_le)
    ultimately show ?thesis by (auto simp: t'_def new_snapshot_def)
  qed
  moreover have "0 < v" "v < 2 ^ 62" "m_logical_size g' < 2 ^ 60" using v small T(2) by (simp_all add: lists_small_def)
  ultimately show "db_ok (snaps @ [t']) (file_bytes lg')" unfolding db_ok_def using olds by (auto simp: t'_def new_snapshot_def)
qed

subsection \<open>Steps\<close>

definition empty_db :: "mem \<Rightarrow> snapshot list \<times> mem" where
  "empty_db f = ([\<lparr>sn_version = 1, sn_top = 0, sn_size = 24, sn_uses = {..<24}, sn_free = []\<rparr>], f)"

text \<open>
  The steps of a database. The latest snapshot is always reachable. In a commit \<open>m_top\<close> is the top array
  of the transaction, \<open>arrays\<close> the changed arrays, \<open>slots\<close> the slots that their refs go to, \<open>nf\<close> what the
  transaction has freed and \<open>v\<close> the new version; \<open>g\<close> is the writer when the arrays have been written.
\<close>

inductive commit_step :: "file_env \<Rightarrow> snapshot list \<times> mem \<Rightarrow> snapshot list \<times> mem \<Rightarrow> bool" for env where
  forget: "snaps \<noteq> [] \<Longrightarrow> P (last snaps) \<Longrightarrow> commit_step env (snaps, f) (filter P snaps, f)"
| commit: "transaction_top f (last snaps) m_top \<Longrightarrow> evacuation_ok ev \<Longrightarrow> nodes_ok arrays \<Longrightarrow> freed_ok (last snaps) nf \<Longrightarrow>
    sn_version (last snaps) < v \<Longrightarrow> file_bytes lg = f \<Longrightarrow>
    reported snaps un tops \<Longrightarrow> commit_group env m_top w ev arrays slots nf v tops un fsz lg = Some (Inr (refs, rp, tr, er, rs, g', lg')) \<Longrightarrow>
    commit_writer f m_top ev v tops un fsz = Inr (m_top', g0) \<Longrightarrow>
    write_trees env arrays (\<lambda>refs. set_refs (slots refs) m_top') (g0, lg) = Some (Inr (refs, g, lg1)) \<Longrightarrow>
    lists_small (set_refs (slots refs) m_top') w nf g g' \<Longrightarrow>
    commit_step env (snaps, f) (snaps @ [new_snapshot snaps nf (array_blocks refs arrays) v rp tr er g'], file_bytes lg')"

inductive_cases commit_stepE: "commit_step env (snaps, f) s"

abbreviation commit_steps :: "file_env \<Rightarrow> snapshot list \<times> mem \<Rightarrow> snapshot list \<times> mem \<Rightarrow> bool" where
  "commit_steps env \<equiv> (commit_step env)\<^sup>*\<^sup>*"

lemma empty_db_ok: "db_ok (fst (empty_db f)) f"
  by (simp add: empty_db_def db_ok_def snapshots_ok_def snapshot_ok_def on_disk_def entries_ok_def apart_def)

lemma forget_ok:
  assumes "db_ok snaps f" "P (last snaps)"
  shows "db_ok (filter P snaps) f"
proof -
  have ne: "snaps \<noteq> []" using assms(1) by (simp add: db_ok_def snapshots_ok_def)
  then have "last snaps \<in> set (filter P snaps)" using assms(2) by simp
  then have "filter P snaps \<noteq> []" by fastforce
  moreover have "sorted_wrt (<) (map sn_version (filter P snaps))"
    using assms(1) sorted_wrt_filter [of "\<lambda>a b. sn_version a < sn_version b" snaps P] by (simp add: db_ok_def snapshots_ok_def sorted_wrt_map)
  moreover have "snapshot_ok (filter P snaps) t" if "t \<in> set snaps" for t
    using assms(1) that by (auto simp: db_ok_def snapshots_ok_def snapshot_ok_def dated_def)
  ultimately show ?thesis using assms(1) by (auto simp: db_ok_def snapshots_ok_def)
qed

text \<open>The phases of a commit from a database that is in order.\<close>

lemma commit_phases:
  assumes db: "db_ok snaps f" and env: "env_ok env" and top: "transaction_top f (last snaps) m_top" and ev: "evacuation_ok ev"
    and nodes: "nodes_ok arrays" and nf: "freed_ok (last snaps) nf" and f: "file_bytes lg = f" and rep: "reported snaps un tops"
  shows "commit_group env m_top w ev arrays slots nf v tops un fsz lg \<noteq> None" (is ?returns)
    "commit_writer f m_top ev v tops un fsz = Inr (m_top', g0) \<Longrightarrow>
     write_trees env arrays (\<lambda>refs. set_refs (slots refs) m_top') (g0, lg) = Some (Inr (refs, g, lg1)) \<Longrightarrow>
     trees_done env snaps nf v f (array_blocks refs arrays) g lg1"
    "commit_writer f m_top ev v tops un fsz = Inr (m_top', g0) \<Longrightarrow>
     write_trees env arrays (\<lambda>refs. set_refs (slots refs) m_top') (g0, lg) = Some (Inr (refs, g, lg1)) \<Longrightarrow>
     commit_group env m_top w ev arrays slots nf v tops un fsz lg = Some (Inr (refs, rp, tr, er, rs, g', lg')) \<Longrightarrow>
     write_freelists env (set_refs (slots refs) m_top') w nf (g, lg1) = Inr (rp, tr, er, rs, g', lg')"
proof -
  obtain m1 g1 where W: "commit_writer f m_top ev v tops un fsz = Inr (m1, g1)" "fresh_writer g1"
    "free_list g1 = sn_free (last snaps)" "m_logical_size g1 = sn_size (last snaps)" "m_oldest_reachable_version g1 = sn_version (hd snaps)"
    "m_current_version g1 = v" "m_any_new_unreachables g1 \<longrightarrow> m_top_ref_map g1 = snapshot_map snaps" "s_version_ndx < length m1"
    by (rule writer_of_snapshot [OF db top ev rep])
  note T = write_trees_spec [OF db env nodes nf W(2-7) f]
  show ?returns using T W(1) f by (simp add: commit_group_def write_group_def)
  assume w: "commit_writer f m_top ev v tops un fsz = Inr (m_top', g0)"
    and t: "write_trees env arrays (\<lambda>refs. set_refs (slots refs) m_top') (g0, lg) = Some (Inr (refs, g, lg1))"
  show "trees_done env snaps nf v f (array_blocks refs arrays) g lg1" using T w t W(1) by simp
  assume "commit_group env m_top w ev arrays slots nf v tops un fsz lg = Some (Inr (refs, rp, tr, er, rs, g', lg'))"
  then show "write_freelists env (set_refs (slots refs) m_top') w nf (g, lg1) = Inr (rp, tr, er, rs, g', lg')"
    using w t f by (simp add: commit_group_def write_group_def bind_result_eq_Inr)
qed

lemma commit_step_ok:
  assumes step: "commit_step env (snaps, f) (snaps', f')" and db: "db_ok snaps f" and env: "env_ok env"
  shows "db_ok snaps' f' \<and> (\<forall>s\<in>set snaps. \<forall>b\<in>sn_uses s. f' b = f b) \<and>
    (\<forall>s\<in>set snaps'. s \<in> set snaps \<or> sn_version (last snaps) < sn_version s) \<and> sn_version (last snaps) \<le> sn_version (last snaps')"
  using step
proof (cases rule: commit_step.cases)
  case (forget P)
  then have "last (filter P snaps) = last snaps" by (metis append_butlast_last_id filter.simps filter_append last_snoc)
  then show ?thesis using forget forget_ok [OF db, of P] by auto
next
  case (commit m_top ev arrays nf v lg un tops w slots fsz refs rp tr er rs g' lg' m_top' g0 g lg1)
  note P = commit_phases [OF db env commit(3-6,8,9)]
  have td: "trees_done env snaps nf v f (array_blocks refs arrays) g lg1" by (rule P(2) [OF commit(11,12)])
  have wf: "write_freelists env (set_refs (slots refs) m_top') w nf (g, lg1) = Inr (rp, tr, er, rs, g', lg')" by (rule P(3) [OF commit(11,12,10)])
  show ?thesis using commit_keeps [OF db td commit(7,6) wf commit(13)] commit(1,2,7) by (auto simp: new_snapshot_def)
qed

end
