(* ===== verification/First_Commit.thy ===== *)
theory First_Commit
  imports Commit_Run
begin

text \<open>
  The first commit to an empty file, evaluated: the file is extended to one page, and the free lists and
  the top array are written behind the header. It shows that what is proved about commits applies to a run.
\<close>

definition demo_start :: group_writer where
  "demo_start = \<lparr>m_free_positions = [], m_free_lengths = [], m_free_versions = [], m_current_version = 2,
     m_oldest_reachable_version = 1, m_top_ref_map = [(1, (0, 24))], m_any_new_unreachables = False, m_free_space_size = 0,
     m_locked_space_size = 0, m_evacuation_limit = 0, m_backoff = 0, m_logical_size = 24,
     m_not_free_in_file = [], m_under_evacuation = [], m_size_map = [], m_evacuation_progress = [], file_size = 24\<rparr>"

lemma demo_writer_of: "commit_writer f [0, 0, nat (make_tagged 24)] no_evacuation 2 [(1, (0, 24))] False 24 = Inr ([0, 0, 49, 0, 0, 0, 1], demo_start)"
proof -
  have "nat (make_tagged 24) = 49" "get_as_int 49 = 24" using make_tagged_eq [of 24] get_as_int_tagged [of 24] by simp_all
  then show ?thesis
    by (simp add: commit_writer_def new_group_writer_def Let_def set_versions_def prepare_evacuation_def demo_start_def
      s_version_ndx_def s_file_size_ndx_def s_free_pos_ndx_def s_free_size_ndx_def s_free_version_ndx_def numeral_eq_Suc)
qed

lemma demo_trees: "write_trees demo_env [] tp (demo_start, new_write_log f) = Some (Inr ([], demo_start, new_write_log f))"
  by (simp add: write_trees_def read_in_freelist_def demo_start_def Let_def set_backoff_def merge_adjacent_entries_in_freelist_def)

lemma demo_needed: "max_free_space_needed (length [0, 0, 49, 0, 0, 0, 1 :: nat]) [] demo_start = 224"
  by (simp add: max_free_space_needed_def get_max_byte_size_def size_per_free_list_entry_def demo_start_def header_size_def Let_def)

definition demo_extended :: group_writer where
  "demo_extended = demo_start\<lparr>m_size_map := [(4072, 24)], m_logical_size := 4096, file_size := 4096\<rparr>"

lemma demo_extend: "extend_free_space demo_env 232 demo_start = Inr (0, demo_extended)"
proof -
  have "align_size_to_section_boundary 256 = 67108864"
    by (simp add: align_size_to_section_boundary_def matches_section_boundary_def get_lower_section_boundary_def get_upper_section_boundary_def get_section_base_def get_section_index_def)
  then show ?thesis
    by (simp add: extend_free_space_def minimal_new_size_def extended_size_def Let_def resize_file_def emplace_size_def demo_start_def demo_env_def
      demo_extended_def round_up_to_page_size_def)
qed

lemma demo_reserve: "reserve_free_space demo_env 232 demo_start = Inr (0, demo_extended)"
proof -
  have s: "search_free_space_in_part_of_freelist 232 (m_size_map demo_start) = Inr (None, [])"
    by (simp add: search_free_space_in_part_of_freelist_def demo_start_def) (subst search_part_loop.simps, simp add: lower_bound_from_def)
  have f: "find_section_in_range 24 4072 232 = 24"
    by (simp add: find_section_in_range_def) (subst find_section_loop.simps, simp add: get_upper_section_boundary_def get_section_base_def get_section_index_def)
  have e: "search_free_space_in_free_list_element 0 232 [(4072, 24)] = Inr (Some 0, [(4072, 24)])"
    using f by (simp add: search_free_space_in_free_list_element_def)
  have g: "demo_start\<lparr>m_size_map := []\<rparr> = demo_start" by (simp add: demo_start_def)
  have hit: "reserve_loop demo_env 232 (Some 0) demo_extended = Inr (0, demo_extended)" by (subst reserve_loop.simps) simp
  have "reserve_loop demo_env 232 None demo_start = Inr (0, demo_extended)"
    using demo_extend e hit by (subst reserve_loop.simps) (simp add: demo_extended_def demo_start_def)
  then show ?thesis using s g by (simp add: reserve_free_space_def)
qed

definition demo_listed :: group_writer where
  "demo_listed = demo_extended\<lparr>m_free_positions := [24], m_free_lengths := [4072], m_free_versions := [0]\<rparr>"

lemma demo_recreate: "recreate_freelist 24 [] demo_extended = Inr (0, demo_listed)"
  by (simp add: recreate_freelist_def demo_extended_def demo_start_def demo_listed_def Let_def space_entry_def)

lemma demo_lists:
  "\<exists>tr er g' lg'. write_freelists demo_env [0, 0, 49, 0, 0, 0, 1] 8 [] (demo_start, new_write_log f) = Inr (24, tr, er, 4072, g', lg') \<and>
     m_logical_size g' = 4096 \<and> tr \<noteq> 0 \<and> free_list g' \<noteq> []"
proof -
  have sh: "shrink_file demo_env demo_extended = demo_extended" "\<not> shrinks demo_extended" "m_logical_size demo_extended = 4096" "m_size_map demo_extended ! 0 = (4072, 24)"
    by (simp_all add: shrink_file_def shrinks_def demo_extended_def demo_start_def)
  obtain tr er g' lg' where f: "finish_lists demo_env ([0, 0, 49, 0, 0, 0, 1][s_file_size_ndx := nat (make_tagged 4096)]) 8 224 4072 24 0 (demo_listed, new_write_log f) = (tr, er, g', lg')"
    by (metis prod_cases4)
  obtain tops g5 where t: "start_compaction demo_env 4072 224 (set_slots 24 224 ([0, 0, 49, 0, 0, 0, 1][s_file_size_ndx := nat (make_tagged 4096)]) demo_listed) demo_listed = (tops, g5)"
    by fastforce
  have "m_logical_size g' = 4096"
    using finish_lists_eq(3) [OF f t] start_compaction_fields(4) [OF t] by (simp add: demo_listed_def demo_extended_def)
  moreover have "write_freelists demo_env [0, 0, 49, 0, 0, 0, 1] 8 [] (demo_start, new_write_log f) = Inr (24, tr, er, 4072, g', lg')"
    unfolding write_freelists_def Let_def prod.case demo_needed using demo_reserve sh demo_recreate f by simp
  moreover have "tr \<noteq> 0" using finish_lists_eq(1) [OF f t] by (simp add: new_top_ref_def versions_ref_def sizes_ref_def)
  moreover have "free_list g' \<noteq> []"
    using finish_lists_eq(3) [OF f t] start_compaction_fields(1-3) [OF t] by (simp add: free_list_def demo_listed_def demo_extended_def)
  ultimately show ?thesis by blast
qed

lemma demo_refs: "set_refs (\<lambda>_. 0) [0, 0, 49, 0, 0, 0, 1] = [0, 0, 49, 0, 0, 0, 1]"
  by (simp add: set_refs_def s_hist_ref_ndx_def s_evacuation_point_ndx_def)

lemma demo_map: "snapshot_map (fst (empty_db f)) = [(1, (0, 24))]"
  by (simp add: snapshot_map_def empty_db_def)

lemma demo_transaction:
  "transaction_top f (last (fst (empty_db f))) [0, 0, nat (make_tagged 24)]" "evacuation_ok no_evacuation" "nodes_ok []"
  "freed_ok (last (fst (empty_db f))) []" "file_bytes (new_write_log f) = f"
  "reported (fst (empty_db f)) un (snapshot_map (fst (empty_db f)))"
  by (simp_all add: transaction_top_def evacuation_ok_def nodes_ok_def freed_ok_def empty_db_def new_write_log_def s_file_size_ndx_def reported_map)

lemma demo_parts:
  "\<exists>tr er g' lg'. commit_group demo_env [0, 0, nat (make_tagged 24)] 8 no_evacuation [] (\<lambda>_ _. 0) [] 2 (snapshot_map (fst (empty_db f))) False 24 (new_write_log f) =
       Some (Inr ([], 24, tr, er, 4072, g', lg')) \<and> lists_small [0, 0, 49, 0, 0, 0, 1] 8 [] demo_start g' \<and> tr \<noteq> 0 \<and> free_list g' \<noteq> []"
proof -
  obtain tr er g' lg' where w: "write_freelists demo_env [0, 0, 49, 0, 0, 0, 1] 8 [] (demo_start, new_write_log f) = Inr (24, tr, er, 4072, g', lg')"
      "m_logical_size g' = 4096" "tr \<noteq> 0" "free_list g' \<noteq> []" using demo_lists by blast
  have "commit_group demo_env [0, 0, nat (make_tagged 24)] 8 no_evacuation [] (\<lambda>_ _. 0) [] 2 (snapshot_map (fst (empty_db f))) False 24 (new_write_log f) =
      Some (Inr ([], 24, tr, er, 4072, g', lg'))"
    using demo_writer_of demo_map w(1) demo_trees demo_refs by (simp add: commit_group_def write_group_def new_write_log_def)
  moreover have "lists_small [0, 0, 49, 0, 0, 0, 1] 8 [] demo_start g'"
    unfolding lists_small_def demo_needed using w(2) by (simp add: s_version_ndx_def valid_width_def locked_def nf_entries_def demo_start_def)
  ultimately show ?thesis using w(3,4) by blast
qed

lemma demo_commit:
  "\<exists>t f'. commit_step demo_env (empty_db f) (fst (empty_db f) @ [t], f') \<and>
     sn_top t \<noteq> 0 \<and> sn_version t = 2 \<and> sn_free t \<noteq> []"
proof -
  let ?snaps = "fst (empty_db f)"
  obtain tr er g' lg' where w: "commit_group demo_env [0, 0, nat (make_tagged 24)] 8 no_evacuation [] (\<lambda>_ _. 0) [] 2 (snapshot_map ?snaps) False 24 (new_write_log f) =
       Some (Inr ([], 24, tr, er, 4072, g', lg'))" "lists_small [0, 0, 49, 0, 0, 0, 1] 8 [] demo_start g'" "tr \<noteq> 0" "free_list g' \<noteq> []"
    using demo_parts [of f] by blast
  let ?t = "new_snapshot ?snaps [] (array_blocks [] []) 2 24 tr er g'"
  have v: "sn_version (last ?snaps) < 2" by (simp add: empty_db_def)
  have "commit_step demo_env (?snaps, f) (?snaps @ [?t], file_bytes lg')"
    using commit [OF demo_transaction(1-4) v demo_transaction(5,6) w(1), of "[0, 0, 49, 0, 0, 0, 1]" demo_start demo_start "new_write_log f"]
      demo_writer_of demo_map demo_trees demo_refs w(2) by simp
  moreover have "(?snaps, f) = empty_db f" by (simp add: empty_db_def)
  ultimately show ?thesis using w(3,4) by (intro exI [of _ ?t] exI [of _ "file_bytes lg'"]) (simp add: new_snapshot_def)
qed

end
