(* ===== verification/Commit_Safety.thy ===== *)
theory Commit_Safety
  imports First_Commit
begin

text \<open>
  What commits guarantee, in every state that a database reaches from an empty file.
\<close>

lemma commit_steps_ok:
  assumes "commit_steps env (snaps, f) (snaps', f')" "db_ok snaps f" "env_ok env"
  shows "db_ok snaps' f' \<and> (\<forall>s\<in>set snaps'. s \<in> set snaps \<longrightarrow> (\<forall>b\<in>sn_uses s. f' b = f b)) \<and>
    (\<forall>s\<in>set snaps'. s \<in> set snaps \<or> sn_version (last snaps) < sn_version s) \<and> sn_version (last snaps) \<le> sn_version (last snaps')"
  using assms(1)
proof (induction "(snaps', f')" arbitrary: snaps' f' rule: rtranclp_induct)
  case base
  then show ?case using assms(2) by simp
next
  case (step y)
  obtain snaps1 f1 where y: "y = (snaps1, f1)" by (cases y)
  note IH = step.hyps(3) [OF y]
  have db1: "db_ok snaps1 f1" using IH by blast
  note S = commit_step_ok [OF step.hyps(2) [unfolded y] db1 assms(3)]
  have so: "snapshots_ok snaps" using assms(2) by (simp add: db_ok_def)
  have keep: "s \<in> set snaps1" if "s \<in> set snaps" "s \<in> set snaps'" for s
  proof -
    have "sn_version s \<le> sn_version (last snaps1)" using IH latest_version [OF so that(1)] by simp
    then show ?thesis using S that(2) by force
  qed
  have "f' b = f b" if "s \<in> set snaps'" "s \<in> set snaps" "b \<in> sn_uses s" for s b
    using S IH keep [OF that(2,1)] that by metis
  moreover have "s \<in> set snaps \<or> sn_version (last snaps) < sn_version s" if "s \<in> set snaps'" for s
    using S IH that by (meson le_less_trans)
  ultimately show ?case using S IH by (meson le_trans)
qed

lemma reachable_ok: "commit_steps env (empty_db f0) (snaps, f) \<Longrightarrow> env_ok env \<Longrightarrow> db_ok snaps f"
  using commit_steps_ok [of env "fst (empty_db f0)" f0 snaps f] empty_db_ok [of f0] by (simp add: empty_db_def)

subsection \<open>Properties\<close>

text \<open>
  C2: A commit never overwrites a reachable snapshot. In a database that starts from an empty file, the
  bytes of the file that a snapshot uses are the same after any number of commits, as long as the
  snapshot stays reachable: new arrays, free lists and top arrays only go to bytes that no reachable
  snapshot uses, although entries of the free lists are dated back, merged, split and reused, and
  the file grows, shrinks and is compacted.
\<close>

theorem snapshots_never_overwritten:
  assumes env: "env_ok env" and before: "commit_steps env (empty_db f0) (snaps, f)" and after: "commit_steps env (snaps, f) (snaps', f')"
    and s: "s \<in> set snaps" "s \<in> set snaps'" and b: "b \<in> sn_uses s"
  shows "f' b = f b"
  using commit_steps_ok [OF after reachable_ok [OF before env] env] s b by blast

theorem snapshots_never_overwritten_witness:
  "\<exists>t f'. commit_steps demo_env (empty_db (\<lambda>_. 0)) (fst (empty_db (\<lambda>_. 0)) @ [t], f') \<and> sn_version t = 2 \<and> f' 7 = 0"
proof -
  let ?snaps = "fst (empty_db (\<lambda>_. 0))"
  obtain t f' where "commit_step demo_env (empty_db (\<lambda>_. 0)) (?snaps @ [t], f')" "sn_version t = 2" using demo_commit [of "\<lambda>_. 0"] by blast
  moreover have "empty_db (\<lambda>_. 0) = (?snaps, \<lambda>_. 0)" by (simp add: empty_db_def)
  ultimately have "commit_steps demo_env (?snaps, \<lambda>_. 0) (?snaps @ [t], f')" "commit_steps demo_env (empty_db (\<lambda>_. 0)) (?snaps, \<lambda>_. 0)" by auto
  from snapshots_never_overwritten [OF demo_ok(2) this(2,1), of "hd ?snaps" 7] this \<open>sn_version t = 2\<close>
  show ?thesis by (intro exI [of _ t] exI [of _ f']) (simp add: empty_db_def)
qed

text \<open>
  C11: What a commit writes is what the next one reads. In every reachable state, from the top array of
  a reachable snapshot the file gives back the free list, the version and the logical size that the
  commit has computed: the headers, element widths and refs that \<^verbatim>\<open>write_group\<close> works out for the four
  arrays in the reserved block agree with what is stored there, and later commits do not change it.
\<close>

theorem snapshot_read_back:
  assumes env: "env_ok env" and run: "commit_steps env (empty_db f0) (snaps, f)" and s: "s \<in> set snaps" "sn_top s \<noteq> 0"
  shows "load_free_list f (sn_top s) = Some (map space_ref (sn_free s), map space_size (sn_free s), map released_at_version (sn_free s)) \<and>
    get_version f (sn_top s) = sn_version s \<and> get_logical_file_size f (sn_top s) = sn_size s"
proof -
  have "on_disk f s" using reachable_ok [OF run env] s(1) by (simp add: db_ok_def)
  then have "top_node f (sn_uses s) (sn_top s) (sn_size s) (sn_version s)
      (map space_ref (sn_free s), map space_size (sn_free s), map released_at_version (sn_free s))"
    using s(2) by (simp add: on_disk_def stored_lists_def)
  from top_node_read [OF this] show ?thesis by simp
qed

theorem snapshot_read_back_witness:
  "\<exists>t f'. commit_steps demo_env (empty_db (\<lambda>_. 0)) (fst (empty_db (\<lambda>_. 0)) @ [t], f') \<and> get_version f' (sn_top t) = 2"
proof -
  obtain t f' where d: "commit_step demo_env (empty_db (\<lambda>_. 0)) (fst (empty_db (\<lambda>_. 0)) @ [t], f')" "sn_top t \<noteq> 0" "sn_version t = 2"
    using demo_commit [of "\<lambda>_. 0"] by blast
  then have r: "commit_steps demo_env (empty_db (\<lambda>_. 0)) (fst (empty_db (\<lambda>_. 0)) @ [t], f')" by blast
  from snapshot_read_back [OF demo_ok(2) r, of t] d r show ?thesis by auto
qed

text \<open>
  C14: The free lists are well formed in every reachable state. The entries of the free list of a
  reachable snapshot are aligned, not empty, behind the file header and inside the file, in
  ascending order and apart, they have a version of at most that of the snapshot, and the snapshot
  uses none of their bytes.
\<close>

theorem free_lists_well_formed:
  assumes env: "env_ok env" and run: "commit_steps env (empty_db f0) (snaps, f)" and s: "s \<in> set snaps" and e: "e \<in> set (sn_free s)"
  shows "space_size e > 0 \<and> space_size e mod 8 = 0 \<and> space_ref e mod 8 = 0 \<and> space_ref e \<ge> 24 \<and> space_ref e + space_size e \<le> sn_size s \<and>
    released_at_version e \<le> sn_version s \<and> unused (sn_uses s) (space_ref e) (space_size e) \<and> apart (sn_free s)"
proof -
  have db: "db_ok snaps f" by (rule reachable_ok [OF run env])
  have ok: "snapshot_ok snaps s" and hdr: "{..<24} \<subseteq> sn_uses s" using db s by (auto simp: db_ok_def snapshots_ok_def)
  have c: "chunk_ok (sn_size s) (space_size e) (space_ref e)" "released_at_version e \<le> sn_version s" "apart (sn_free s)"
      "unused (sn_uses s) (space_ref e) (space_size e)"
    using ok s e by (auto simp: snapshot_ok_def entries_ok_def dated_def)
  have "24 \<le> space_ref e"
  proof (rule ccontr)
    assume "\<not> 24 \<le> space_ref e"
    then have "space_ref e \<in> sn_uses s" using hdr by auto
    then show False using c(1,4) by (auto simp: unused_def in_block_def chunk_ok_def)
  qed
  then show ?thesis using c by (simp add: chunk_ok_def)
qed

theorem free_lists_well_formed_witness:
  "\<exists>t f' e. commit_steps demo_env (empty_db (\<lambda>_. 0)) (fst (empty_db (\<lambda>_. 0)) @ [t], f') \<and> e \<in> set (sn_free t) \<and> space_ref e \<ge> 24"
proof -
  obtain t f' where d: "commit_step demo_env (empty_db (\<lambda>_. 0)) (fst (empty_db (\<lambda>_. 0)) @ [t], f')" "sn_free t \<noteq> []"
    using demo_commit [of "\<lambda>_. 0"] by blast
  then have r: "commit_steps demo_env (empty_db (\<lambda>_. 0)) (fst (empty_db (\<lambda>_. 0)) @ [t], f')" by blast
  from free_lists_well_formed [OF demo_ok(2) r, of t "hd (sn_free t)"] d r show ?thesis by (metis in_set_conv_decomp list.set_sel(1))
qed

text \<open>
  C12: A commit returns. The loop of \<^verbatim>\<open>backdate\<close> looks for ever older free lists that cover an entry,
  as long as they say that it has been free for longer; the code has no other bound on it. In a
  reachable state it ends for every entry, because the free list of a snapshot has no versions above
  that of the snapshot, so that a commit returns a new snapshot or an error.
\<close>

theorem commit_returns:
  assumes env: "env_ok env" and run: "commit_steps env (empty_db f0) (snaps, f)" and top: "transaction_top f (last snaps) m_top"
    and ev: "evacuation_ok ev" and nodes: "nodes_ok arrays" and nf: "freed_ok (last snaps) nf" and f: "file_bytes lg = f" and rep: "reported snaps un tops"
  shows "\<exists>r. commit_group env m_top w ev arrays slots nf v tops un fsz lg = Some r"
  using commit_phases(1) [OF reachable_ok [OF run env] env top ev nodes nf f rep] by blast

theorem commit_returns_witness:
  "\<exists>r. commit_group demo_env [0, 0, nat (make_tagged 24)] 8 no_evacuation [(replicate 64 0, 0)] (\<lambda>_ _. 24) [] 2
     (snapshot_map (fst (empty_db (\<lambda>_. 0)))) True 24 (new_write_log (\<lambda>_. 0)) = Some r"
proof -
  have e: "commit_steps demo_env (empty_db (\<lambda>_. 0)) (fst (empty_db (\<lambda>_. 0)), \<lambda>_. 0)" by (simp add: empty_db_def)
  show ?thesis
    by (rule commit_returns [OF demo_ok(2) e])
      (simp_all add: transaction_top_def evacuation_ok_def nodes_ok_def freed_ok_def empty_db_def new_write_log_def s_file_size_ndx_def reported_map)
qed



end
