(* ===== verification/File_Header.thy ===== *)
theory File_Header
  imports Prelude
begin

text \<open>
  The header of a database file (\<^verbatim>\<open>SlabAlloc::Header\<close> in \<^verbatim>\<open>src/llbt/alloc_slab.hpp\<close>): two slots
  for the ref of the top array and the file format, and a bit that selects one of them. A commit writes
  the slot that is not selected and then flips the bit (\<^verbatim>\<open>GroupCommitter::commit\<close> of
  \<^verbatim>\<open>group_writer.cpp\<close>). The header is the first 24 bytes of the memory that stands for the file.
  Code that synchronizes the file is modelled by the list of the contents that the file has when it
  does so; a crash leaves a mixture of two successive ones.
\<close>

subsection \<open>The code\<close>

definition sizeof_Header :: nat where "sizeof_Header = 24"
definition sizeof_StreamingFooter :: nat where "sizeof_StreamingFooter = 16"
definition flags_SelectBit :: byte where "flags_SelectBit = 1"
definition footer_magic_cookie :: u64 where "footer_magic_cookie = 0x3034125237E526C8"

definition hd_top_ref :: "mem \<Rightarrow> nat \<Rightarrow> u64" where
  "hd_top_ref m slot = le_word (read_mem m (8 * slot) 8)"

definition hd_mnemonic :: "mem \<Rightarrow> byte list" where "hd_mnemonic m = read_mem m 16 4"
definition hd_file_format :: "mem \<Rightarrow> nat \<Rightarrow> byte" where "hd_file_format m slot = m (20 + slot)"
definition hd_flags :: "mem \<Rightarrow> byte" where "hd_flags m = m 23"

definition mnemonic :: "byte list" where "mnemonic = [0x54, 0x2D, 0x44, 0x42]"

definition empty_file_header :: "byte list" where
  "empty_file_header = le_bytes 8 (0 :: u64) @ le_bytes 8 (0 :: u64) @ mnemonic @ [0, 0, 0, 0]"

definition init_streaming_header :: "byte \<Rightarrow> byte list" where
  "init_streaming_header file_format_version =
     le_bytes 8 (- 1 :: u64) @ le_bytes 8 (0 :: u64) @ mnemonic @ [file_format_version, 0, 0, 0]"

definition slot_selector :: "byte \<Rightarrow> nat" where
  "slot_selector flags = (if flags AND flags_SelectBit \<noteq> 0 then 1 else 0)"

definition get_committed_file_format_version :: "mem \<Rightarrow> nat" where
  "get_committed_file_format_version m = unat (hd_file_format m (slot_selector (hd_flags m)))"

definition get_committed_top_ref :: "mem \<Rightarrow> nat" where
  "get_committed_top_ref m = unat (hd_top_ref m (slot_selector (hd_flags m)))"

definition is_file_on_streaming_form :: "mem \<Rightarrow> bool" where
  "is_file_on_streaming_form m \<longleftrightarrow> slot_selector (hd_flags m) = 0 \<and> hd_top_ref m (slot_selector (hd_flags m)) = - 1"

definition footer_top_ref :: "mem \<Rightarrow> nat \<Rightarrow> u64" where
  "footer_top_ref m len = le_word (read_mem m (len - sizeof_StreamingFooter) 8)"

definition footer_cookie :: "mem \<Rightarrow> nat \<Rightarrow> u64" where
  "footer_cookie m len = le_word (read_mem m (len - sizeof_StreamingFooter + 8) 8)"

definition get_top_ref :: "mem \<Rightarrow> nat \<Rightarrow> nat" where
  "get_top_ref m len = (if is_file_on_streaming_form m then unat (footer_top_ref m len) else get_committed_top_ref m)"

definition validate_header :: "mem \<Rightarrow> nat \<Rightarrow> nat result" where
  "validate_header m sz =
     (if sz < sizeof_Header then Inl (InvalidDatabase ''file is non-empty but too small'')
      else if sz mod 8 \<noteq> 0 then Inl (InvalidDatabase ''file has an invalid size'')
      else if hd_mnemonic m \<noteq> mnemonic then Inl (InvalidDatabase ''header has invalid mnemonic'')
      else let selector = slot_selector (hd_flags m);
               top_ref = hd_top_ref m selector;
               streaming = (selector = 0 \<and> top_ref = - 1)
      in if streaming \<and> sz < sizeof_Header + sizeof_StreamingFooter
         then Inl (InvalidDatabase ''file is in streaming format but too small'')
      else if streaming \<and> footer_cookie m sz \<noteq> footer_magic_cookie
         then Inl (InvalidDatabase ''file is in streaming format but has an invalid footer cookie'')
      else let top_ref = unat (if streaming then footer_top_ref m sz else top_ref)
      in if top_ref mod 8 \<noteq> 0 then Inl (InvalidDatabase ''top ref is not aligned'')
         else if top_ref \<ge> sz then Inl (InvalidDatabase ''top ref is outside of the file'')
         else Inr top_ref)"

text \<open>The contents of the file at the synchronizations of \<^verbatim>\<open>SlabAlloc::convert_from_streaming_form\<close>.\<close>

definition convert_from_streaming_form :: "nat \<Rightarrow> mem \<Rightarrow> mem list" where
  "convert_from_streaming_form top_ref m =
     (if \<not> is_file_on_streaming_form m then []
      else let m1 = write_mem m 8 (le_bytes 8 (of_nat top_ref :: u64));
               m1 = m1(21 := hd_file_format m1 0);
               m2 = m1(23 := hd_flags m1 OR flags_SelectBit)
           in [m1, m2])"

text \<open>The contents of the file at the two synchronizations of \<^verbatim>\<open>GroupCommitter::commit\<close>.\<close>

definition group_commit :: "nat \<Rightarrow> byte \<Rightarrow> mem \<Rightarrow> mem list" where
  "group_commit new_top_ref file_format_version m =
     (let new_flags = hd_flags m XOR flags_SelectBit;
          slot = slot_selector new_flags;
          m1 = (if file_format_version \<noteq> hd_file_format m slot then m(20 + slot := file_format_version) else m);
          m1 = write_mem m1 (8 * slot) (le_bytes 8 (of_nat new_top_ref :: u64));
          m2 = m1(23 := new_flags)
      in [m1, m2])"

subsection \<open>Crashes\<close>

text \<open>
  Between two synchronizations any of the bytes that are written may have reached the file.
\<close>

definition mixed :: "mem \<Rightarrow> mem \<Rightarrow> mem \<Rightarrow> bool" where
  "mixed m m' f \<longleftrightarrow> (\<forall>b. f b = m b \<or> f b = m' b)"

fun crash_states :: "mem \<Rightarrow> mem list \<Rightarrow> mem \<Rightarrow> bool" where
  "crash_states m [] f \<longleftrightarrow> f = m"
| "crash_states m (m' # ms) f \<longleftrightarrow> mixed m m' f \<or> crash_states m' ms f"

lemma mixed_same: "mixed m m' f \<Longrightarrow> m b = m' b \<Longrightarrow> f b = m b"
  unfolding mixed_def by metis

subsection \<open>The header after a commit\<close>

lemma selector_cases: "slot_selector w = 0 \<or> slot_selector w = 1"
  by (simp add: slot_selector_def)

lemma selector_flip: "slot_selector (w XOR flags_SelectBit) = 1 - slot_selector w"
proof -
  have "w AND 1 = (if bit w 0 then 1 else 0)" for w :: byte
    by (rule bit_word_eqI) (auto simp: bit_simps intro: gr0I)
  then show ?thesis by (simp add: slot_selector_def flags_SelectBit_def bit_simps)
qed

lemma selector_set: "slot_selector (w OR flags_SelectBit) = 1"
proof -
  have "bit ((w OR 1) AND 1) 0" by (simp add: bit_simps)
  then show ?thesis by (auto simp: slot_selector_def flags_SelectBit_def)
qed

lemma top_ref_cong: "(\<And>b. 8 * slot \<le> b \<Longrightarrow> b < 8 * slot + 8 \<Longrightarrow> m' b = m b) \<Longrightarrow> hd_top_ref m' slot = hd_top_ref m slot"
  unfolding hd_top_ref_def by (metis read_mem_cong)

text \<open>The bytes of the header that matter for opening the file.\<close>

definition selected_bytes :: "mem \<Rightarrow> nat set" where
  "selected_bytes m = {16..<20} \<union> {23} \<union> {8 * slot_selector (hd_flags m)..<8 * slot_selector (hd_flags m) + 8}"

lemma validate_cong:
  assumes "\<And>b. b \<in> selected_bytes m \<Longrightarrow> m' b = m b" "\<not> is_file_on_streaming_form m"
  shows "validate_header m' sz = validate_header m sz" "get_committed_top_ref m' = get_committed_top_ref m"
    "hd_flags m' = hd_flags m" "\<not> is_file_on_streaming_form m'"
proof -
  show f: "hd_flags m' = hd_flags m" using assms(1) by (simp add: selected_bytes_def hd_flags_def)
  have t: "hd_top_ref m' (slot_selector (hd_flags m)) = hd_top_ref m (slot_selector (hd_flags m))"
    using assms(1) by (intro top_ref_cong) (auto simp: selected_bytes_def)
  have n: "hd_mnemonic m' = hd_mnemonic m"
    unfolding hd_mnemonic_def using assms(1) by (intro read_mem_cong) (auto simp: selected_bytes_def)
  have str: "(slot_selector (hd_flags m) = 0 \<and> hd_top_ref m (slot_selector (hd_flags m)) = - 1) = False"
    using assms(2) by (simp add: is_file_on_streaming_form_def)
  show "\<not> is_file_on_streaming_form m'" "get_committed_top_ref m' = get_committed_top_ref m"
    using assms(2) by (simp_all add: is_file_on_streaming_form_def get_committed_top_ref_def f t)
  show "validate_header m' sz = validate_header m sz"
    using str unfolding validate_header_def f t n Let_def by (simp only: simp_thms if_False)
qed

lemma validate_committed:
  assumes "validate_header m sz = Inr t" "\<not> is_file_on_streaming_form m"
  shows "t = get_committed_top_ref m" "t mod 8 = 0" "t < sz" "24 \<le> sz" "sz mod 8 = 0" "hd_mnemonic m = mnemonic"
  using assms by (auto simp: validate_header_def Let_def get_committed_top_ref_def is_file_on_streaming_form_def sizeof_Header_def
      split: if_splits)

lemma group_commit_images:
  assumes "t < 2 ^ 64 - 1"
  obtains m1 m2 where "group_commit t ff m = [m1, m2]" "\<And>b. b \<in> selected_bytes m \<or> 24 \<le> b \<Longrightarrow> m1 b = m b" "m2 = m1(23 := hd_flags m XOR flags_SelectBit)"
    "get_committed_top_ref m2 = t" "\<not> is_file_on_streaming_form m2" "get_committed_file_format_version m2 = unat ff"
proof -
  define slot where "slot = slot_selector (hd_flags m XOR flags_SelectBit)"
  define m0 where "m0 = (if ff \<noteq> hd_file_format m slot then m(20 + slot := ff) else m)"
  define m1 where "m1 = write_mem m0 (8 * slot) (le_bytes 8 (of_nat t :: u64))"
  define m2 where "m2 = m1(23 := hd_flags m XOR flags_SelectBit)"
  have s: "slot = 1 - slot_selector (hd_flags m)" "slot = 0 \<or> slot = 1" unfolding slot_def using selector_flip selector_cases by blast+
  have 1: "group_commit t ff m = [m1, m2]"
    unfolding group_commit_def Let_def slot_def [symmetric] m0_def [symmetric] m1_def [symmetric] m2_def [symmetric] ..
  have 2: "m1 b = m b" if "b \<in> selected_bytes m \<or> 24 \<le> b" for b
  proof -
    have out: "b \<noteq> 20 + slot" "\<not> (8 * slot \<le> b \<and> b < 8 * slot + 8)"
      using that s(1) selector_cases [of "hd_flags m"] by (auto simp: selected_bytes_def)
    have "m1 b = m0 b" unfolding m1_def write_mem_def length_le_bytes by (rule if_not_P [OF out(2)])
    then show ?thesis using out(1) by (simp add: m0_def)
  qed
  have fl: "slot_selector (hd_flags m2) = slot" by (simp add: hd_flags_def m2_def slot_def)
  have "hd_top_ref m2 slot = hd_top_ref m1 slot" using s(2) by (intro top_ref_cong) (auto simp: m2_def)
  then have top: "hd_top_ref m2 slot = of_nat t" unfolding m1_def hd_top_ref_def by (simp add: read_write_mem_same le_word_le_bytes)
  have u: "unat (of_nat t :: u64) = t" using assms by (simp add: unat_of_nat take_bit_nat_eq_self_iff)
  have "of_nat t \<noteq> (- 1 :: u64)"
  proof
    assume "of_nat t = (- 1 :: u64)"
    then have "t = unat (- 1 :: u64)" using u by metis
    then show False using assms by (simp add: unsigned_minus_1_eq_mask mask_eq_exp_minus_1)
  qed
  then have 4: "get_committed_top_ref m2 = t" "\<not> is_file_on_streaming_form m2"
    using top u by (simp_all add: get_committed_top_ref_def is_file_on_streaming_form_def fl)
  have "hd_file_format m2 slot = ff" using s(2) by (auto simp: hd_file_format_def m2_def m1_def m0_def write_mem_def)
  then have "get_committed_file_format_version m2 = unat ff" by (simp add: get_committed_file_format_version_def fl)
  then show thesis using that [OF 1 2 _ 4] by (simp add: m2_def)
qed

text \<open>
  A crash while a commit publishes its top array: the header selects the old top array or the new one,
  and the new one only after everything that was written before the flip is in the file.
\<close>

lemma publish_crash:
  assumes f: "crash_states m (group_commit t ff m1) f" and t: "t < 2 ^ 64 - 1" and m: "\<not> is_file_on_streaming_form m"
    and same: "\<And>b. b < 24 \<Longrightarrow> m1 b = m b"
  shows "(\<forall>b\<in>selected_bytes m. f b = m b) \<and> (\<forall>b\<ge>24. f b = m b \<or> f b = m1 b) \<or>
    f = last (group_commit t ff m1)"
proof -
  obtain i1 i2 where I: "group_commit t ff m1 = [i1, i2]" "\<And>b. b \<in> selected_bytes m1 \<or> 24 \<le> b \<Longrightarrow> i1 b = m1 b"
      "i2 = i1(23 := hd_flags m1 XOR flags_SelectBit)"
    using group_commit_images [OF t, of ff m1] by metis
  have fl: "hd_flags m1 = hd_flags m" using same by (simp add: hd_flags_def)
  have sel: "selected_bytes m1 = selected_bytes m" by (simp add: selected_bytes_def fl)
  have lt: "b < 24" if "b \<in> selected_bytes m" for b using that selector_cases [of "hd_flags m"] by (auto simp: selected_bytes_def)
  have i1: "i1 b = m b" if "b \<in> selected_bytes m" for b using I(2) [of b] that sel same [OF lt [OF that]] by simp
  have "mixed m i1 f \<or> mixed i1 i2 f \<or> f = i2" using f by (simp add: I(1))
  moreover have ?thesis if x: "mixed m i1 f"
  proof -
    have "f b = m b \<or> f b = m1 b" if "24 \<le> b" for b using x I(2) [of b] that unfolding mixed_def by metis
    then show ?thesis using mixed_same [OF x] i1 by simp
  qed
  moreover have ?thesis if x: "mixed i1 i2 f"
  proof -
    have o: "f b = i1 b" if "b \<noteq> 23" for b using x that unfolding mixed_def I(3) by (metis fun_upd_other)
    show ?thesis
    proof (cases "f 23 = i1 23")
      case True
      then have "f b = i1 b" for b using o [of b] by (cases "b = 23") simp_all
      then have fi: "f = i1" by (rule ext)
      then show ?thesis using i1 I(2) by auto
    next
      case False
      then have "f 23 = i2 23" using x unfolding mixed_def by metis
      then have "f b = i2 b" for b using o [of b] by (cases "b = 23") (simp_all add: I(3))
      then have "f = i2" by (rule ext)
      then show ?thesis by (simp add: I(1))
    qed
  qed
  ultimately show ?thesis by (auto simp: I(1))
qed

end
