(* ===== verification/Low_Level_Commit.thy ===== *)
theory Low_Level_Commit
  imports Group_Writer Commit_Recovery File_Header Version_Manager
begin

text \<open>
  \<^verbatim>\<open>DB::low_level_commit\<close> of \<^verbatim>\<open>src/llbt/db.cpp\<close>, which puts the parts together: the versions that
  are no longer used are cleaned up, the version of the checkpoint is added to those that must not be
  overwritten, the arrays are written, the new snapshot is published as a record of the commit journal
  or in the file header, and it becomes the newest version. Metrics, logging and the notification
  of other threads are left out; a journal is used only when the file has one.
\<close>

subsection \<open>The code\<close>

datatype durability = FullDurability | MemOnly | Unsafe | Strict

text \<open>The header still refers to the snapshot of the checkpoint, so that it counts as reachable.\<close>

definition keep_checkpoint :: "commit_journal option \<Rightarrow> top_ref_map \<Rightarrow> top_ref_map" where
  "keep_checkpoint journal top_refs =
     (case journal of
        Some j \<Rightarrow> if m_checkpoint_top_ref j \<noteq> 0
                  then emplace (m_checkpoint_version j) (m_checkpoint_top_ref j, m_checkpoint_logical_size j) top_refs
                  else top_refs
      | None \<Rightarrow> top_refs)"

text \<open>
  How the new snapshot is published. The result is the journal after it, and the contents of the file at
  each synchronization on the way.
\<close>

definition publish_commit :: "durability \<Rightarrow> bool \<Rightarrow> byte \<Rightarrow> nat \<Rightarrow> nat \<Rightarrow> nat \<Rightarrow> commit_journal option \<Rightarrow> write_log \<Rightarrow>
    commit_journal option result \<times> mem list" where
  "publish_commit dur commit_to_disk file_format new_version new_top_ref logical_size journal lg =
     (let m = file_bytes lg;
          arrays = m_written_arrays lg;
          journal_commit = (journal \<noteq> None \<and> commit_to_disk \<and> dur \<noteq> MemOnly);
          journal_checkpoint = (journal_commit \<and> needs_checkpoint (the journal) (required_size (length arrays)) (m_bytes_written lg))
      in if journal_commit \<and> \<not> journal_checkpoint
         then case prepare_append False (the journal) (of_nat new_version) (of_nat new_top_ref) (of_nat logical_size) arrays m of
                (Inl e, m) \<Rightarrow> (Inl e, [m])
              | (Inr pending, m) \<Rightarrow> (Inr (Some (commit_append pending (the journal))), [m])
         else if dur \<noteq> MemOnly \<and> commit_to_disk
         then let ms = group_commit new_top_ref file_format m
              in if journal_checkpoint
                 then let (j, m) = reset_after_checkpoint new_top_ref new_version logical_size (the journal) (last ms)
                      in (Inr (Some j), ms @ [m])
                 else (Inr journal, ms)
         else (Inr journal, []))"

text \<open>
  The whole commit. The result has the journal, the index and the list of the versions, the contents of
  the file at the synchronizations, and the writer; the outer option is the loop that dates back free space.
\<close>

definition low_level_commit :: "file_env \<Rightarrow> durability \<Rightarrow> bool \<Rightarrow> byte \<Rightarrow> nat list \<Rightarrow> nat \<Rightarrow> evacuation_point \<Rightarrow> (byte list \<times> u32) list \<Rightarrow>
    (nat list \<Rightarrow> nat \<Rightarrow> nat) \<Rightarrow> (nat \<times> nat) list \<Rightarrow> nat \<Rightarrow> nat \<Rightarrow> commit_journal option \<times> version_list \<times> mem \<Rightarrow>
    (commit_journal option \<times> nat \<times> version_list \<times> mem list \<times> group_writer) result option" where
  "low_level_commit env dur commit_to_disk file_format m_top top_width ev arrays slots new_free_space new_version file_sz = (\<lambda>(journal, vl, m).
     let (oldest_live_version, top_refs, any_new_unreachables, vl) = cleanup_versions vl;
         top_refs = keep_checkpoint journal top_refs
     in map_option (\<lambda>r. bind_result r (\<lambda>(refs, reserve_pos, new_top_ref, end_ref, reserve_size, g, lg).
          let (published, images) = publish_commit dur commit_to_disk file_format new_version new_top_ref (m_logical_size g) journal lg
          in bind_result published (\<lambda>journal.
               let (index, vl) = add_version new_top_ref (m_logical_size g) new_version vl
               in Inr (journal, index, vl, images, g))))
        (commit_group env m_top top_width ev arrays slots new_free_space new_version top_refs any_new_unreachables file_sz (new_write_log m)))"

end
