(* ===== verification/Commit_Crash.thy ===== *)
theory Commit_Crash
  imports Commit_Run Crash_Safety Low_Level_Commit
begin

text \<open>
  A commit from the state of the file before it to its publication in the file header or in the
  journal, and what is in the file when the machine stops on the way. The header and the journal are the
  bytes that are written in place; all other writes of a commit go to bytes that no reachable snapshot uses.
\<close>

subsection \<open>Bytes that are written in place\<close>

definition on_disk_in :: "mem \<Rightarrow> nat set \<Rightarrow> snapshot \<Rightarrow> bool" where
  "on_disk_in f U s \<longleftrightarrow> sn_top s = 0 \<and> sn_free s = [] \<and> sn_size s = 24 \<or>
     top_node f U (sn_top s) (sn_size s) (sn_version s) (stored_lists s)"

lemma on_disk_in_cong: "on_disk_in f U s \<Longrightarrow> (\<And>b. b \<in> U \<Longrightarrow> f' b = f b) \<Longrightarrow> on_disk_in f' U s"
  unfolding on_disk_in_def using top_node_cong by blast

lemma on_disk_in_uses: "on_disk_in f U s \<Longrightarrow> U \<subseteq> sn_uses s \<Longrightarrow> on_disk f s"
  unfolding on_disk_in_def on_disk_def using top_node_mono by blast

lemma on_disk_read:
  assumes "on_disk_in f U s" "sn_top s \<noteq> 0"
  shows "load_free_list f (sn_top s) = Some (stored_lists s)" "get_version f (sn_top s) = sn_version s" "get_logical_file_size f (sn_top s) = sn_size s"
proof -
  have "top_node f U (sn_top s) (sn_size s) (sn_version s) (stored_lists s)" using assms by (simp add: on_disk_in_def)
  then show "load_free_list f (sn_top s) = Some (stored_lists s)" "get_version f (sn_top s) = sn_version s" "get_logical_file_size f (sn_top s) = sn_size s"
    by (cases "stored_lists s"; simp add: top_node_read)+
qed

text \<open>
  A database with a set of bytes that are written in place: they belong to the latest snapshot, and no
  snapshot has its top array or free lists in them.
\<close>

definition in_place :: "nat set \<Rightarrow> snapshot list \<Rightarrow> mem \<Rightarrow> bool" where
  "in_place K snaps f \<longleftrightarrow> db_ok snaps f \<and> {..<24} \<subseteq> K \<and> K \<subseteq> sn_uses (last snaps) \<and> (\<forall>s\<in>set snaps. on_disk_in f (sn_uses s - K) s)"

lemma in_place_change:
  assumes "in_place K snaps f" "\<And>s b. s \<in> set snaps \<Longrightarrow> b \<in> sn_uses s \<Longrightarrow> b \<notin> K \<Longrightarrow> f' b = f b"
  shows "in_place K snaps f'"
proof -
  have "on_disk_in f' (sn_uses s - K) s" if "s \<in> set snaps" for s
    by (rule on_disk_in_cong [of f "sn_uses s - K"]) (use assms that in \<open>auto simp: in_place_def\<close>)
  moreover from this have "on_disk f' s" if "s \<in> set snaps" for s using that by (intro on_disk_in_uses) auto
  ultimately show ?thesis using assms(1) by (simp add: in_place_def db_ok_def)
qed

lemma in_place_empty: "in_place {..<24} (fst (empty_db f)) f"
  using empty_db_ok [of f] by (simp add: in_place_def on_disk_in_def empty_db_def)

lemma in_place_forget:
  assumes "in_place K snaps f" "P (last snaps)"
  shows "in_place K (filter P snaps) f"
proof -
  have "snaps \<noteq> []" using assms(1) by (simp add: in_place_def db_ok_def snapshots_ok_def)
  then have "last (filter P snaps) = last snaps" using assms(2) by (metis append_butlast_last_id filter.simps filter_append last_snoc)
  then show ?thesis using assms forget_ok [of snaps f P] by (simp add: in_place_def)
qed

subsection \<open>The arrays of a commit\<close>

text \<open>\<^verbatim>\<open>Array::do_write_shallow\<close> passes the checksum of an array along with it.\<close>

definition checksums_ok :: "(byte list \<times> u32) list \<Rightarrow> bool" where
  "checksums_ok ds \<longleftrightarrow> (\<forall>(d, checksum)\<in>set ds. checksum = crc_compute (drop 4 d) \<and> length d < 2 ^ 32)"

text \<open>An array of the log is stored where it says: its bytes lie in \<open>U\<close> and have the right checksum.\<close>

definition array_stored :: "mem \<Rightarrow> nat set \<Rightarrow> written_array \<Rightarrow> bool" where
  "array_stored m U a \<longleftrightarrow> 8 \<le> unat (wa_size a) \<and> {unat (wa_ref a)..<unat (wa_ref a) + unat (wa_size a)} \<subseteq> U \<and>
     (le_word (read_mem m (unat (wa_ref a)) 4) :: u32) = wa_checksum a \<and>
     crc_compute (read_mem m (unat (wa_ref a) + 4) (unat (wa_size a) - 4)) = wa_checksum a"

lemma array_stored_cong:
  assumes a: "array_stored m U a" and same: "\<And>b. b \<in> U \<Longrightarrow> m' b = m b"
  shows "array_stored m' U a"
proof -
  have n: "8 \<le> unat (wa_size a)" and sub: "{unat (wa_ref a)..<unat (wa_ref a) + unat (wa_size a)} \<subseteq> U" using a by (simp_all add: array_stored_def)
  have "read_mem m' (unat (wa_ref a)) 4 = read_mem m (unat (wa_ref a)) 4"
    "read_mem m' (unat (wa_ref a) + 4) (unat (wa_size a) - 4) = read_mem m (unat (wa_ref a) + 4) (unat (wa_size a) - 4)"
    by (intro read_mem_cong same subsetD [OF sub]; use n in simp)+
  then show ?thesis using a by (simp add: array_stored_def)
qed

lemma array_stored_mono: "array_stored m U a \<Longrightarrow> U \<subseteq> U' \<Longrightarrow> array_stored m U' a"
  by (auto simp: array_stored_def)

lemma array_stored_image:
  assumes img: "read_mem m pos (length d) = le_bytes 4 c @ drop 4 d" and d: "8 \<le> length d" "length d < 2 ^ 32" "pos < 2 ^ 64" and c: "c = crc_compute (drop 4 d)"
  shows "array_stored m {pos..<pos + length d} \<lparr>wa_ref = of_nat pos, wa_size = of_nat (length d), wa_checksum = c\<rparr>"
proof -
  have "take 4 (read_mem m pos (length d)) = le_bytes 4 c" "drop 4 (read_mem m pos (length d)) = drop 4 d" by (simp_all add: img)
  then have "read_mem m pos 4 = le_bytes 4 c" "read_mem m (pos + 4) (length d - 4) = drop 4 d" using d(1) by (simp_all add: take_read_mem drop_read_mem)
  then show ?thesis using d c
    by (simp add: array_stored_def unat_of_nat take_bit_nat_eq_self_iff le_word_le_bytes)
qed

lemma write_array_log:
  assumes "write_array env d c (g, lg) = Inr (pos, g', lg')"
  shows "m_written_arrays lg' = m_written_arrays lg @ [\<lparr>wa_ref = of_nat pos, wa_size = of_nat (length d), wa_checksum = c\<rparr>]"
  using assms by (auto simp: write_array_def bind_result_eq_Inr Let_def)

lemma write_arrays_log:
  assumes "write_arrays env ds (g, lg) = Inr (poss, g', lg')" "writer_ok g" "env_ok env" "nodes_ok ds" "checksums_ok ds" "\<And>b. 1 \<le> cover_blocks (array_blocks poss ds) b \<Longrightarrow> b < 2 ^ 64"
    and "\<And>b. cover_blocks (array_blocks poss ds) b \<le> 1" "\<forall>a\<in>set (m_written_arrays lg). array_stored (file_bytes lg) U a"
    "\<And>b. 1 \<le> cover_blocks (array_blocks poss ds) b \<Longrightarrow> b \<notin> U"
  shows "\<forall>a\<in>set (m_written_arrays lg'). array_stored (file_bytes lg') (U \<union> {b. 1 \<le> cover_blocks (array_blocks poss ds) b}) a"
  using assms
proof (induction ds arbitrary: g lg poss U)
  case Nil
  then show ?case by (simp add: array_blocks_def)
next
  case (Cons x ds)
  obtain d c where x: "x = (d, c)" by (cases x)
  have d: "0 < length d" "length d mod 8 = 0" "nodes_ok ds" "c = crc_compute (drop 4 d)" "length d < 2 ^ 32" "checksums_ok ds"
    using Cons.prems(4,5) x by (simp_all add: nodes_ok_def checksums_ok_def)
  have d8: "8 \<le> length d" using d(1,2) by (intro dvd_imp_le) (simp_all add: mod_eq_0_iff_dvd)
  obtain pos g1 lg1 poss' where w: "write_array env d c (g, lg) = Inr (pos, g1, lg1)" "write_arrays env ds (g1, lg1) = Inr (poss', g', lg')"
      "poss = pos # poss'"
    using Cons.prems(1) x by (auto simp: bind_result_eq_Inr)
  have d4: "4 \<le> length d" using d8 by simp
  note W = write_array_file [OF w(1) d4]
  have one: "write_arrays env [x] (g, lg) = Inr ([pos], g1, lg1)" using w(1) x by simp
  have ok1: "writer_ok g1" using write_arrays_spec [OF one Cons.prems(2,3)] d(1,2) x by (simp add: nodes_ok_def)
  have blk: "array_blocks poss (x # ds) = (pos, length d) # array_blocks poss' ds" by (simp add: array_blocks_def w(3) x)
  have pos: "pos < 2 ^ 64" using d(1) by (intro Cons.prems(6)) (simp add: blk in_block_def)
  have small: "b < 2 ^ 64" if "1 \<le> cover_blocks (array_blocks poss' ds) b" for b using that by (intro Cons.prems(6)) (simp add: blk)
  let ?U = "U \<union> {pos..<pos + length d}"
  have "\<forall>a\<in>set (m_written_arrays lg1). array_stored (file_bytes lg1) ?U a"
  proof
    fix a assume "a \<in> set (m_written_arrays lg1)"
    then consider "a \<in> set (m_written_arrays lg)" | "a = \<lparr>wa_ref = of_nat pos, wa_size = of_nat (length d), wa_checksum = c\<rparr>"
      unfolding write_array_log [OF w(1)] by auto
    then show "array_stored (file_bytes lg1) ?U a"
    proof cases
      case 1
      have "file_bytes lg1 b = file_bytes lg b" if "b \<in> U" for b
      proof (rule W(2), rule notI)
        assume "in_block pos (length d) b"
        then show False using Cons.prems(9) [of b] that by (simp add: blk)
      qed
      then have "array_stored (file_bytes lg1) U a" by (rule array_stored_cong [OF bspec [OF Cons.prems(8) 1]])
      then show ?thesis by (rule array_stored_mono) simp
    next
      case 2
      then show ?thesis using array_stored_mono [OF array_stored_image [OF W(3) d8 d(5) pos d(4)], of ?U] by simp
    qed
  qed
  moreover have "b \<notin> ?U" if b: "1 \<le> cover_blocks (array_blocks poss' ds) b" for b
    using Cons.prems(7) [of b] Cons.prems(9) [of b] b unfolding blk by (auto simp: in_block_def)
  moreover have "cover_blocks (array_blocks poss' ds) b \<le> 1" for b using Cons.prems(7) [of b] by (simp add: blk)
  ultimately have "\<forall>a\<in>set (m_written_arrays lg'). array_stored (file_bytes lg') (?U \<union> {b. 1 \<le> cover_blocks (array_blocks poss' ds) b}) a"
    using Cons.IH [OF w(2) ok1 Cons.prems(3) d(3,6) small] by blast
  moreover have "?U \<union> {b. 1 \<le> cover_blocks (array_blocks poss' ds) b} = U \<union> {b. 1 \<le> cover_blocks (array_blocks poss (x # ds)) b}"
    unfolding blk by (auto simp: in_block_def)
  ultimately show ?case by simp
qed

lemma write_array_at_log:
  assumes d: "8 \<le> length d" "length d < 2 ^ 32" "ref < 2 ^ 64"
    and old: "\<forall>a\<in>set (m_written_arrays lg). array_stored (file_bytes lg) U a" and out: "U \<inter> {ref..<ref + length d} = {}"
  shows "\<forall>a\<in>set (m_written_arrays (write_array_at ref d lg)). array_stored (file_bytes (write_array_at ref d lg)) (U \<union> {ref..<ref + length d}) a"
proof
  let ?lg = "write_array_at ref d lg"
  have d4: "4 \<le> length d" using d(1) by simp
  have img: "read_mem (file_bytes ?lg) ref (length d) = le_bytes 4 (crc_compute (drop 4 d)) @ drop 4 d"
    using d4 by (intro nth_equalityI) (auto simp: write_array_at_def Let_def write_mem_def nth_append)
  fix a assume "a \<in> set (m_written_arrays ?lg)"
  then consider "a \<in> set (m_written_arrays lg)" | "a = \<lparr>wa_ref = of_nat ref, wa_size = of_nat (length d), wa_checksum = crc_compute (drop 4 d)\<rparr>"
    by (auto simp: write_array_at_def Let_def)
  then show "array_stored (file_bytes ?lg) (U \<union> {ref..<ref + length d}) a"
  proof cases
    case 1
    have "file_bytes ?lg b = file_bytes lg b" if "b \<in> U" for b
    proof (rule write_array_at_file(2) [OF d4], rule notI)
      assume "in_block ref (length d) b"
      then show False using out that by (auto simp: in_block_def)
    qed
    then have "array_stored (file_bytes ?lg) U a" by (rule array_stored_cong [OF bspec [OF old 1]])
    then show ?thesis by (rule array_stored_mono) simp
  next
    case 2
    then show ?thesis using array_stored_mono [OF array_stored_image [OF img d refl], of "U \<union> {ref..<ref + length d}"] by simp
  qed
qed

lemma write_four_log:
  assumes r: "r1 = r0 + length d0" "r2 = r1 + length d1" "r3 = r2 + length d2" "r4 = r3 + length d3"
    and d: "8 \<le> length d0" "8 \<le> length d1" "8 \<le> length d2" "8 \<le> length d3" and le: "r4 \<le> r0 + 2 ^ 25" "r4 < 2 ^ 64"
    and old: "\<forall>a\<in>set (m_written_arrays lg). array_stored (file_bytes lg) U a" and out: "U \<inter> {r0..<r4} = {}"
    and lg': "lg' = write_array_at r3 d3 (write_array_at r2 d2 (write_array_at r1 d1 (write_array_at r0 d0 lg)))"
  shows "\<forall>a\<in>set (m_written_arrays lg'). array_stored (file_bytes lg') (U \<union> {r0..<r4}) a"
proof -
  have l: "length d0 < 2 ^ 32" "length d1 < 2 ^ 32" "length d2 < 2 ^ 32" "length d3 < 2 ^ 32" "r0 < 2 ^ 64" "r1 < 2 ^ 64" "r2 < 2 ^ 64" "r3 < 2 ^ 64"
    using r le by simp_all
  have o: "U \<inter> {r0..<r0 + length d0} = {}" "(U \<union> {r0..<r1}) \<inter> {r1..<r1 + length d1} = {}" "(U \<union> {r0..<r2}) \<inter> {r2..<r2 + length d2} = {}"
    "(U \<union> {r0..<r3}) \<inter> {r3..<r3 + length d3} = {}" using out r by auto
  have u: "U \<union> {r0..<r0 + length d0} = U \<union> {r0..<r1}" "U \<union> {r0..<r1} \<union> {r1..<r1 + length d1} = U \<union> {r0..<r2}"
    "U \<union> {r0..<r2} \<union> {r2..<r2 + length d2} = U \<union> {r0..<r3}" "U \<union> {r0..<r3} \<union> {r3..<r3 + length d3} = U \<union> {r0..<r4}" using r by auto
  note 1 = write_array_at_log [OF d(1) l(1,5) old o(1), unfolded u]
  note 2 = write_array_at_log [OF d(2) l(2,6) 1 o(2), unfolded u]
  note 3 = write_array_at_log [OF d(3) l(3,7) 2 o(3), unfolded u]
  show ?thesis unfolding lg' by (rule write_array_at_log [OF d(4) l(4,8) 3 o(4), unfolded u])
qed

lemma lists_log:
  assumes ready: "lists_ready env nf g" and run: "write_freelists env m_top w nf (g, lg) = Inr (rp, tr, er, rs, g', lg')"
    and small: "lists_small m_top w nf g g'"
    and old: "\<forall>a\<in>set (m_written_arrays lg). array_stored (file_bytes lg) U a" and out: "U \<inter> {rp..<er} = {}"
  shows "\<forall>a\<in>set (m_written_arrays lg'). array_stored (file_bytes lg') (U \<union> {rp..<er}) a"
proof -
  define needed where "needed = max_free_space_needed (length m_top) nf g"
  obtain g3 ndx g4 tops where steps: "list_steps env m_top w nf g rp tr er rs g' needed g3 ndx g4 tops"
      and slots: "new_slots env m_top rp rs needed g' g4 tops" and log: "lg' = store_lists rp needed tops (max w (list_width tops)) g4 g' lg"
    unfolding needed_def by (rule write_freelists_steps [OF ready run])
  have env: "env_ok env" using ready by (simp add: lists_ready_def)
  note F = list_steps_fit [OF env steps slots needed_def small]
  from steps have S: "lists_ready env nf g3" "(rs, rp) \<in> set (m_size_map g3)" "recreate_freelist rp nf g3 = Inr (ndx, g4)" "tr = new_top_ref rp needed g4"
    "er = tr + calc_byte_size wtype_Bits (length tops) (max w (list_width tops))"
    "m_free_positions g' = (m_free_positions g4)[ndx := er]" "m_free_lengths g' = (m_free_lengths g4)[ndx := rp + rs - er]" "m_free_versions g' = m_free_versions g4"
    by (simp_all add: list_steps_def)
  note R = recreate_ready [OF S(1,3,2)]
  have len: "length (m_free_lengths g4) = length (m_free_positions g4)" "length (m_free_versions g4) = length (m_free_positions g4)" using R(5-7) by simp_all
  have b: "m_logical_size g' < 2 ^ 60" "needed + 8 \<le> 2 ^ 25" using small by (simp_all add: lists_small_def needed_def)
  have e1: "er \<le> rp + 2 ^ 25" using F(1) b(2) by simp
  have e2: "er < 2 ^ 64" using F(1,6) b(1) by simp
  show ?thesis
    by (rule write_four_log [OF _ _ _ _ _ _ _ _ e1 e2 old out])
      (use S(4-8) len calc_byte_size_ge log in \<open>simp_all add: store_lists_def new_top_ref_def versions_ref_def sizes_ref_def\<close>)
qed

lemma write_trees_log:
  assumes db: "db_ok snaps f" and env: "env_ok env" and nodes: "nodes_ok arrays" and sums: "checksums_ok arrays"
    and fresh: "fresh_writer g0" and g0: "free_list g0 = sn_free (last snaps)" "m_logical_size g0 = sn_size (last snaps)"
      "m_oldest_reachable_version g0 = sn_version (hd snaps)"
    and run: "write_trees env arrays tp (g0, lg) = Some (Inr (refs, g, lg'))" and lg: "m_written_arrays lg = []"
    and small: "\<And>b. 1 \<le> cover_blocks (array_blocks refs arrays) b \<Longrightarrow> b < 2 ^ 64"
  shows "\<forall>a\<in>set (m_written_arrays lg'). array_stored (file_bytes lg') {b. 1 \<le> cover_blocks (array_blocks refs arrays) b} a"
proof -
  let ?t = "last snaps" and ?old = "sn_version (hd snaps)"
  have t: "snapshot_ok snaps ?t" using db by (auto simp: db_ok_def snapshots_ok_def)
  obtain g1 where R: "read_in_freelist g0 = Inr g1" "writer_ok g1" "m_logical_size g1 = sn_size ?t"
     "\<And>b. cover_free g1 b = cover_entries (filter (\<lambda>e. \<not> ?old < released_at_version e) (sn_free ?t)) b"
    using read_in_freelist_spec [OF fresh] unfolding g0 by blast
  obtain g2 where W: "write_arrays env arrays (g1, lg) = Inr (refs, g2, lg')"
    using run R(1) by (auto simp: write_trees_def Let_def split: sum.splits option.splits if_splits)
  note S = write_arrays_spec [OF W R(2) env nodes]
  have one: "cover_blocks (array_blocks refs arrays) b \<le> 1" for b
  proof -
    have "cover_entries (filter (\<lambda>e. \<not> ?old < released_at_version e) (sn_free ?t)) b \<le> cover_entries (sn_free ?t) b"
      using cover_entries_filter_split [of "sn_free ?t" b "\<lambda>e. \<not> ?old < released_at_version e"] by simp
    moreover have "cover_entries (sn_free ?t) b + of_bool (sn_size ?t \<le> b) \<le> 1"
    proof (cases "sn_size ?t \<le> b")
      case True
      then have "cover_entries (sn_free ?t) b = 0" using t by (intro cover_entries_out) (simp_all add: snapshot_ok_def)
      then show ?thesis by simp
    next
      case False
      then show ?thesis using apart_cover [of "sn_free ?t" b] t by (simp add: snapshot_ok_def)
    qed
    moreover have "cover_free g2 b + cover_blocks (array_blocks refs arrays) b = cover_free g1 b + grown g1 g2 b" using S by blast
    moreover have "of_bool (sn_size ?t \<le> b \<and> b < m_logical_size g2) \<le> (of_bool (sn_size ?t \<le> b) :: nat)" by simp
    ultimately show ?thesis unfolding R(3) R(4) [of b] by linarith
  qed
  show ?thesis using write_arrays_log [OF W R(2) env nodes sums small one, of "{}"] lg by simp
qed

subsection \<open>A commit\<close>

text \<open>
  The new snapshot \<open>t\<close> and the log of the writes of a commit by a transaction that has freed \<open>nf\<close>.
\<close>

definition committed :: "file_env \<Rightarrow> nat set \<Rightarrow> snapshot list \<Rightarrow> bool \<Rightarrow> top_ref_map \<Rightarrow> write_log \<Rightarrow> snapshot \<Rightarrow> write_log \<Rightarrow> bool" where
  "committed env K snaps un tops lg t lg' \<longleftrightarrow> (\<exists>m_top ev arrays nf v w slots fsz refs rp tr er rs g' m_top' g0 g lg1.
     transaction_top (file_bytes lg) (last snaps) m_top \<and> evacuation_ok ev \<and> nodes_ok arrays \<and> freed_ok (last snaps) nf \<and>
     (\<forall>b\<in>K. cover_blocks nf b = 0) \<and> sn_version (last snaps) < v \<and> checksums_ok arrays \<and>
     commit_group env m_top w ev arrays slots nf v tops un fsz lg = Some (Inr (refs, rp, tr, er, rs, g', lg')) \<and>
     commit_writer (file_bytes lg) m_top ev v tops un fsz = Inr (m_top', g0) \<and>
     write_trees env arrays (\<lambda>refs. set_refs (slots refs) m_top') (g0, lg) = Some (Inr (refs, g, lg1)) \<and>
     lists_small (set_refs (slots refs) m_top') w nf g g' \<and>
     t = new_snapshot snaps nf (array_blocks refs arrays) v rp tr er g')"

lemma committed_keeps:
  assumes c: "committed env K snaps un tops lg t lg'" and ok: "in_place K snaps (file_bytes lg)" and env: "env_ok env" and rep: "reported snaps un tops"
  shows "in_place K (snaps @ [t]) (file_bytes lg')" "\<And>s b. s \<in> set snaps \<Longrightarrow> b \<in> sn_uses s \<Longrightarrow> file_bytes lg' b = file_bytes lg b"
    "sn_top t \<noteq> 0" "sn_version (last snaps) < sn_version t" "sn_top t < sn_size t" "sn_top t mod 8 = 0"
    "commit_step env (snaps, file_bytes lg) (snaps @ [t], file_bytes lg')"
    "m_written_arrays lg = [] \<Longrightarrow> a \<in> set (m_written_arrays lg') \<Longrightarrow> array_stored (file_bytes lg') (sn_uses t - K) a"
proof -
  let ?f = "file_bytes lg"
  obtain m_top ev arrays nf v w slots fsz refs rp tr er rs g' m_top' g0 g lg1 where
    C: "transaction_top ?f (last snaps) m_top" "evacuation_ok ev" "nodes_ok arrays" "freed_ok (last snaps) nf" "\<forall>b\<in>K. cover_blocks nf b = 0"
      "sn_version (last snaps) < v" "checksums_ok arrays"
      "commit_group env m_top w ev arrays slots nf v tops un fsz lg = Some (Inr (refs, rp, tr, er, rs, g', lg'))"
      "commit_writer ?f m_top ev v tops un fsz = Inr (m_top', g0)"
      "write_trees env arrays (\<lambda>refs. set_refs (slots refs) m_top') (g0, lg) = Some (Inr (refs, g, lg1))"
      "lists_small (set_refs (slots refs) m_top') w nf g g'" and t: "t = new_snapshot snaps nf (array_blocks refs arrays) v rp tr er g'"
    using c unfolding committed_def by (elim exE conjE) (rule that, assumption+)
  have db: "db_ok snaps ?f" and K: "{..<24} \<subseteq> K" "K \<subseteq> sn_uses (last snaps)" using ok by (simp_all add: in_place_def)
  have last: "last snaps \<in> set snaps" using db by (simp add: db_ok_def snapshots_ok_def)
  show step: "commit_step env (snaps, ?f) (snaps @ [t], file_bytes lg')" unfolding t by (rule commit [OF C(1-4,6) refl rep C(8-11)])
  note P = commit_phases [OF db env C(1-4) refl rep]
  have td: "trees_done env snaps nf v ?f (array_blocks refs arrays) g lg1" by (rule P(2) [OF C(9,10)])
  have wf: "write_freelists env (set_refs (slots refs) m_top') w nf (g, lg1) = Inr (rp, tr, er, rs, g', lg')" by (rule P(3) [OF C(9,10,8)])
  note N = commit_keeps [OF db td C(6,4) wf C(11), folded t]
  show same: "file_bytes lg' b = ?f b" if "s \<in> set snaps" "b \<in> sn_uses s" for s b using N(1) that by blast
  have T: "lists_ready env nf g" "m_current_version g = v" "\<And>b. 1 \<le> cover_free g b \<or> m_logical_size g \<le> b \<Longrightarrow> unused_byte snaps b"
    using td by (auto simp: trees_done_def)
  have v0: "0 < m_current_version g" using C(6) T(2) by simp
  note D = lists_stored [OF T(1) wf C(11) v0]
  have fit: "er < rp + rs" using lists_fit(2) [OF T(1) wf C(11)] by simp
  note S = write_freelists_spec [OF T(1) wf fit]
  have "b \<notin> K" if "b \<in> {rp..<er}" for b
  proof -
    have "in_block rp rs b" using that fit by (simp add: in_block_def)
    then have "unused_byte snaps b" using S(14) T(3) by blast
    then show ?thesis using K(2) last by (auto simp: unused_byte_def)
  qed
  then have sub: "{rp..<er} \<subseteq> sn_uses t - K" by (auto simp: t new_snapshot_def)
  have "on_disk_in (file_bytes lg') (sn_uses t - K) t"
    unfolding on_disk_in_def using top_node_mono [OF D(1) sub] T(2) S(3-5) by (auto simp: t new_snapshot_def stored_lists_def)
  moreover have "on_disk_in (file_bytes lg') (sn_uses s - K) s" if "s \<in> set snaps" for s
    by (rule on_disk_in_cong [of ?f]) (use ok that same in \<open>auto simp: in_place_def\<close>)
  moreover have "K \<subseteq> sn_uses t" using K(2) C(5) by (auto simp: t new_snapshot_def)
  ultimately show "in_place K (snaps @ [t]) (file_bytes lg')" using N(2) K(1) by (auto simp: in_place_def)
  show "array_stored (file_bytes lg') (sn_uses t - K) a" if lg: "m_written_arrays lg = []" and a: "a \<in> set (m_written_arrays lg')" for a
  proof -
    let ?bl = "array_blocks refs arrays"
    obtain m1 g1 where W: "commit_writer ?f m_top ev v tops un fsz = Inr (m1, g1)" "fresh_writer g1"
      "free_list g1 = sn_free (last snaps)" "m_logical_size g1 = sn_size (last snaps)" "m_oldest_reachable_version g1 = sn_version (hd snaps)"
      by (rule writer_of_snapshot [OF db C(1,2) rep])
    have g1: "g1 = g0" using W(1) C(9) by simp
    have bl: "{b. 1 \<le> cover_blocks ?bl b} \<subseteq> sn_uses t" by (auto simp: t new_snapshot_def)
    have un: "unused_byte snaps b" if "1 \<le> cover_blocks ?bl b" for b using td that unfolding trees_done_def by blast
    have "b < 2 ^ 64" if "1 \<le> cover_blocks ?bl b" for b using bl that N(2) by (fastforce simp: db_ok_def snapshots_ok_def snapshot_ok_def)
    from write_trees_log [OF db env C(3,7) W(2-5) [unfolded g1] C(10) lg this]
    have L: "\<forall>a\<in>set (m_written_arrays lg1). array_stored (file_bytes lg1) {b. 1 \<le> cover_blocks ?bl b} a" by blast
    have dis: "{b. 1 \<le> cover_blocks ?bl b} \<inter> {rp..<er} = {}"
    proof -
      have "\<not> 1 \<le> cover_blocks ?bl b" if "b \<in> {rp..<er}" for b
        using S(14) [of b] that fit td unfolding trees_done_def in_block_def
        by (metis One_nat_def Suc_n_not_le_n atLeastLessThan_iff le_trans less_imp_le less_le_trans not_le)
      then show ?thesis by blast
    qed
    have "b \<notin> K" if "1 \<le> cover_blocks ?bl b" for b using un [OF that] K(2) last by (auto simp: unused_byte_def)
    then have "{b. 1 \<le> cover_blocks ?bl b} \<union> {rp..<er} \<subseteq> sn_uses t - K" using bl sub by blast
    then show ?thesis using lists_log [OF T(1) wf C(11) L dis] a array_stored_mono by blast
  qed
  show "sn_version (last snaps) < sn_version t" using C(6) by (simp add: t new_snapshot_def)
  have top: "sn_top t = tr" "sn_size t = m_logical_size g'" by (simp_all add: t new_snapshot_def)
  show "sn_top t \<noteq> 0" using D(1) by (simp add: top top_node_def)
  show "sn_top t < sn_size t" using S(6,9) fit by (simp add: top chunk_ok_def)
  obtain g3 ndx g4 tops where "list_steps env (set_refs (slots refs) m_top') w nf g rp tr er rs g'
      (max_free_space_needed (length (set_refs (slots refs) m_top')) nf g) g3 ndx g4 tops"
    by (rule write_freelists_steps [OF T(1) wf])
  then have "er = tr + calc_byte_size wtype_Bits (length tops) (max w (list_width tops))" by (simp add: list_steps_def)
  then have "er mod 8 = tr mod 8" using calc_byte_size_mod [of wtype_Bits "length tops" "max w (list_width tops)"] by (metis add.right_neutral mod_add_right_eq)
  then show "sn_top t mod 8 = 0" using S(7) by (simp add: top)
qed

end
