(* ===== verification/Atomic_Commit.thy ===== *)
theory Atomic_Commit
  imports Commit_Crash First_Commit
begin

text \<open>
  Commits that are published in the file header. Whatever part of the writes of a commit has reached the
  file when the machine stops, the file opens with the snapshot before the commit or with the new one,
  and all the bytes of that snapshot are in the file.
\<close>

subsection \<open>The snapshot that the header selects\<close>







subsection \<open>Commits and crashes\<close>


inductive header_step :: "file_env \<Rightarrow> snapshot list \<times> mem \<Rightarrow> snapshot list \<times> mem \<Rightarrow> bool" for env where
  forget: "snaps \<noteq> [] \<Longrightarrow> P (last snaps) \<Longrightarrow> header_step env (snaps, f) (filter P snaps, f)"
| publish: "committed env {..<24} snaps un tops (new_write_log f) t lg \<Longrightarrow> reported snaps un tops \<Longrightarrow> dur \<noteq> MemOnly \<Longrightarrow>
    publish_commit dur True ff (sn_version t) (sn_top t) (sn_size t) None lg = (Inr None, images) \<Longrightarrow>
    header_step env (snaps, f) (snaps @ [t], last images)"

inductive_cases header_stepE: "header_step env (snaps, f) s"










subsection \<open>The guarantee\<close>



end
