(* ===== verification/First_Journal_Commit.thy ===== *)
theory First_Journal_Commit
  imports Commit_Crash First_Commit
begin

text \<open>
  The first commit after a checkpoint into a file with a commit journal, evaluated. The checkpoint has version 3
  and an empty free list; its file is extended by one megabyte behind the journal.
\<close>

subsection \<open>The checkpoint\<close>

definition jdemo_size :: nat where
  "jdemo_size = 0x5010000"

definition jdemo_top :: "nat list" where
  "jdemo_top = [0, 0, 2 * 0x5010000 + 1, 160, 168, 176, 7, 0, 256, 0]"

definition jdemo_file :: mem where
  "jdemo_file = write_mem (write_mem (write_mem (write_mem (write_mem (write_mem (\<lambda>_. 0)
     64 (node64 jdemo_top)) 160 (node64 [])) 168 (node64 [])) 176 (node64 [])) 256 (node64 [0, 0, 0, 512])) 512 (node64 sample_chunks)"

definition jdemo_journal :: commit_journal where
  "jdemo_journal = (sample_journal 64 3)\<lparr>m_checkpoint_logical_size := jdemo_size\<rparr>"

definition jdemo_snapshot :: snapshot where
  "jdemo_snapshot = \<lparr>sn_version = 3, sn_top = 64, sn_size = jdemo_size, sn_uses = {..<jdemo_size}, sn_free = []\<rparr>"

lemma jdemo_nodes:
  "read_mem jdemo_file 64 (8 + 8 * length jdemo_top) = node64 jdemo_top"
  "read_mem jdemo_file 160 (8 + 8 * length ([] :: nat list)) = node64 []"
  "read_mem jdemo_file 168 (8 + 8 * length ([] :: nat list)) = node64 []"
  "read_mem jdemo_file 176 (8 + 8 * length ([] :: nat list)) = node64 []"
  "read_mem jdemo_file 256 (8 + 8 * length [0, 0, 0, 512 :: nat]) = node64 [0, 0, 0, 512]"
  "read_mem jdemo_file 512 (8 + 8 * length sample_chunks) = node64 sample_chunks"
  by (simp_all add: jdemo_file_def jdemo_top_def mem_simps)

lemma length_jdemo_top [simp]: "length jdemo_top = 10"
  by (simp add: jdemo_top_def)

lemma jdemo_span:
  "node_span jdemo_file 64 = {64..<152}" "node_span jdemo_file 160 = {160..<168}" "node_span jdemo_file 168 = {168..<176}"
  "node_span jdemo_file 176 = {176..<184}" "node_span jdemo_file 256 = {256..<296}" "node_span jdemo_file 512 = {512..<648}"
  using node64_header [OF jdemo_nodes(1)] node64_header [OF jdemo_nodes(2)] node64_header [OF jdemo_nodes(3)] node64_header [OF jdemo_nodes(4)]
    node64_header [OF jdemo_nodes(5)] node64_header [OF jdemo_nodes(6)]
  by (simp_all add: node_span_def calc_byte_len_def header_size_def)

lemma node64_list:
  assumes "read_mem m ref (8 + 8 * length vs) = node64 vs" "length vs < 256" "\<forall>v\<in>set vs. v < 2 ^ 63"
  shows "holds_list m ref vs"
proof -
  have "sint (of_nat (vs ! i) :: u64) = int (vs ! i)" if "i < length vs" for i
  proof -
    have "vs ! i < 2 ^ 63" using assms(3) that by simp
    then show ?thesis by (simp add: signed_of_nat signed_take_bit_int_eq_self)
  qed
  then show ?thesis using node64_header [OF assms(1,2)] node64_get [OF assms(1,2)] by (simp add: holds_list_def)
qed

lemma jdemo_lists:
  "holds_list jdemo_file 64 jdemo_top" "holds_list jdemo_file 160 []" "holds_list jdemo_file 168 []" "holds_list jdemo_file 176 []"
  by (rule node64_list [OF jdemo_nodes(1)] node64_list [OF jdemo_nodes(2)] node64_list [OF jdemo_nodes(3)] node64_list [OF jdemo_nodes(4)]; simp add: jdemo_top_def)+

lemma jdemo_jaddr:
  assumes "off < capacity"
  shows "0x10000 \<le> jaddr sample_chunks off" "jaddr sample_chunks off < jdemo_size"
proof -
  show "0x10000 \<le> jaddr sample_chunks off" by (rule sample_jaddr [OF assms])
  have "off div chunk_size < 16" using off_div_lt [OF assms] by (simp add: chunk_count_def)
  moreover have "off mod chunk_size < chunk_size" by (simp add: chunk_size_def)
  ultimately show "jaddr sample_chunks off < jdemo_size"
    by (simp add: jaddr_def sample_chunks_nth jdemo_size_def chunk_size_def header_size_def)
qed

lemma jdemo_top_node: "top_node jdemo_file ({24..<0x10000}) 64 jdemo_size 3 ([], [], [])"
proof -
  have "nat (make_tagged jdemo_size) = jdemo_top ! s_file_size_ndx" "nat (make_tagged 3) = jdemo_top ! s_version_ndx"
    using make_tagged_eq [of jdemo_size] make_tagged_eq [of 3] by (simp_all add: jdemo_size_def jdemo_top_def s_file_size_ndx_def s_version_ndx_def)
  then show ?thesis
    unfolding top_node_def using jdemo_lists jdemo_span
    by (intro conjI exI [of _ jdemo_top])
      (simp_all add: list_node_def jdemo_size_def s_version_ndx_def, auto simp: jdemo_top_def s_free_pos_ndx_def s_free_size_ndx_def s_free_version_ndx_def)
qed

lemma jdemo_uses: "{..<24} \<union> jaddr sample_chunks ` {..<capacity} \<subseteq> {..<jdemo_size}" "{24..<0x10000} \<subseteq> {..<jdemo_size} - ({..<24} \<union> jaddr sample_chunks ` {..<capacity})"
proof -
  show "{..<24} \<union> jaddr sample_chunks ` {..<capacity} \<subseteq> {..<jdemo_size}" using jdemo_jaddr(2) by (auto simp: jdemo_size_def)
  show "{24..<0x10000} \<subseteq> {..<jdemo_size} - ({..<24} \<union> jaddr sample_chunks ` {..<capacity})" using jdemo_jaddr(1) by (fastforce simp: jdemo_size_def)
qed

lemma jdemo_in_place: "in_place ({..<24} \<union> jaddr sample_chunks ` {..<capacity}) [jdemo_snapshot] jdemo_file"
proof -
  have d: "on_disk_in jdemo_file (sn_uses jdemo_snapshot - ({..<24} \<union> jaddr sample_chunks ` {..<capacity})) jdemo_snapshot"
    using top_node_mono [OF jdemo_top_node jdemo_uses(2)] by (simp add: on_disk_in_def jdemo_snapshot_def stored_lists_def)
  moreover have "snapshots_ok [jdemo_snapshot]"
    by (simp add: snapshots_ok_def snapshot_ok_def jdemo_snapshot_def entries_ok_def apart_def jdemo_size_def)
  moreover have "on_disk jdemo_file jdemo_snapshot" by (rule on_disk_in_uses [OF d]) blast
  ultimately show ?thesis
    using jdemo_uses(1) by (simp add: in_place_def db_ok_def jdemo_snapshot_def jdemo_size_def)
qed

lemma jdemo_values:
  "array_values jdemo_file 64 = jdemo_top" "array_values jdemo_file 160 = []" "array_values jdemo_file 168 = []" "array_values jdemo_file 176 = []"
  using jdemo_lists holds_list_values by (simp_all add: jdemo_top_def)

subsection \<open>The commit\<close>

definition jdemo_start :: group_writer where
  "jdemo_start = demo_start\<lparr>m_current_version := 4, m_oldest_reachable_version := 3, m_top_ref_map := [(3, (64, jdemo_size))],
     m_logical_size := jdemo_size, file_size := jdemo_size\<rparr>"

lemma jdemo_writer_of: "commit_writer jdemo_file jdemo_top no_evacuation 4 [(3, (64, jdemo_size))] False jdemo_size = Inr (jdemo_top, jdemo_start)"
proof -
  have "get_as_int (int (jdemo_top ! s_file_size_ndx)) = jdemo_size"
    using get_as_int_tagged [of jdemo_size] make_tagged_eq [of jdemo_size] by (simp add: jdemo_top_def jdemo_size_def s_file_size_ndx_def)
  then show ?thesis using jdemo_values
    by (simp add: commit_writer_def new_group_writer_def Let_def set_versions_def prepare_evacuation_def jdemo_start_def demo_start_def
      s_version_ndx_def s_free_pos_ndx_def s_free_size_ndx_def s_free_version_ndx_def jdemo_top_def)
qed

lemma jdemo_trees: "write_trees demo_env [] tp (jdemo_start, new_write_log f) = Some (Inr ([], jdemo_start, new_write_log f))"
  by (simp add: write_trees_def read_in_freelist_def jdemo_start_def demo_start_def Let_def set_backoff_def merge_adjacent_entries_in_freelist_def)

lemma jdemo_needed: "max_free_space_needed (length jdemo_top) [] jdemo_start = 248"
  by (simp add: max_free_space_needed_def get_max_byte_size_def size_per_free_list_entry_def jdemo_start_def demo_start_def header_size_def Let_def jdemo_size_def)

definition jdemo_extended :: group_writer where
  "jdemo_extended = jdemo_start\<lparr>m_size_map := [(0x100000, jdemo_size)], m_logical_size := 0x5110000, file_size := 0x5110000\<rparr>"

lemma jdemo_extend: "extend_free_space demo_env 256 jdemo_start = Inr (0, jdemo_extended)"
proof -
  have "align_size_to_section_boundary 0x5110000 = 0x8000000"
    by (simp add: align_size_to_section_boundary_def matches_section_boundary_def get_lower_section_boundary_def get_upper_section_boundary_def get_section_base_def get_section_index_def)
  then show ?thesis
    by (simp add: extend_free_space_def minimal_new_size_def extended_size_def Let_def resize_file_def emplace_size_def jdemo_start_def demo_start_def demo_env_def
      jdemo_extended_def round_up_to_page_size_def jdemo_size_def)
qed

lemma jdemo_reserve: "reserve_free_space demo_env 256 jdemo_start = Inr (0, jdemo_extended)"
proof -
  have s: "search_free_space_in_part_of_freelist 256 (m_size_map jdemo_start) = Inr (None, [])"
    by (simp add: search_free_space_in_part_of_freelist_def jdemo_start_def demo_start_def) (subst search_part_loop.simps, simp add: lower_bound_from_def)
  have f: "find_section_in_range jdemo_size 0x100000 256 = jdemo_size"
    by (simp add: find_section_in_range_def jdemo_size_def) (subst find_section_loop.simps, simp add: get_upper_section_boundary_def get_section_base_def get_section_index_def)
  have e: "search_free_space_in_free_list_element 0 256 [(0x100000, jdemo_size)] = Inr (Some 0, [(0x100000, jdemo_size)])"
    using f by (simp add: search_free_space_in_free_list_element_def jdemo_size_def)
  have g: "jdemo_start\<lparr>m_size_map := []\<rparr> = jdemo_start" by (simp add: jdemo_start_def demo_start_def)
  have hit: "reserve_loop demo_env 256 (Some 0) jdemo_extended = Inr (0, jdemo_extended)" by (subst reserve_loop.simps) simp
  have "reserve_loop demo_env 256 None jdemo_start = Inr (0, jdemo_extended)"
    using jdemo_extend e hit by (subst reserve_loop.simps) (simp add: jdemo_extended_def jdemo_start_def jdemo_size_def demo_start_def)
  then show ?thesis using s g by (simp add: reserve_free_space_def)
qed

definition jdemo_listed :: group_writer where
  "jdemo_listed = jdemo_extended\<lparr>m_free_positions := [jdemo_size], m_free_lengths := [0x100000], m_free_versions := [0]\<rparr>"

lemma jdemo_recreate: "recreate_freelist jdemo_size [] jdemo_extended = Inr (0, jdemo_listed)"
  by (simp add: recreate_freelist_def jdemo_extended_def jdemo_start_def demo_start_def jdemo_listed_def Let_def space_entry_def)

lemma jdemo_freelists:
  "\<exists>tr er g' lg'. write_freelists demo_env jdemo_top 64 [] (jdemo_start, new_write_log f) = Inr (jdemo_size, tr, er, 0x100000, g', lg') \<and>
     m_logical_size g' = 0x5110000 \<and> length (m_written_arrays lg') = 4 \<and> m_bytes_written lg' = er - jdemo_size"
proof -
  let ?top = "jdemo_top[s_file_size_ndx := nat (make_tagged 0x5110000)]" and ?lg = "new_write_log f"
  have sh: "shrink_file demo_env jdemo_extended = jdemo_extended" "\<not> shrinks jdemo_extended" "m_logical_size jdemo_extended = 0x5110000"
    "m_size_map jdemo_extended ! 0 = (0x100000, jdemo_size)"
    by (simp_all add: shrink_file_def shrinks_def jdemo_extended_def jdemo_start_def demo_start_def)
  obtain tr er g' lg' where f: "finish_lists demo_env ?top 64 248 0x100000 jdemo_size 0 (jdemo_listed, ?lg) = (tr, er, g', lg')"
    by (metis prod_cases4)
  obtain tops g5 where t: "start_compaction demo_env 0x100000 248 (set_slots jdemo_size 248 ?top jdemo_listed) jdemo_listed = (tops, g5)"
    by fastforce
  note F = finish_lists_eq [OF f t]
  have l: "m_free_positions g5 = [jdemo_size]" "m_free_lengths g5 = [0x100000]" "m_free_versions g5 = [0]"
    using start_compaction_fields(1-3) [OF t] by (simp_all add: jdemo_listed_def)
  have "m_logical_size g' = 0x5110000"
    using F(3) start_compaction_fields(4) [OF t] by (simp add: jdemo_listed_def jdemo_extended_def)
  moreover have "write_freelists demo_env jdemo_top 64 [] (jdemo_start, ?lg) = Inr (jdemo_size, tr, er, 0x100000, g', lg')"
    unfolding write_freelists_def Let_def prod.case jdemo_needed using jdemo_reserve sh jdemo_recreate f by simp
  moreover have "length (m_written_arrays lg') = 4 \<and> m_bytes_written lg' = er - jdemo_size"
    unfolding F(4) F(1,2) using F(3) l
    by (simp add: store_lists_def write_array_at_def Let_def new_write_log_def new_top_ref_def versions_ref_def sizes_ref_def jdemo_listed_def)
  ultimately show ?thesis by blast
qed

definition jdemo_slots :: "nat list \<Rightarrow> nat \<Rightarrow> nat" where
  "jdemo_slots refs i = (if i = s_hist_ref_ndx then 256 else 0)"

lemma jdemo_refs: "set_refs (jdemo_slots refs) jdemo_top = jdemo_top"
  by (simp add: set_refs_def jdemo_slots_def s_hist_ref_ndx_def s_evacuation_point_ndx_def jdemo_top_def)

lemma jdemo_committed:
  "\<exists>t lg. committed demo_env ({..<24} \<union> jaddr sample_chunks ` {..<capacity}) [jdemo_snapshot] False [(3, (64, jdemo_size))] (new_write_log jdemo_file) t lg \<and>
     sn_version t = 4 \<and> sn_size t = 0x5110000 \<and> length (m_written_arrays lg) = 4 \<and> m_bytes_written lg \<le> 248"
proof -
  let ?lg = "new_write_log jdemo_file" and ?snaps = "[jdemo_snapshot]" and ?tops = "[(3, (64, jdemo_size))]"
  obtain tr er g' lg' where w: "write_freelists demo_env jdemo_top 64 [] (jdemo_start, ?lg) = Inr (jdemo_size, tr, er, 0x100000, g', lg')"
      "m_logical_size g' = 0x5110000" "length (m_written_arrays lg') = 4" "m_bytes_written lg' = er - jdemo_size" using jdemo_freelists by blast
  have lg: "file_bytes ?lg = jdemo_file" by (simp add: new_write_log_def)
  have top: "transaction_top jdemo_file (last ?snaps) jdemo_top" by (simp add: transaction_top_def jdemo_values jdemo_snapshot_def s_version_ndx_def)
  have nf: "freed_ok (last ?snaps) []" by (simp add: freed_ok_def)
  have rep: "reported ?snaps False ?tops" by (simp add: reported_def jdemo_snapshot_def)
  have v: "sn_version (last ?snaps) < 4" by (simp add: jdemo_snapshot_def)
  have c: "commit_group demo_env jdemo_top 64 no_evacuation [] jdemo_slots [] 4 ?tops False jdemo_size ?lg = Some (Inr ([], jdemo_size, tr, er, 0x100000, g', lg'))"
    using w(1) jdemo_trees jdemo_refs by (simp add: commit_group_def lg jdemo_writer_of write_group_def)
  have small: "lists_small jdemo_top 64 [] jdemo_start g'"
    unfolding lists_small_def jdemo_needed using w(2)
    by (simp add: s_version_ndx_def valid_width_def locked_def nf_entries_def jdemo_start_def demo_start_def jdemo_top_def)
  let ?t = "new_snapshot ?snaps [] (array_blocks [] []) 4 jdemo_size tr er g'"
  have "committed demo_env ({..<24} \<union> jaddr sample_chunks ` {..<capacity}) ?snaps False ?tops ?lg ?t lg'"
    unfolding committed_def lg
    using top demo_transaction(2,3) nf v c jdemo_writer_of jdemo_trees [of _ jdemo_file] small jdemo_refs
    by (intro exI conjI) (assumption | simp add: checksums_ok_def)+
  moreover have "er \<le> jdemo_size + 248"
  proof -
    have db: "db_ok ?snaps jdemo_file" using jdemo_in_place by (simp add: in_place_def)
    have "trees_done demo_env ?snaps [] 4 jdemo_file (array_blocks [] []) jdemo_start ?lg"
      by (rule commit_phases(2) [OF db demo_ok(2) top demo_transaction(2,3) nf lg rep jdemo_writer_of jdemo_trees])
    then have "lists_ready demo_env [] jdemo_start" by (simp add: trees_done_def)
    from lists_fit(1) [OF this w(1) small] show ?thesis by (simp only: jdemo_needed)
  qed
  ultimately show ?thesis using w(2-4) by (intro exI [of _ ?t] exI [of _ lg']) (simp add: new_snapshot_def)
qed

end
