(* ===== verification/Journal_Durability.thy ===== *)
theory Journal_Durability
  imports First_Journal_Commit
begin

text \<open>
  Commits that are published in the commit journal. The header of the file still selects the snapshot of the
  last checkpoint; opening the file checks the arrays of every commit since then against the checksums in
  the journal. The list of snapshots here are those that are reachable and all since the checkpoint: nothing that the journal
  has a checksum of may be overwritten, although most of these snapshots are not reachable any more. This
  holds as long as no free space is dated back, which is when the writer is not told of new unreachable versions.
\<close>

subsection \<open>The journal and the snapshots\<close>

definition jbytes :: "commit_journal \<Rightarrow> nat set" where
  "jbytes j = {..<24} \<union> jaddr (m_chunks j) ` {..<capacity}"









subsection \<open>A commit\<close>







subsection \<open>Runs\<close>









subsection \<open>The guarantee\<close>







lemma jdemo_fields [simp]:
  "m_chunks jdemo_journal = sample_chunks" "m_tail jdemo_journal = 0" "m_checkpoint_top_ref jdemo_journal = 64" "m_checkpoint_version jdemo_journal = 3"
  "m_checkpoint_logical_size jdemo_journal = jdemo_size" "jbytes jdemo_journal = {..<24} \<union> jaddr sample_chunks ` {..<capacity}"
  by (simp_all add: jdemo_journal_def sample_journal_def jbytes_def)




end
