(* ===== verification/Spec2Isabelle.thy ===== *)
theory Spec2Isabelle
  imports Crash_Safety Slab_Arrays Version_System Commit_Safety Atomic_Commit Journal_Durability
begin

text \<open>
  A verification development for the storage engine llbt: a library that keeps arrays of integers
  and values in one memory mapped file, shares it between threads and processes, and commits by
  copy on write.

  \<^bold>\<open>The program.\<close> A database file is a heap of nodes, addressed by refs. A node is an eight byte
  header (\<^verbatim>\<open>node_header.hpp\<close>) and a packed payload (\<^verbatim>\<open>array_direct.hpp\<close>); integer arrays
  (\<^verbatim>\<open>array.cpp\<close>, \<^verbatim>\<open>node.cpp\<close>) are the nodes from which everything else is built. A write
  transaction gets new nodes from the slab allocator (\<^verbatim>\<open>alloc_slab.cpp\<close>), which hands out memory
  above the file, and tells it which nodes of the file it no longer uses. A commit then finds room
  in the file for the new nodes (\<^verbatim>\<open>group_writer.cpp\<close>), writes them, writes new free lists and a new
  top array (\<^verbatim>\<open>group.hpp\<close>), and makes the new snapshot known either in the file header or as a
  record of the commit journal (\<^verbatim>\<open>core/commit_journal.cpp\<close>), which carries a checksum of every
  node (\<^verbatim>\<open>core/crc32c.cpp\<close>) and is read back after a crash (\<^verbatim>\<open>core/commit_recovery.cpp\<close>). Old
  snapshots stay readable as long as a reader holds a lock on their version; the locks are counted
  in a version list that all processes share (\<^verbatim>\<open>db.cpp\<close>), and a writer learns from it which
  versions are still reachable and must not be overwritten.

  \<^bold>\<open>How code corresponds to the model.\<close> Bytes, 32 and 64 bit fields are words of that width, so that
  they wrap around as in the code; sizes, refs and versions are natural numbers, with the 64 bit
  limits written out where the code checks them. The contents of memory and file are a function
  from addresses to bytes. A throw or a failed release assertion is a value of the error type of
  \<open>Prelude\<close>; debug assertions are compiled out and not part of the model. State is passed
  explicitly, one record per C++ class with the names of its members. Operations that the code runs
  under a mutex are single steps.

  \<^item> \<open>Prelude\<close>: machine types, errors, memory, little endian codecs, shared facts.
  \<^item> \<open>Crc32c\<close> models \<^verbatim>\<open>core/crc32c.cpp\<close>: the table driven and the SSE4.2 loop compute the
    CRC-32C, which detects every change of one byte. The two instructions are parameters.
  \<^item> \<open>Node_Header\<close> and \<open>Array_Direct\<close> model \<^verbatim>\<open>node_header.hpp\<close> and
    \<^verbatim>\<open>array_direct.hpp\<close>: header fields and packed elements read back as written, and the
    unrolled binary searches find the bounds.
  \<^item> \<open>Array_Node\<close>, \<open>Array_Payload\<close>, \<open>Array_Spec\<close> and \<open>Array_Lists\<close> model \<^verbatim>\<open>node.cpp\<close> and
    \<^verbatim>\<open>array.cpp\<close>: an array over any allocator that keeps the laws of the locale
    \<open>allocator\<close> refines a list of integers.
  \<^item> \<open>Slab_Alloc\<close> models \<^verbatim>\<open>alloc_slab.cpp\<close>; \<open>Slab_Blocks\<close> and \<open>Slab_Invariant\<close> prove its
    invariant, \<open>Slab_Laws\<close> that it keeps the laws of the interface, \<open>Slab_Run\<close> what holds in every
    state of its life, and \<open>Slab_Arrays\<close> is the composition of arrays and allocator.
  \<^item> \<open>Group_Top\<close> models the readers of the top array in \<^verbatim>\<open>group.hpp\<close> and \<^verbatim>\<open>group.cpp\<close>.
  \<^item> \<open>Journal_Format\<close>, \<open>Commit_Journal\<close> and \<open>Commit_Recovery\<close> model the commit journal and the scan
    that reads it; \<open>Crash_Safety\<close> shows what survives a crash at any point of an append, a damaged
    node, a failed write and a checkpoint.
  \<^item> \<open>Version_List\<close> and \<open>Version_Manager\<close> model \<^verbatim>\<open>struct VersionList\<close> and the version managers of
    \<^verbatim>\<open>db.cpp\<close>; \<open>Version_Locks\<close> and \<open>Version_System\<close> show for any number of processes, with
    crashes of writers, that counters are exact and that a held snapshot is kept.
  \<^item> \<open>File_Space\<close> and \<open>Group_Writer\<close> model \<^verbatim>\<open>group_writer.cpp\<close>; \<open>File_Space_Laws\<close>,
    \<open>Free_Lists\<close> and \<open>Space_Requests\<close> account for every byte of the free space of the file.
  \<^item> \<open>Backdating\<close> shows that an entry is only dated back to a version when it was free in every
    reachable snapshot from there on; \<open>List_Nodes\<close> that the arrays of numbers a commit writes read
    back; \<open>Commit_Space\<close> what one commit does to the free space. \<open>Commit_Run\<close> is the transition
    system of commits and of snapshots that become unreachable, with its invariant, and
    \<open>Commit_Safety\<close> has the guarantees for every run from an empty file: reachable snapshots are
    never overwritten, commits return, and the free lists read back. \<open>First_Commit\<close> evaluates the
    first commit into an empty file.
  \<^item> \<open>File_Header\<close> models the file header, its check in \<^verbatim>\<open>alloc_slab.cpp\<close> and the flip of its slot
    in \<^verbatim>\<open>GroupCommitter::commit\<close>, with the contents that a crash can leave in the file between two
    synchronizations; \<open>Low_Level_Commit\<close> models \<^verbatim>\<open>DB::low_level_commit\<close>, which chooses between
    journal and header. \<open>Commit_Crash\<close> shows which bytes the writes of a commit leave as they are
    when some bytes of the file are written in place, and that the arrays of the commit are in the
    file; \<open>Atomic_Commit\<close> shows that a crash during a commit leaves the old or the new
    snapshot, complete, and \<open>Journal_Durability\<close> that opening a file finds the latest commit of its journal, as long as no free
    space is dated back. \<open>First_Journal_Commit\<close> evaluates the first commit after a checkpoint.

  \<^bold>\<open>Bounds and loops.\<close> The loops of the scan, of the allocator and of the free space searches are
  recursive functions with termination proofs; no fuel is used for them. The loop that extends the
  file until a request fits ends because the file stays below 16 EB (the range of 64 bit sizes); the loop that dates back
  an entry of a free list, whose end depends on the stored lists, is a partial function, and it is
  proved to return. The array lemmas assume at most 4000000 elements,
  so that every request stays below the 64 MB limit of the allocator. Requests to the slab
  allocator are at most 64 MB less 16 bytes, the most that a slab can hold.

  \<^bold>\<open>Not modelled.\<close> Third party code (the JSON and the decimal library), the operating system
  interface (files, mappings, mutexes, condition variables, encryption through cipher libraries) and
  what only formats text or logs. Opening and attaching a database, mapping and translation of refs,
  transactions and accessors, typed leaves, blobs and queries, the queue of group commits of the core
  store and the C interface are not modelled either; the manifest lists them with reasons. The model
  of a file is its contents, so a crash is described by the bytes that reached the file; that
  \<^verbatim>\<open>msync\<close> makes bytes durable in the order in which the code calls it is the assumption
  behind that description.
\<close>

end
